(* ===== verification/Kernel_Prelude.thy ===== *)
theory Kernel_Prelude
  imports Main "HOL-Library.Word"
begin

text \<open>
  Types, outcomes and generic lemmas shared by the theories of this development: the
  fixed-width integers of \<^verbatim>\<open>src/src/include/std/ints.h\<close>, the outcomes of kernel code that
  may panic or never return, the page-stride \<^verbatim>\<open>for\<close> loop that the boot and allocation code
  repeats, and facts about 32-bit arithmetic without wrap-around.
\<close>

unbundle bit_operations_syntax

section \<open>Fixed-width integers (ints.h)\<close>

type_synonym u8 = "8 word"
type_synonym u16 = "16 word"
type_synonym u32 = "32 word"
type_synonym i32 = "32 word" \<comment> \<open>read with \<open>sint\<close> where the code compares or divides\<close>

named_theorems word_nowrap \<comment> \<open>32-bit arithmetic that does not wrap, moved to \<open>nat\<close>\<close>
named_theorems align_simps \<comment> \<open>alignment of addresses\<close>
named_theorems res_simps \<comment> \<open>evaluation of outcomes\<close>

lemma unat_u32_less [simp]: "unat (x :: u32) < 4294967296"
  using unsigned_less [of x] by simp

lemma unat_u32_le [simp]: "unat (x :: u32) \<le> 4294967295"
  using unat_u32_less [of x] by linarith

lemma u32_add_nowrap [word_nowrap]:
  "unat a + unat b < 4294967296 \<Longrightarrow> unat (a + b :: u32) = unat a + unat b"
  using unat_add_lem [of a b] by simp

lemma u32_sub_nowrap [word_nowrap]:
  "unat b \<le> unat a \<Longrightarrow> unat (a - b :: u32) = unat a - unat b"
  by (simp add: unat_sub word_le_nat_alt)

lemma u32_of_nat [word_nowrap]:
  "n < 4294967296 \<Longrightarrow> unat (word_of_nat n :: u32) = n"
  by (simp add: unat_of_nat take_bit_nat_eq_self)

lemma u32_eqI: "unat a = unat b \<Longrightarrow> a = (b :: u32)"
  by (simp add: unsigned_word_eqI)

lemma u32_mult_nowrap [word_nowrap]:
  "unat a * unat b < 4294967296 \<Longrightarrow> unat (a * b :: u32) = unat a * unat b"
  using unat_mult_lem [of a b] by simp

lemma take_bit_u32_self: "take_bit n (x :: u32) = x" if "32 \<le> n"
  using that by (auto intro!: bit_word_eqI simp: bit_simps)

lemma unat_ucast_u8_u32 [simp]: "unat (ucast (x :: u8) :: u32) = unat x"
  by transfer simp

lemma unat_ucast_u8_u16 [simp]: "unat (ucast (x :: u8) :: u16) = unat x"
  by transfer simp

lemma unat_ucast_u16_u32 [simp]: "unat (ucast (x :: u16) :: u32) = unat x"
  by transfer simp

text \<open>Page addresses: the low twelve bits are zero.\<close>

lemma page_low_bits: "(x :: u32) AND 0xFFF = take_bit 12 x"
proof -
  have "(0xFFF :: u32) = mask 12" by (simp add: mask_eq_exp_minus_1)
  then show ?thesis by (simp add: take_bit_eq_mask)
qed

lemma page_low_nat: "unat ((x :: u32) AND 0xFFF) = unat x mod 4096"
proof -
  have "unat (take_bit 12 x) = take_bit 12 (unat x)" by (rule unsigned_take_bit_eq)
  then show ?thesis unfolding page_low_bits by (simp add: take_bit_eq_mod)
qed

lemma page_aligned_nat: "(x :: u32) AND 0xFFF = 0 \<longleftrightarrow> unat x mod 4096 = 0"
proof -
  have "(x AND 0xFFF = 0) = (unat (x AND 0xFFF) = 0)" by (rule unat_eq_0 [symmetric])
  then show ?thesis by (simp only: page_low_nat)
qed

section \<open>Outcomes\<close>

text \<open>
  \<^verbatim>\<open>kPanic\<close> (\<^verbatim>\<open>src/src/include/kernel_panic.h\<close>) prints \<open>__FILE__:__LINE__\<close> and halts for ever: it
  is the value \<open>KPanic file line\<close>. \<open>Stuck\<close> is every other way of not returning: a
  loop that never ends, or an access to an unmapped address such as \<^verbatim>\<open>NULL\<close> (the handler
  \<^verbatim>\<open>pageFault\<close> prints and returns to the faulting instruction, which faults again).
  \<open>Undefined file line\<close> is an access outside the bounds of a C array, whose effect the
  source does not determine.
\<close>

datatype kfault = KPanic string nat | Stuck | Undefined string nat

type_synonym 'a res = "kfault + 'a"

definition res_bind :: "'a res \<Rightarrow> ('a \<Rightarrow> 'b res) \<Rightarrow> 'b res" where
  "res_bind r f = (case r of Inl e \<Rightarrow> Inl e | Inr x \<Rightarrow> f x)"

lemma res_bind_simps [simp, res_simps]:
  "res_bind (Inl e) f = Inl e"
  "res_bind (Inr x) f = f x"
  by (simp_all add: res_bind_def)

lemma res_bind_eq_Inr: "res_bind r f = Inr y \<longleftrightarrow> (\<exists>x. r = Inr x \<and> f x = Inr y)"
  by (cases r) auto

text \<open>A loop is a \<open>partial_function (option)\<close>; its \<open>None\<close> (no return) becomes \<open>Stuck\<close>.\<close>

definition loop_res :: "'a res option \<Rightarrow> 'a res" where
  "loop_res r = (case r of None \<Rightarrow> Inl Stuck | Some x \<Rightarrow> x)"

lemma loop_res_simps [simp, res_simps]:
  "loop_res None = Inl Stuck"
  "loop_res (Some r) = r"
  by (simp_all add: loop_res_def)

definition returned :: "'a option \<Rightarrow> 'a res" where
  "returned r = (case r of None \<Rightarrow> Inl Stuck | Some x \<Rightarrow> Inr x)"

lemma returned_simps [simp, res_simps]:
  "returned None = Inl Stuck"
  "returned (Some x) = Inr x"
  by (simp_all add: returned_def)

text \<open>Running a step for every element of a list, up to the first fault.\<close>

fun fold_res :: "('a \<Rightarrow> 's \<Rightarrow> 's res) \<Rightarrow> 'a list \<Rightarrow> 's \<Rightarrow> 's res" where
  "fold_res f [] s = Inr s"
| "fold_res f (x # xs) s = res_bind (f x s) (fold_res f xs)"

lemma fold_res_append:
  "fold_res f (xs @ ys) s = res_bind (fold_res f xs s) (fold_res f ys)"
proof (induction xs arbitrary: s)
  case (Cons x xs)
  then show ?case by (cases "f x s") auto
qed simp

lemma fold_res_invariant:
  assumes "\<And>x s. x \<in> set xs \<Longrightarrow> I s \<Longrightarrow> \<exists>s'. f x s = Inr s' \<and> I s'" and "I s"
  shows "\<exists>s'. fold_res f xs s = Inr s' \<and> I s'"
  using assms
proof (induction xs arbitrary: s)
  case (Cons x xs)
  from Cons.prems obtain s' where "f x s = Inr s'" "I s'" by auto
  with Cons show ?case by auto
qed simp

lemma fold_res_total: "fold_res (\<lambda>x s. Inr (f x s)) xs s = Inr (fold f xs s)"
  by (induction xs arbitrary: s) auto

lemma fold_res_cong:
  assumes "\<And>x s. x \<in> set xs \<Longrightarrow> f x s = g x s"
  shows "fold_res f xs s = fold_res g xs s"
  using assms
proof (induction xs arbitrary: s)
  case (Cons x xs)
  then show ?case by (cases "g x s") auto
qed simp

section \<open>The page-stride loop\<close>

text \<open>
  \<^verbatim>\<open>for (u32 i = a; i < n; i += 0x1000) body\<close>; the bound is read again before every
  iteration, as the code does (\<^verbatim>\<open>mmap->lenlow\<close>). The counter is a \<^verbatim>\<open>u32\<close>, so for a bound above
  \<open>0xFFFFF000\<close> the increment wraps and the loop never ends.
\<close>

partial_function (option) page_loop ::
  "u32 \<Rightarrow> ('s \<Rightarrow> u32) \<Rightarrow> (u32 \<Rightarrow> 's \<Rightarrow> 's res) \<Rightarrow> 's \<Rightarrow> 's res option" where
  "page_loop i bound f s =
     (if i < bound s then
        (case f i s of Inl e \<Rightarrow> Some (Inl e)
         | Inr s' \<Rightarrow> page_loop (i + 0x1000) bound f s')
      else Some (Inr s))"

declare page_loop.simps [code]

definition page_steps :: "u32 \<Rightarrow> u32 \<Rightarrow> nat" where
  "page_steps i n = (unat n + 4095 - unat i) div 4096"

definition page_offsets :: "u32 \<Rightarrow> u32 \<Rightarrow> u32 list" where
  "page_offsets i n = map (\<lambda>k. i + word_of_nat (4096 * k)) [0..<page_steps i n]"

lemma page_offsets_stop: "\<not> i < n \<Longrightarrow> page_offsets i n = []"
  by (auto simp: page_offsets_def page_steps_def word_less_nat_alt)

lemma page_steps_Suc:
  assumes "i < n" and "unat n \<le> 4294963200"
  shows "page_steps i n = Suc (page_steps (i + 0x1000) n)"
proof -
  have "unat (i + 0x1000) = unat i + 4096"
    using assms by (simp add: u32_add_nowrap word_less_nat_alt)
  moreover have "unat i < unat n" using assms by (simp add: word_less_nat_alt)
  ultimately show ?thesis by (simp add: page_steps_def)
qed

lemma page_offsets_step:
  assumes "i < n" and "unat n \<le> 4294963200"
  shows "page_offsets i n = i # page_offsets (i + 0x1000) n"
proof -
  have "[0..<Suc (page_steps (i + 0x1000) n)] = 0 # map Suc [0..<page_steps (i + 0x1000) n]"
    by (simp add: map_Suc_upt upt_conv_Cons del: upt_Suc)
  then show ?thesis
    by (simp add: page_offsets_def page_steps_Suc [OF assms] algebra_simps del: upt_Suc)
qed

text \<open>
  Below the wrap-around bound, a loop whose bound stays the same on its way returns, and is
  a run over the page offsets.
\<close>

lemma page_loop_path:
  assumes n: "unat n \<le> 4294963200"
    and "\<And>k u. fold_res f (take k (page_offsets i n)) s = Inr u \<Longrightarrow> bound u = n"
  shows "page_loop i bound f s = Some (fold_res f (page_offsets i n) s)"
  using assms(2)
proof (induction "page_steps i n" arbitrary: i s)
  case 0
  then have "\<not> i < n"
    using page_steps_Suc [OF _ n, of i] by auto
  moreover have "bound s = n" using 0(2) [of 0] by simp
  ultimately show ?case
    by (subst page_loop.simps) (simp add: page_offsets_stop)
next
  case (Suc k)
  then have lt: "i < n" by (auto simp: page_steps_def word_less_nat_alt)
  then have k: "k = page_steps (i + 0x1000) n"
    using Suc.hyps(2) page_steps_Suc [OF lt n] by simp
  note step = page_offsets_step [OF lt n]
  have b: "bound s = n" using Suc.prems [of 0] by simp
  show ?case
  proof (cases "f i s")
    case (Inl e)
    then show ?thesis using lt b by (subst page_loop.simps) (simp add: step)
  next
    case (Inr s')
    have "bound u = n" if "fold_res f (take j (page_offsets (i + 0x1000) n)) s' = Inr u" for j u
      using Suc.prems [of "Suc j" u] that Inr by (simp add: step)
    with Suc.hyps(1) [OF k] Inr lt b show ?thesis
      by (subst page_loop.simps) (simp add: step)
  qed
qed

lemma page_loop_eq:
  assumes "unat n \<le> 4294963200"
  shows "page_loop i (\<lambda>_. n) f s = Some (fold_res f (page_offsets i n) s)"
  by (rule page_loop_path [OF assms]) simp

text \<open>Above the bound a body that never faults is repeated for ever.\<close>

lemma page_loop_forever:
  assumes "4294963200 < unat n" and "unat i mod 4096 = 0"
    and "\<And>k s. \<exists>s'. f k s = Inr s'"
  shows "page_loop i (\<lambda>_. n) f s = None"
proof (rule ccontr)
  assume "page_loop i (\<lambda>_. n) f s \<noteq> None"
  then obtain r where "page_loop i (\<lambda>_. n) f s = Some r" by blast
  then have "unat i mod 4096 \<noteq> 0"
  proof (rule page_loop.raw_induct [where P = "\<lambda>i b g s r. b = (\<lambda>_. n) \<longrightarrow> g = f \<longrightarrow>
      unat i mod 4096 \<noteq> 0", rotated, THEN mp, THEN mp])
    fix loop i bound g s r
    assume IH: "\<And>i b g s r. loop i b g s = Some r
        \<Longrightarrow> b = (\<lambda>_. n) \<longrightarrow> g = f \<longrightarrow> unat (i :: u32) mod 4096 \<noteq> 0"
      and ret: "(if i < bound s then case g i s of Inl e \<Rightarrow> Some (Inl e)
         | Inr s' \<Rightarrow> loop (i + 0x1000) bound g s' else Some (Inr s)) = Some r"
    show "bound = (\<lambda>_. n) \<longrightarrow> g = f \<longrightarrow> unat i mod 4096 \<noteq> 0"
    proof (intro impI notI)
      assume b: "bound = (\<lambda>_. n)" "g = f" and i: "unat i mod 4096 = 0"
      have "unat i \<le> 4294963200"
      proof -
        have "unat i div 4096 < 1048576" by (simp add: less_mult_imp_div_less)
        moreover have "unat i = 4096 * (unat i div 4096)" using i by auto
        ultimately show ?thesis by linarith
      qed
      then have "i < n" using assms(1) by (simp add: word_less_nat_alt)
      moreover obtain s' where "f i s = Inr s'" using assms(3) by blast
      ultimately have "loop (i + 0x1000) bound g s' = Some r" using ret b by simp
      then have "unat (i + 0x1000) mod 4096 \<noteq> 0" using IH b by blast
      moreover have "unat (i + 0x1000) mod 4096 = 0"
        using i by (simp add: unat_word_ariths mod_mod_cancel)
      ultimately show False by simp
    qed
  qed simp_all
  with assms(2) show False by simp
qed

lemma page_offset_value:
  assumes "k < page_steps i n" and "unat n \<le> 4294963200"
  shows "unat (i + word_of_nat (4096 * k)) = unat i + 4096 * k"
    and "unat i + 4096 * k < unat n"
proof -
  have "4096 * k < unat n - unat i" "unat i < unat n"
    using assms(1) by (auto simp: page_steps_def less_mult_imp_div_less)
  then show b: "unat i + 4096 * k < unat n" by linarith
  have "4096 * k < 4294967296" using b assms(2) by linarith
  then show "unat (i + word_of_nat (4096 * k)) = unat i + 4096 * k"
    using b assms(2) by (simp add: u32_add_nowrap u32_of_nat del: of_nat_mult)
qed

section \<open>Typed objects at addresses\<close>

type_synonym 'a store = "u32 \<Rightarrow> 'a option"

text \<open>
  Dereferencing: \<^verbatim>\<open>NULL\<close> faults for ever, any other address without an object is an access
  outside of every object.
\<close>

definition deref :: "string \<Rightarrow> nat \<Rightarrow> 'a store \<Rightarrow> u32 \<Rightarrow> 'a res" where
  "deref file line m p = (case m p of Some x \<Rightarrow> Inr x | None \<Rightarrow> Inl (if p = 0 then Stuck else Undefined file line))"

definition update_at :: "string \<Rightarrow> nat \<Rightarrow> u32 \<Rightarrow> ('a \<Rightarrow> 'a) \<Rightarrow> 'a store \<Rightarrow> 'a store res" where
  "update_at file line p f m = res_bind (deref file line m p) (\<lambda>x. Inr (m(p \<mapsto> f x)))"

lemma deref_simps [simp]:
  "m p = Some x \<Longrightarrow> deref file line m p = Inr x"
  "m p = Some x \<Longrightarrow> update_at file line p f m = Inr (m(p \<mapsto> f x))"
  by (simp_all add: deref_def update_at_def)

end
