(* ===== verification/Kernel_Memory.thy ===== *)
theory Kernel_Memory
  imports Kernel_Prelude
begin

text \<open>
  The kernel's memory as the C code sees it: bytes at 32-bit addresses, and the 32-bit
  little-endian loads and stores through which the code reads and writes its \<^verbatim>\<open>u32\<close> fields and
  arrays. The locale \<open>word_store\<close> is the interface the array-based structures (page bitmap,
  page stack, page tables) rely on. The record \<open>kmem\<close> holds the static variables of the
  memory modules.
\<close>

section \<open>Bytes and 32-bit words\<close>

type_synonym mem = "u32 \<Rightarrow> u8"

definition load32 :: "mem \<Rightarrow> u32 \<Rightarrow> u32" where
  "load32 m a = ucast (m a) OR push_bit 8 (ucast (m (a + 1)))
     OR push_bit 16 (ucast (m (a + 2))) OR push_bit 24 (ucast (m (a + 3)))"

definition store32 :: "mem \<Rightarrow> u32 \<Rightarrow> u32 \<Rightarrow> mem" where
  "store32 m a v = m(a := ucast v, a + 1 := ucast (drop_bit 8 v),
     a + 2 := ucast (drop_bit 16 v), a + 3 := ucast (drop_bit 24 v))"

definition aligned4 :: "u32 \<Rightarrow> bool" where
  "aligned4 a \<longleftrightarrow> unat a mod 4 = 0"

lemma load32_store32_same [simp]: "load32 (store32 m a v) a = v"
proof (rule bit_word_eqI)
  fix n assume n: "n < LENGTH(32)"
  have "n < 8 \<or> (8 \<le> n \<and> n < 16) \<or> (16 \<le> n \<and> n < 24) \<or> (24 \<le> n \<and> n < 32)"
    using n by simp linarith
  then show "bit (load32 (store32 m a v) a) n \<longleftrightarrow> bit v n"
    by (elim disjE) (auto simp: load32_def store32_def bit_simps)
qed

lemma load32_zero [simp]: "load32 (\<lambda>_. 0) a = 0"
  by (simp add: load32_def)

lemma load32_byte_other:
  "x \<notin> {a, a + 1, a + 2, a + 3} \<Longrightarrow> load32 (m(x := b)) a = load32 m a"
  by (auto simp: load32_def)

lemma store32_byte_other:
  "x \<notin> {a, a + 1, a + 2, a + 3} \<Longrightarrow> store32 m a v x = m x"
  by (auto simp: store32_def)

lemma load32_cong: "(\<And>x. x \<in> {a, a + 1, a + 2, a + 3} \<Longrightarrow> m x = m' x) \<Longrightarrow> load32 m a = load32 m' a"
  unfolding load32_def by simp

lemma u32_add_mod4: "unat (a + b :: u32) mod 4 = (unat a + unat b) mod 4"
  by (simp add: unat_word_ariths mod_mod_cancel)

lemma aligned4_add:
  assumes "aligned4 a" and "k \<in> {0, 1, 2, 3}"
  shows "unat (a + k) mod 4 = unat k"
proof -
  have "unat (a + k) mod 4 = (unat a mod 4 + unat k) mod 4"
    by (simp add: u32_add_mod4 mod_add_left_eq)
  with assms show ?thesis by (auto simp: aligned4_def)
qed

lemma aligned4_disjoint:
  assumes "aligned4 a" "aligned4 b" "a \<noteq> b" "j \<in> {0, 1, 2, 3}" "k \<in> {0, 1, 2, 3}"
  shows "a + j \<noteq> b + k"
proof
  assume eq: "a + j = b + k"
  then have "j = k"
    using aligned4_add [OF assms(1,4)] aligned4_add [OF assms(2,5)]
    by (simp add: u32_eqI)
  with eq assms(3) show False by simp
qed

lemma load32_store32_other [simp]:
  assumes "aligned4 a" "aligned4 b" "a \<noteq> b"
  shows "load32 (store32 m a v) b = load32 m b"
proof (rule load32_cong)
  fix x assume "x \<in> {b, b + 1, b + 2, b + 3}"
  then obtain k where k: "k \<in> {0, 1, 2, 3}" "x = b + k" by fastforce
  have "\<And>j. j \<in> {0, 1, 2, 3} \<Longrightarrow> x \<noteq> a + j"
    using aligned4_disjoint [OF assms _ k(1)] k(2) by metis
  from this [of 0] this [of 1] this [of 2] this [of 3]
  have "x \<notin> {a, a + 1, a + 2, a + 3}" by simp
  then show "store32 m a v x = m x"
    by (rule store32_byte_other)
qed

lemma aligned4_plus [align_simps]: "aligned4 a \<Longrightarrow> aligned4 b \<Longrightarrow> aligned4 (a + b)"
  by (simp add: aligned4_def u32_add_mod4 mod_add_eq [symmetric])

lemma aligned4_times4 [simp, align_simps]: "aligned4 (4 * x)"
  by (simp add: aligned4_def unat_word_ariths mod_mod_cancel)

lemma aligned4_minus [align_simps]:
  assumes "aligned4 a" and "aligned4 b" shows "aligned4 (a - b)"
proof -
  have "unat a mod 4 = (unat (a - b) + unat b) mod 4"
    using u32_add_mod4 [of "a - b" b] by simp
  with assms show ?thesis by (simp add: aligned4_def) presburger
qed

text \<open>The byte loop of \<^verbatim>\<open>memset\<close> and \<^verbatim>\<open>calloc\<close>: \<open>n\<close> bytes from \<open>p\<close> upwards set to \<open>c\<close>.\<close>

fun fill_bytes :: "u32 \<Rightarrow> u8 \<Rightarrow> nat \<Rightarrow> mem \<Rightarrow> mem" where
  "fill_bytes p c 0 m = m"
| "fill_bytes p c (Suc n) m = fill_bytes (p + 1) c n (m(p := c))"

lemma fill_bytes_value:
  "n \<le> 4294967295 \<Longrightarrow> fill_bytes p c n m x = (if unat (x - p) < n then c else m x)"
proof (induction n arbitrary: p m)
  case (Suc n)
  have IH: "fill_bytes p c (Suc n) m x = (if unat (x - (p + 1)) < n then c else (m(p := c)) x)"
    using Suc by simp
  show ?case
  proof (cases "x = p")
    case True
    then show ?thesis using IH by simp
  next
    case False
    then have "x - p \<noteq> 0" by simp
    then have "unat (x - p - 1) = unat (x - p) - 1" "unat (x - p) \<noteq> 0"
      by (simp_all add: unat_minus_one unat_eq_0)
    moreover have "x - (p + 1) = x - p - 1" by (rule diff_diff_eq [symmetric])
    then have "unat (x - (p + 1)) = unat (x - p - 1)" by (rule arg_cong)
    ultimately show ?thesis using IH False by auto
  qed
qed simp

section \<open>Arrays of words\<close>

text \<open>
  What the array code relies on: a store is read back, and leaves every other aligned word
  alone. The clients are arrays \<^verbatim>\<open>base[i]\<close> of \<^verbatim>\<open>u32\<close> at an aligned base.
\<close>

definition word_at :: "u32 \<Rightarrow> nat \<Rightarrow> u32" where
  "word_at base i = base + 4 * word_of_nat i"

lemma word_at_inject:
  assumes "i < 1073741824" and "j < 1073741824"
  shows "word_at base i = word_at base j \<longleftrightarrow> i = j"
proof
  assume "word_at base i = word_at base j"
  then have "4 * (word_of_nat i :: u32) = 4 * word_of_nat j"
    by (simp add: word_at_def)
  moreover have "unat (4 * (word_of_nat k :: u32)) = 4 * k" if "k < 1073741824" for k
  proof -
    have "unat (word_of_nat k :: u32) = k" using that by (simp add: u32_of_nat)
    then show ?thesis using that by (simp add: u32_mult_nowrap)
  qed
  ultimately show "i = j" using assms by (metis mult_cancel1 zero_neq_numeral)
qed simp

lemma aligned4_word_at [simp]: "aligned4 base \<Longrightarrow> aligned4 (word_at base i)"
  by (simp add: word_at_def aligned4_plus)

lemma word_at_Suc: "word_at base (Suc i) = word_at base i + 4"
  by (simp add: word_at_def algebra_simps)

lemma unat_word_at:
  assumes "unat base + 4 * i < 4294967296"
  shows "unat (word_at base i) = unat base + 4 * i"
proof -
  have "unat (word_of_nat i :: u32) = i" using assms by (simp add: u32_of_nat)
  moreover from this have "unat (4 * (word_of_nat i :: u32)) = 4 * i"
    using assms by (simp add: u32_mult_nowrap)
  ultimately show ?thesis using assms by (simp add: word_at_def u32_add_nowrap)
qed

locale word_store =
  fixes rd :: "'m \<Rightarrow> u32 \<Rightarrow> u32"
    and wr :: "'m \<Rightarrow> u32 \<Rightarrow> u32 \<Rightarrow> 'm"
  assumes rd_wr_same: "rd (wr m a v) a = v"
    and rd_wr_other: "aligned4 a \<Longrightarrow> aligned4 b \<Longrightarrow> a \<noteq> b \<Longrightarrow> rd (wr m a v) b = rd m b"
begin

lemma array_upd:
  assumes "aligned4 base" "i < 1073741824" "j < 1073741824"
  shows "rd (wr m (word_at base i) v) (word_at base j)
    = (if i = j then v else rd m (word_at base j))"
  using assms word_at_inject [OF assms(2,3)] by (auto simp: rd_wr_same rd_wr_other)

lemma array_list_upd:
  assumes "aligned4 base" "i < n" "n \<le> 1073741824"
  shows "map (\<lambda>j. rd (wr m (word_at base i) v) (word_at base j)) [0..<n]
    = (map (\<lambda>j. rd m (word_at base j)) [0..<n])[i := v]"
  using assms by (auto intro!: nth_equalityI simp: array_upd nth_list_update)

lemma array_list_other:
  assumes "aligned4 base" "aligned4 a" "\<And>j. j < n \<Longrightarrow> a \<noteq> word_at base j"
  shows "map (\<lambda>j. rd (wr m a v) (word_at base j)) [0..<n]
    = map (\<lambda>j. rd m (word_at base j)) [0..<n]"
  using assms by (auto simp: rd_wr_other)

end

interpretation ram: word_store load32 store32
  by unfold_locales simp_all

section \<open>Static variables of the memory modules\<close>

text \<open>
  \<open>bitmap_address\<close>: \<^verbatim>\<open>physical_memory_bitmap.c\<close>; \<open>stack_start\<close>, \<open>stackpointer\<close>:
  \<^verbatim>\<open>physical_memory_stack.c\<close>; \<open>heap_ptr\<close> (the C variable \<^verbatim>\<open>heap\<close>): \<^verbatim>\<open>kernel_heap.c\<close>;
  \<open>acpi_address\<close>: \<^verbatim>\<open>acpi.c\<close>. Pointers are addresses, \<^verbatim>\<open>NULL\<close> is 0.
\<close>

record kmem =
  ram :: mem
  bitmap_address :: u32
  stack_start :: u32
  stackpointer :: u32
  heap_ptr :: u32
  acpi_address :: u32

definition zero_kmem :: kmem where
  "zero_kmem = \<lparr>ram = (\<lambda>_. 0), bitmap_address = 0, stack_start = 0, stackpointer = 0,
     heap_ptr = 0, acpi_address = 0\<rparr>"

end
