(* ===== verification/Page_Bitmap.thy ===== *)
theory Page_Bitmap
  imports Kernel_Memory
begin

text \<open>
  \<^verbatim>\<open>src/src/memory/physical_memory_bitmap.c\<close>: two status bits per physical page, sixteen
  pages to a 32-bit word, the lowest page number in the highest bits. The locale
  \<open>status_table\<close> is the contract the page allocator uses.
\<close>

section \<open>Page status\<close>

datatype PageStatus = FREE | ALLOCATED | SYSTEM | ACPI

fun status_code :: "PageStatus \<Rightarrow> u32" where
  "status_code FREE = 0"
| "status_code ALLOCATED = 1"
| "status_code SYSTEM = 2"
| "status_code ACPI = 3"

text \<open>The cast \<^verbatim>\<open>(PageStatus)\<close> of a two-bit value.\<close>

definition status_of :: "u32 \<Rightarrow> PageStatus" where
  "status_of x = (if x = 0 then FREE else if x = 1 then ALLOCATED
     else if x = 2 then SYSTEM else ACPI)"

lemma status_of_code [simp]: "status_of (status_code st) = st"
  by (cases st) (simp_all add: status_of_def)

lemma status_code_2bit: "n \<ge> 2 \<Longrightarrow> \<not> bit (status_code st) n"
proof (cases st)
  case ALLOCATED assume "n \<ge> 2" with ALLOCATED show ?thesis by (simp add: bit_1_iff)
next
  case SYSTEM
  have "status_code st = push_bit 1 1" using SYSTEM by (simp add: push_bit_eq_mult)
  moreover assume "n \<ge> 2"
  ultimately show ?thesis by (simp add: bit_simps bit_1_iff)
next
  case ACPI
  have "status_code st = mask 2" using ACPI by (simp add: mask_eq_exp_minus_1)
  moreover assume "n \<ge> 2"
  ultimately show ?thesis by (simp add: bit_mask_iff)
qed simp

lemma three_mask: "(3 :: u32) = mask 2"
  by (simp add: mask_eq_exp_minus_1)

lemma status_code_and_3: "status_code st AND 3 = status_code st"
  by (cases st) simp_all

section \<open>The operations\<close>

definition PAGE :: "u32 \<Rightarrow> u32" where
  "PAGE n = drop_bit 12 n"

definition setBitmapAddress :: "u32 \<Rightarrow> kmem \<Rightarrow> kmem" where
  "setBitmapAddress address s = s\<lparr>bitmap_address := address\<rparr>"

definition bitmap_shift :: "u32 \<Rightarrow> nat" where
  "bitmap_shift n = unat (30 - (n mod 16) * 2)"

definition bitmap_get :: "kmem \<Rightarrow> u32 \<Rightarrow> PageStatus" where
  "bitmap_get s n =
     (let ptr = bitmap_address s + 4 * (n div 16)
      in status_of (drop_bit (bitmap_shift n) (load32 (ram s) ptr) AND 3))"

definition bitmap_set :: "u32 \<Rightarrow> PageStatus \<Rightarrow> kmem \<Rightarrow> kmem res" where
  "bitmap_set page_number page_status s =
     (if bitmap_address s = 0
      then Inl (KPanic ''src/memory/physical_memory_bitmap.c'' 29)
      else
        let ptr = bitmap_address s + 4 * (page_number div 16);
            new_val = push_bit (bitmap_shift page_number) (status_code page_status);
            mask' = push_bit (bitmap_shift page_number) 3;
            old = load32 (ram s) ptr
        in Inr (s\<lparr>ram := store32 (ram s) ptr ((old AND NOT mask') OR new_val)\<rparr>))"

section \<open>Two bits in a word\<close>

lemma bitmap_shift_eq: "bitmap_shift n = 30 - 2 * (unat n mod 16)"
proof -
  have m: "unat (n mod 16) = unat n mod 16" by (simp add: unat_mod)
  have "unat (n mod 16 * 2) = 2 * (unat n mod 16)"
    using m by (simp add: u32_mult_nowrap)
  moreover have "2 * (unat n mod 16) \<le> 30" by simp
  ultimately show ?thesis
    by (simp add: bitmap_shift_def u32_sub_nowrap)
qed

lemma field_same:
  assumes "k \<le> 30"
  shows "drop_bit k ((w AND NOT (push_bit k 3)) OR push_bit k (status_code st)) AND 3
    = (status_code st :: u32)"
proof (rule bit_word_eqI)
  fix n assume "n < LENGTH(32)"
  show "bit (drop_bit k ((w AND NOT (push_bit k 3)) OR push_bit k (status_code st)) AND 3) n
    \<longleftrightarrow> bit (status_code st) n"
  proof (cases "n < 2")
    case True
    then show ?thesis using assms by (auto simp: three_mask bit_simps)
  next
    case False
    then show ?thesis by (simp add: three_mask bit_simps status_code_2bit)
  qed
qed

lemma field_other:
  assumes "k \<le> 30" "l \<le> 30" "k \<noteq> l" "even k" "even l"
  shows "drop_bit l ((w AND NOT (push_bit k 3)) OR push_bit k (status_code st)) AND 3
    = (drop_bit l w AND 3 :: u32)"
proof (rule bit_word_eqI)
  fix n assume "n < LENGTH(32)"
  show "bit (drop_bit l ((w AND NOT (push_bit k 3)) OR push_bit k (status_code st)) AND 3) n
    \<longleftrightarrow> bit (drop_bit l w AND 3) n"
  proof (cases "n < 2")
    case True
    then have "\<not> (k \<le> l + n \<and> l + n - k < 2)" using assms by presburger
    moreover have "l + n < 32" using True assms(2) by simp
    ultimately show ?thesis using True status_code_2bit [of "l + n - k" st]
      by (auto simp: three_mask bit_simps)
  next
    case False
    then show ?thesis by (simp add: three_mask bit_simps)
  qed
qed

lemma bitmap_index:
  "bitmap_address s + 4 * (n div 16) = word_at (bitmap_address s) (unat n div 16)"
proof -
  have "(word_of_nat (unat n div 16) :: u32) = word_of_nat (unat (n div 16))"
    by (simp add: unat_div)
  then show ?thesis by (simp add: word_at_def)
qed

lemma bitmap_index_less: "unat (n :: u32) div 16 < 1073741824"
  using unat_u32_less [of n] by linarith

lemma bitmap_get_zero:
  assumes "load32 (ram s) (word_at (bitmap_address s) (unat n div 16)) = 0"
  shows "bitmap_get s n = FREE"
  using assms unfolding bitmap_get_def bitmap_index Let_def by (simp add: status_of_def)

text \<open>Well-formed: the array has been placed, at an aligned address.\<close>

definition bitmap_wf :: "kmem \<Rightarrow> bool" where
  "bitmap_wf s \<longleftrightarrow> bitmap_address s \<noteq> 0 \<and> aligned4 (bitmap_address s)"

lemma bitmap_set_Inr:
  "bitmap_wf s \<Longrightarrow> bitmap_set n st s = Inr (s\<lparr>ram :=
     store32 (ram s) (word_at (bitmap_address s) (unat n div 16))
       ((load32 (ram s) (word_at (bitmap_address s) (unat n div 16)) AND NOT (push_bit (bitmap_shift n) 3))
        OR push_bit (bitmap_shift n) (status_code st))\<rparr>)"
  by (simp add: bitmap_set_def bitmap_wf_def Let_def bitmap_index)

lemma bitmap_set_get:
  assumes wf: "bitmap_wf s" and set: "bitmap_set n st s = Inr t"
  shows "bitmap_get t m = (if m = n then st else bitmap_get s m)"
proof -
  let ?b = "bitmap_address s"
  let ?i = "unat n div 16" and ?j = "unat m div 16"
  have t: "bitmap_address t = ?b" and al: "aligned4 ?b"
    using wf set by (auto simp: bitmap_set_Inr bitmap_wf_def)
  have get: "bitmap_get u m = status_of (drop_bit (bitmap_shift m)
      (load32 (ram u) (word_at (bitmap_address u) ?j)) AND 3)" for u
    by (simp add: bitmap_get_def bitmap_index)
  have ram: "ram t = store32 (ram s) (word_at ?b ?i)
      ((load32 (ram s) (word_at ?b ?i) AND NOT (push_bit (bitmap_shift n) 3))
       OR push_bit (bitmap_shift n) (status_code st))"
    using wf set by (auto simp: bitmap_set_Inr)
  note upd = ram.array_upd [OF al bitmap_index_less bitmap_index_less]
  consider "m = n" | "m \<noteq> n" "?i = ?j" | "?i \<noteq> ?j" by blast
  then show ?thesis
  proof cases
    case 1
    have sh: "bitmap_shift n \<le> 30" by (simp add: bitmap_shift_eq)
    show ?thesis
      unfolding get t ram unfolding 1 load32_store32_same field_same [OF sh] status_of_code by simp
  next
    case 2
    have "unat n \<noteq> unat m" using 2(1) by (auto dest: u32_eqI)
    then have ne: "unat n mod 16 \<noteq> unat m mod 16" using 2(2) by (metis div_mult_mod_eq)
    have lt: "unat n mod 16 < 16" "unat m mod 16 < 16" by simp_all
    have sh: "bitmap_shift n \<noteq> bitmap_shift m" "bitmap_shift n \<le> 30" "bitmap_shift m \<le> 30"
      "even (bitmap_shift n)" "even (bitmap_shift m)"
      using ne lt by (auto simp: bitmap_shift_eq)
    have "m = n \<longleftrightarrow> False" using 2 by simp
    then show ?thesis
      unfolding get t ram unfolding 2(2) load32_store32_same field_other [OF sh(2,3,1,4,5)] by simp
  next
    case 3
    then have "m \<noteq> n" by auto
    with 3 show ?thesis by (simp add: get t ram upd)
  qed
qed

lemma bitmap_set_frame:
  assumes "bitmap_wf s" "bitmap_set n st s = Inr t"
  shows "bitmap_address t = bitmap_address s" "stack_start t = stack_start s"
    "stackpointer t = stackpointer s" "heap_ptr t = heap_ptr s" "acpi_address t = acpi_address s"
    "bitmap_wf t"
  using assms by (auto simp: bitmap_set_Inr bitmap_wf_def)

lemma bitmap_set_returns: "bitmap_wf s \<Longrightarrow> \<exists>t. bitmap_set n st s = Inr t"
  by (simp add: bitmap_set_Inr)

text \<open>Only the word that holds the page's bits is written.\<close>

lemma bitmap_set_load_other:
  assumes "bitmap_wf s" "bitmap_set n st s = Inr t"
    and "aligned4 a" "a \<noteq> word_at (bitmap_address s) (unat n div 16)"
  shows "load32 (ram t) a = load32 (ram s) a"
  using assms by (auto simp: bitmap_set_Inr bitmap_wf_def)

section \<open>The contract of a status table\<close>

locale status_table =
  fixes wf :: "'s \<Rightarrow> bool"
    and get :: "'s \<Rightarrow> u32 \<Rightarrow> PageStatus"
    and set_status :: "u32 \<Rightarrow> PageStatus \<Rightarrow> 's \<Rightarrow> 's res"
  assumes set_returns: "wf s \<Longrightarrow> \<exists>t. set_status n st s = Inr t \<and> wf t"
    and get_set: "wf s \<Longrightarrow> set_status n st s = Inr t
      \<Longrightarrow> get t m = (if m = n then st else get s m)"
begin

lemma wf_preserved: "wf s \<Longrightarrow> set_status n st s = Inr t \<Longrightarrow> wf t"
  using set_returns [of s n st] by auto

text \<open>Setting a list of pages to one status.\<close>

lemma set_all:
  assumes "wf s"
  shows "\<exists>t. fold_res (\<lambda>n. set_status n st) ns s = Inr t \<and> wf t
    \<and> (\<forall>m. get t m = (if m \<in> set ns then st else get s m))"
  using assms
proof (induction ns arbitrary: s)
  case (Cons n ns)
  from set_returns [OF Cons.prems, of n st] obtain u
    where u: "set_status n st s = Inr u" "wf u" by blast
  from Cons.IH [OF u(2)] obtain t where
    t: "fold_res (\<lambda>n. set_status n st) ns u = Inr t" "wf t"
      "\<forall>m. get t m = (if m \<in> set ns then st else get u m)" by blast
  with u get_set [OF Cons.prems u(1)] show ?case by auto
qed simp

lemma set_twice:
  assumes "wf s" "set_status n st s = Inr t" "set_status n st' t = Inr u"
  shows "get u m = (if m = n then st' else get s m)"
  using get_set [OF wf_preserved [OF assms(1,2)] assms(3)] get_set [OF assms(1,2)] by simp

end

interpretation bitmap: status_table bitmap_wf bitmap_get bitmap_set
proof unfold_locales
  show "bitmap_wf s \<Longrightarrow> \<exists>t. bitmap_set n st s = Inr t \<and> bitmap_wf t" for s n st
    using bitmap_set_returns bitmap_set_frame(6) by blast
  show "bitmap_wf s \<Longrightarrow> bitmap_set n st s = Inr t
      \<Longrightarrow> bitmap_get t m = (if m = n then st else bitmap_get s m)" for s n st t m
    by (rule bitmap_set_get)
qed

section \<open>Read after write\<close>

text \<open>C7: bitmap_set stores the status of one page: bitmap_get reads it back, every other page
  keeps its status, and no other word of memory changes.\<close>
theorem bitmap_set_read_back:
  assumes "bitmap_address s \<noteq> 0" and "aligned4 (bitmap_address s)"
  shows "\<exists>t. bitmap_set n st s = Inr t \<and> bitmap_get t n = st \<and>
    (\<forall>m. m \<noteq> n \<longrightarrow> bitmap_get t m = bitmap_get s m) \<and>
    (\<forall>a. aligned4 a \<and> a \<noteq> bitmap_address s + 4 * (n div 16) \<longrightarrow> load32 (ram t) a = load32 (ram s) a)"
proof -
  have wf: "bitmap_wf s" using assms by (simp add: bitmap_wf_def)
  from bitmap.set_returns [OF wf] obtain t where t: "bitmap_set n st s = Inr t" by blast
  with bitmap.get_set [OF wf t] bitmap_set_load_other [OF wf t] show ?thesis
    by (auto simp: bitmap_index)
qed

theorem bitmap_set_read_back_witness:
  "\<exists>t. bitmap_set 17 SYSTEM (zero_kmem\<lparr>bitmap_address := 0x1000\<rparr>) = Inr t \<and>
    bitmap_get t 17 = SYSTEM \<and> bitmap_get t 16 = FREE"
proof -
  let ?s = "zero_kmem\<lparr>bitmap_address := 0x1000\<rparr>"
  have "bitmap_get ?s 16 = FREE" by (simp add: bitmap_get_def zero_kmem_def load32_def status_of_def)
  with bitmap_set_read_back [of ?s 17 SYSTEM] show ?thesis by (auto simp: aligned4_def zero_kmem_def)
qed

end
