(* ===== verification/Page_Stack.thy ===== *)
theory Page_Stack
  imports Kernel_Memory
begin

text \<open>
  \<^verbatim>\<open>src/src/memory/physical_memory_stack.c\<close>: the stack of free physical pages, an array of
  \<^verbatim>\<open>u32\<close> that grows upwards; slot 0 is never used. The locale \<open>frame_stack\<close> states the
  stack as a list (top first) and is the contract the page allocator uses.
\<close>

section \<open>The operations\<close>

definition setMStackAdress :: "u32 \<Rightarrow> kmem \<Rightarrow> kmem" where
  "setMStackAdress address s = s\<lparr>stack_start := address, stackpointer := address\<rparr>"

definition ms_push :: "u32 \<Rightarrow> kmem \<Rightarrow> kmem" where
  "ms_push address s =
     (let sp = stackpointer s + 4
      in s\<lparr>stackpointer := sp, ram := store32 (ram s) sp address\<rparr>)"

definition ms_pop :: "kmem \<Rightarrow> (u32 \<times> kmem) res" where
  "ms_pop s =
     (if stackpointer s = stack_start s
      then Inl (KPanic ''src/memory/physical_memory_stack.c'' 20)
      else Inr (load32 (ram s) (stackpointer s), s\<lparr>stackpointer := stackpointer s - 4\<rparr>))"

text \<open>The difference of two \<^verbatim>\<open>u32 *\<close> is signed and divided by the element size.\<close>

definition ms_freePages :: "kmem \<Rightarrow> u32" where
  "ms_freePages s = word_of_int (sint (stackpointer s - stack_start s) div 4)"

section \<open>The stack as a list\<close>

definition ms_depth :: "kmem \<Rightarrow> nat" where
  "ms_depth s = unat (stackpointer s - stack_start s) div 4"

text \<open>Well-formed: the pointers delimit whole slots of an area that does not wrap around.\<close>

definition ms_wf :: "kmem \<Rightarrow> bool" where
  "ms_wf s \<longleftrightarrow> aligned4 (stack_start s) \<and>
     stackpointer s = word_at (stack_start s) (ms_depth s) \<and>
     unat (stack_start s) + 4 * ms_depth s < 4294967296"

text \<open>Slots left before the end of the address space.\<close>

definition ms_room :: "kmem \<Rightarrow> nat" where
  "ms_room s = (4294967292 - unat (stack_start s)) div 4 - ms_depth s"

definition ms_slot :: "kmem \<Rightarrow> nat \<Rightarrow> u32" where
  "ms_slot s j = load32 (ram s) (word_at (stack_start s) (Suc j))"

definition ms_list :: "kmem \<Rightarrow> u32 list" where
  "ms_list s = rev (map (ms_slot s) [0..<ms_depth s])"

lemma length_ms_list [simp]: "length (ms_list s) = ms_depth s"
  by (simp add: ms_list_def)

lemma ms_depth_word_at:
  assumes "unat base + 4 * d < 4294967296"
  shows "unat (word_at base d - base) div 4 = d"
proof -
  have "unat (word_at base d - base) = 4 * d"
    using assms by (simp add: u32_sub_nowrap unat_word_at)
  then show ?thesis by simp
qed

lemma ms_wfI:
  assumes "aligned4 (stack_start s)" "stackpointer s = word_at (stack_start s) d"
    and "unat (stack_start s) + 4 * d < 4294967296"
  shows "ms_wf s" and "ms_depth s = d"
  using assms by (simp_all add: ms_wf_def ms_depth_def ms_depth_word_at)

lemma ms_room_pos: "ms_wf s \<Longrightarrow> 0 < ms_room s \<longleftrightarrow> unat (stack_start s) + 4 * ms_depth s + 4 < 4294967296"
  by (auto simp: ms_room_def ms_wf_def aligned4_def) presburger+

lemma ms_depth_0: "ms_wf s \<Longrightarrow> ms_depth s = 0 \<longleftrightarrow> stackpointer s = stack_start s"
  by (auto simp: ms_wf_def ms_depth_def word_at_def)

section \<open>Push and pop\<close>

lemma ms_push_fields [simp]:
  "stack_start (ms_push x s) = stack_start s"
  "stackpointer (ms_push x s) = stackpointer s + 4"
  "bitmap_address (ms_push x s) = bitmap_address s"
  "heap_ptr (ms_push x s) = heap_ptr s"
  "acpi_address (ms_push x s) = acpi_address s"
  "ram (ms_push x s) = store32 (ram s) (stackpointer s + 4) x"
  by (simp_all add: ms_push_def Let_def)

lemma ms_push_sp:
  assumes "ms_wf s"
  shows "stackpointer s + 4 = word_at (stack_start s) (Suc (ms_depth s))"
  using assms by (simp add: ms_wf_def word_at_Suc)

lemma ms_push_wf:
  assumes wf: "ms_wf s" and room: "0 < ms_room s"
  shows "ms_wf (ms_push x s)" and "ms_depth (ms_push x s) = Suc (ms_depth s)"
proof -
  have "unat (stack_start s) + 4 * Suc (ms_depth s) < 4294967296"
    using ms_room_pos [OF wf] room by simp
  moreover have "aligned4 (stack_start s)" using wf by (simp add: ms_wf_def)
  ultimately show "ms_wf (ms_push x s)" "ms_depth (ms_push x s) = Suc (ms_depth s)"
    using ms_wfI [of "ms_push x s" "Suc (ms_depth s)"] ms_push_sp [OF wf] by simp_all
qed

lemma ms_push_slot:
  assumes wf: "ms_wf s" and room: "0 < ms_room s" and j: "j \<le> ms_depth s"
  shows "ms_slot (ms_push x s) j = (if j = ms_depth s then x else ms_slot s j)"
proof -
  have al: "aligned4 (stack_start s)" using wf by (simp add: ms_wf_def)
  have b: "unat (stack_start s) + 4 * ms_depth s + 4 < 4294967296"
    using ms_room_pos [OF wf] room by simp
  have i: "Suc j < 1073741824" "Suc (ms_depth s) < 1073741824"
    using b j by linarith+
  show ?thesis
    using ram.array_upd [OF al i(2,1)] by (simp add: ms_slot_def ms_push_sp [OF wf])
qed

lemma ms_push_list:
  assumes "ms_wf s" and "0 < ms_room s"
  shows "ms_list (ms_push x s) = x # ms_list s"
proof -
  have "map (ms_slot (ms_push x s)) [0..<ms_depth s] = map (ms_slot s) [0..<ms_depth s]"
    using assms by (auto simp: ms_push_slot)
  then show ?thesis
    using assms by (simp add: ms_list_def ms_push_wf ms_push_slot)
qed

lemma ms_pop_empty:
  "ms_wf s \<Longrightarrow> ms_list s = [] \<Longrightarrow> ms_pop s = Inl (KPanic ''src/memory/physical_memory_stack.c'' 20)"
  by (simp add: ms_list_def ms_depth_0 ms_pop_def)

lemma ms_pop_list:
  assumes wf: "ms_wf s" and list: "ms_list s = x # xs"
  shows "\<exists>t. ms_pop s = Inr (x, t) \<and> t = s\<lparr>stackpointer := stackpointer s - 4\<rparr> \<and> ms_wf t
    \<and> ms_list t = xs \<and> ms_depth s = Suc (ms_depth t)"
proof -
  obtain d where d: "ms_depth s = Suc d"
    using list by (cases "ms_depth s") (auto simp: ms_list_def)
  let ?t = "s\<lparr>stackpointer := stackpointer s - 4\<rparr>"
  have "stackpointer s = word_at (stack_start s) (Suc d)"
    and b: "unat (stack_start s) + 4 * Suc d < 4294967296" and al: "aligned4 (stack_start s)"
    using wf d by (simp_all add: ms_wf_def)
  then have sp: "stackpointer ?t = word_at (stack_start ?t) d"
    by (simp add: word_at_Suc)
  have t: "ms_wf ?t" "ms_depth ?t = d"
    using ms_wfI [OF _ sp] al b by simp_all
  have "ms_list s = ms_slot s d # ms_list ?t"
    using d t by (simp add: ms_list_def ms_slot_def)
  moreover have "ms_slot s d = load32 (ram s) (stackpointer s)"
    using wf d by (simp add: ms_slot_def ms_wf_def)
  moreover have "stackpointer s \<noteq> stack_start s"
    using ms_depth_0 [OF wf] d by simp
  ultimately show ?thesis using list t d by (simp add: ms_pop_def)
qed

lemma ms_freePages_eq:
  assumes wf: "ms_wf s" and small: "ms_depth s < 536870912"
  shows "unat (ms_freePages s) = length (ms_list s)"
proof -
  have u: "unat (stackpointer s - stack_start s) = 4 * ms_depth s"
    using wf by (simp add: ms_wf_def u32_sub_nowrap unat_word_at)
  have "sint (stackpointer s - stack_start s) = int (4 * ms_depth s)"
  proof -
    have "int (unat (stackpointer s - stack_start s)) = int (4 * ms_depth s)"
      by (simp only: u)
    then have "uint (stackpointer s - stack_start s) = int (4 * ms_depth s)" by simp
    moreover have "int (4 * ms_depth s) < 2 ^ 31" using small by simp
    ultimately show ?thesis
      by (simp add: sint_uint signed_take_bit_int_eq_self)
  qed
  then have "ms_freePages s = word_of_nat (ms_depth s)" by (simp add: ms_freePages_def)
  then show ?thesis using small by (simp add: u32_of_nat)
qed

section \<open>The contract of a stack of frames\<close>

text \<open>Popping \<open>n\<close> times.\<close>

fun pops :: "('s \<Rightarrow> (u32 \<times> 's) res) \<Rightarrow> nat \<Rightarrow> 's \<Rightarrow> (u32 list \<times> 's) res" where
  "pops pop 0 s = Inr ([], s)"
| "pops pop (Suc n) s =
     res_bind (pop s) (\<lambda>(x, t). res_bind (pops pop n t) (\<lambda>(xs, u). Inr (x # xs, u)))"

locale frame_stack =
  fixes wf :: "'s \<Rightarrow> bool"
    and room :: "'s \<Rightarrow> nat"
    and content :: "'s \<Rightarrow> u32 list"
    and push :: "u32 \<Rightarrow> 's \<Rightarrow> 's"
    and pop :: "'s \<Rightarrow> (u32 \<times> 's) res"
    and underflow :: kfault
  assumes push_wf: "wf s \<Longrightarrow> 0 < room s \<Longrightarrow> wf (push x s)"
    and push_content: "wf s \<Longrightarrow> 0 < room s \<Longrightarrow> content (push x s) = x # content s"
    and push_room: "wf s \<Longrightarrow> 0 < room s \<Longrightarrow> Suc (room (push x s)) = room s"
    and pop_nil: "wf s \<Longrightarrow> content s = [] \<Longrightarrow> pop s = Inl underflow"
    and pop_cons: "wf s \<Longrightarrow> content s = x # xs
      \<Longrightarrow> \<exists>t. pop s = Inr (x, t) \<and> wf t \<and> content t = xs \<and> room t = Suc (room s)"
begin

lemma pop_push:
  assumes "wf s" "0 < room s"
  shows "\<exists>t. pop (push x s) = Inr (x, t) \<and> wf t \<and> content t = content s"
  using pop_cons [OF push_wf [OF assms] push_content [OF assms]] by blast

lemma push_all:
  assumes "wf s" "length xs \<le> room s"
  shows "wf (fold push xs s) \<and> content (fold push xs s) = rev xs @ content s
    \<and> room (fold push xs s) + length xs = room s"
  using assms
proof (induction xs arbitrary: s)
  case (Cons x xs)
  then have pos: "0 < room s" by simp
  with Cons.prems push_room [OF _ pos, of x] have "length xs \<le> room (push x s)" by simp
  with Cons.IH [OF push_wf [OF Cons.prems(1) pos] this] Cons.prems
    push_content [OF Cons.prems(1) pos] push_room [OF Cons.prems(1) pos, of x]
  show ?case by simp
qed simp

lemma pops_content:
  assumes "wf s" "content s = xs @ ys"
  shows "\<exists>t. pops pop (length xs) s = Inr (xs, t) \<and> wf t \<and> content t = ys"
  using assms
proof (induction xs arbitrary: s)
  case (Cons x xs)
  from pop_cons [OF Cons.prems(1), of x "xs @ ys"] Cons.prems(2) obtain t
    where t: "pop s = Inr (x, t)" "wf t" "content t = xs @ ys" by auto
  from Cons.IH [OF t(2,3)] t(1) show ?case by auto
qed simp

end

interpretation mstack: frame_stack ms_wf ms_room ms_list ms_push ms_pop
  "KPanic ''src/memory/physical_memory_stack.c'' 20"
proof unfold_locales
  show "ms_wf s \<Longrightarrow> 0 < ms_room s \<Longrightarrow> Suc (ms_room (ms_push x s)) = ms_room s" for s x
    by (simp add: ms_room_def ms_push_wf)
  show "ms_wf s \<Longrightarrow> ms_list s = x # xs
      \<Longrightarrow> \<exists>t. ms_pop s = Inr (x, t) \<and> ms_wf t \<and> ms_list t = xs \<and> ms_room t = Suc (ms_room s)"
    for s x xs
  proof -
    assume wf: "ms_wf s" and l: "ms_list s = x # xs"
    from ms_pop_list [OF wf l] obtain t where t: "ms_pop s = Inr (x, t)"
      "t = s\<lparr>stackpointer := stackpointer s - 4\<rparr>" "ms_wf t" "ms_list t = xs"
      "ms_depth s = Suc (ms_depth t)" by blast
    have "unat (stack_start s) mod 4 = 0" "unat (stack_start s) + 4 * ms_depth s < 4294967296"
      using wf by (simp_all add: ms_wf_def aligned4_def)
    then have "Suc (ms_depth t) \<le> (4294967292 - unat (stack_start s)) div 4"
      unfolding t(5) by presburger
    then have "ms_room t = Suc (ms_room s)"
      using t(5) unfolding ms_room_def by (simp add: t(2) Suc_diff_le)
    with t show ?thesis by blast
  qed
qed (simp_all add: ms_push_wf ms_push_list ms_pop_empty)

end
