(* ===== verification/Multiboot.thy ===== *)
theory Multiboot
  imports Kernel_Memory
begin

text \<open>
  \<^verbatim>\<open>src/src/include/std/multiboot.h\<close>: the fields of the boot loader's structures that the
  kernel reads, at their offsets in the packed structs, and the loop over the memory map that
  \<^verbatim>\<open>boot_memory_init.c\<close>, \<^verbatim>\<open>boot_memory_init.h\<close> and \<^verbatim>\<open>kernel_kalloc.c\<close> share.
\<close>

section \<open>Fields\<close>

definition MULTIBOOT_EAX_MAGIC :: u32 where "MULTIBOOT_EAX_MAGIC = 0x2BADB002"
definition MULTIBOOT_FLAG_MMAP :: u32 where "MULTIBOOT_FLAG_MMAP = 0x040"
definition MULTIBOOT_MMAP_FREE_MEMORY :: u32 where "MULTIBOOT_MMAP_FREE_MEMORY = 1"
definition MULTIBOOT_MMAP_RESERVED :: u32 where "MULTIBOOT_MMAP_RESERVED = 2"
definition MULTIBOOT_MMAP_ACPI :: u32 where "MULTIBOOT_MMAP_ACPI = 3"

definition mbi_flags :: "mem \<Rightarrow> u32 \<Rightarrow> u32" where "mbi_flags m mbi = load32 m mbi"
definition mbi_mmap_length :: "mem \<Rightarrow> u32 \<Rightarrow> u32" where "mbi_mmap_length m mbi = load32 m (mbi + 44)"
definition mbi_mmap_address :: "mem \<Rightarrow> u32 \<Rightarrow> u32" where "mbi_mmap_address m mbi = load32 m (mbi + 48)"

definition mmap_size :: "mem \<Rightarrow> u32 \<Rightarrow> u32" where "mmap_size m e = load32 m e"
definition mmap_baselow :: "mem \<Rightarrow> u32 \<Rightarrow> u32" where "mmap_baselow m e = load32 m (e + 4)"
definition mmap_basehigh :: "mem \<Rightarrow> u32 \<Rightarrow> u32" where "mmap_basehigh m e = load32 m (e + 8)"
definition mmap_lenlow :: "mem \<Rightarrow> u32 \<Rightarrow> u32" where "mmap_lenlow m e = load32 m (e + 12)"
definition mmap_type :: "mem \<Rightarrow> u32 \<Rightarrow> u32" where "mmap_type m e = load32 m (e + 20)"

lemmas mbi_field_defs = mbi_flags_def mbi_mmap_length_def mbi_mmap_address_def
lemmas mmap_field_defs = mmap_size_def mmap_baselow_def mmap_basehigh_def mmap_lenlow_def
  mmap_type_def

text \<open>\<^verbatim>\<open>(u32) mmap + mmap->size + sizeof(mmap->size)\<close>\<close>

definition mmap_next :: "mem \<Rightarrow> u32 \<Rightarrow> u32" where
  "mmap_next m e = e + mmap_size m e + 4"

definition mmap_stop :: "mem \<Rightarrow> u32 \<Rightarrow> u32" where
  "mmap_stop m mbi = mbi_mmap_address m mbi + mbi_mmap_length m mbi"

section \<open>The loop over the memory map\<close>

text \<open>
  \<open>view\<close> gives the memory of the loop's state. The bound and the step are read from memory
  in every iteration, after the body has run.
\<close>

partial_function (option) mmap_loop ::
  "('s \<Rightarrow> mem) \<Rightarrow> u32 \<Rightarrow> (u32 \<Rightarrow> 's \<Rightarrow> 's res) \<Rightarrow> u32 \<Rightarrow> 's \<Rightarrow> 's res option" where
  "mmap_loop view mbi body mmap s =
     (if mmap < mmap_stop (view s) mbi then
        (case body mmap s of Inl e \<Rightarrow> Some (Inl e)
         | Inr s' \<Rightarrow> mmap_loop view mbi body (mmap_next (view s') mmap) s')
      else Some (Inr s))"

declare mmap_loop.simps [code]

text \<open>The entries the loop visits, when the map lies in memory that does not change.\<close>

fun mmap_chain :: "mem \<Rightarrow> u32 \<Rightarrow> u32 \<Rightarrow> u32 list \<Rightarrow> bool" where
  "mmap_chain m a stop [] \<longleftrightarrow> \<not> a < stop"
| "mmap_chain m a stop (e # es) \<longleftrightarrow> a = e \<and> e < stop \<and> mmap_chain m (mmap_next m e) stop es"

lemma mmap_loop_path:
  assumes "mmap_chain m a stop es"
    and "\<And>pre post u. es = pre @ post \<Longrightarrow> fold_res body pre s = Inr u
        \<Longrightarrow> mmap_stop (view u) mbi = stop"
    and "\<And>pre post u e. es = pre @ post \<Longrightarrow> fold_res body pre s = Inr u \<Longrightarrow> e \<in> set es
        \<Longrightarrow> mmap_size (view u) e = mmap_size m e"
  shows "mmap_loop view mbi body a s = Some (fold_res body es s)"
  using assms
proof (induction es arbitrary: a s)
  case Nil
  then show ?case using Nil.prems(2) [of "[]"] by (subst mmap_loop.simps) simp
next
  case (Cons e es)
  have stop: "mmap_stop (view s) mbi = stop" using Cons.prems(2) [of "[]"] by simp
  show ?case
  proof (cases "body e s")
    case (Inl x)
    then show ?thesis using Cons.prems(1) stop
      by (subst mmap_loop.simps) simp
  next
    case (Inr s')
    then have "mmap_next (view s') e = mmap_next m e"
      using Cons.prems(3) [of "[e]" es s' e] by (simp add: mmap_next_def)
    moreover have "mmap_loop view mbi body (mmap_next m e) s' = Some (fold_res body es s')"
    proof (rule Cons.IH)
      show "mmap_chain m (mmap_next m e) stop es" using Cons.prems(1) by simp
      show "mmap_stop (view u) mbi = stop" if "es = pre @ post" "fold_res body pre s' = Inr u"
        for pre post u
        using Cons.prems(2) [of "e # pre" post u] that Inr by simp
      show "mmap_size (view u) f = mmap_size m f"
        if "es = pre @ post" "fold_res body pre s' = Inr u" "f \<in> set es" for pre post u f
        using Cons.prems(3) [of "e # pre" post u f] that Inr by simp
    qed
    ultimately show ?thesis using Inr Cons.prems(1) stop
      by (subst mmap_loop.simps) simp
  qed
qed

section \<open>Highest address\<close>

text \<open>
  \<^verbatim>\<open>get_highest_adrress\<close> (\<^verbatim>\<open>boot_memory_init.h\<close>): the local \<^verbatim>\<open>ret\<close> is not initialised, so its
  first value is an argument of the model.
\<close>

definition get_highest_adrress :: "u32 \<Rightarrow> mem \<Rightarrow> u32 \<Rightarrow> u32 res" where
  "get_highest_adrress uninit m mbi = loop_res (mmap_loop (\<lambda>_. m) mbi
     (\<lambda>e ret. Inr (if mmap_basehigh m e = 0 \<and> mmap_type m e = MULTIBOOT_MMAP_FREE_MEMORY
        then mmap_baselow m e + mmap_lenlow m e else ret))
     (mbi_mmap_address m mbi) uninit)"

text \<open>The end of the last free region below 4 GiB, in the order of the map.\<close>

lemma get_highest_adrress_last:
  assumes "mmap_chain m (mbi_mmap_address m mbi) (mmap_stop m mbi) es"
  shows "get_highest_adrress uninit m mbi = Inr (last (uninit #
    map (\<lambda>e. mmap_baselow m e + mmap_lenlow m e)
      (filter (\<lambda>e. mmap_basehigh m e = 0 \<and> mmap_type m e = MULTIBOOT_MMAP_FREE_MEMORY) es)))"
proof -
  let ?body = "\<lambda>e ret. Inr (if mmap_basehigh m e = 0 \<and> mmap_type m e = MULTIBOOT_MMAP_FREE_MEMORY
        then mmap_baselow m e + mmap_lenlow m e else ret) :: u32 res"
  have "fold_res ?body es ret = Inr (last (ret #
    map (\<lambda>e. mmap_baselow m e + mmap_lenlow m e)
      (filter (\<lambda>e. mmap_basehigh m e = 0 \<and> mmap_type m e = MULTIBOOT_MMAP_FREE_MEMORY) es)))" for ret
    by (induction es arbitrary: ret) auto
  moreover have "mmap_loop (\<lambda>_. m) mbi ?body (mbi_mmap_address m mbi) uninit
      = Some (fold_res ?body es uninit)"
    by (rule mmap_loop_path [OF assms]) simp_all
  ultimately show ?thesis by (simp add: get_highest_adrress_def)
qed

end
