(* ===== verification/Page_Alloc.thy ===== *)
theory Page_Alloc
  imports Page_Bitmap Page_Stack Multiboot
begin

text \<open>
  \<^verbatim>\<open>src/src/memory/kernel_kalloc.c\<close>: the physical page allocator, built on the page stack
  (which pages are free) and the page bitmap (what every page is used for), and its start-up
  from the boot loader's memory map.
\<close>

section \<open>The operations\<close>

definition KERNEL_BOOT_VMA :: u32 where "KERNEL_BOOT_VMA = 0x00100000"

definition k_alloc :: "PageStatus \<Rightarrow> kmem \<Rightarrow> (u32 \<times> kmem) res" where
  "k_alloc status s =
     res_bind (ms_pop s) (\<lambda>(x, s).
       res_bind (bitmap_set (PAGE x) status s) (\<lambda>s. Inr (x, s)))"

definition kfree :: "u32 \<Rightarrow> kmem \<Rightarrow> kmem res" where
  "kfree x s =
     (if x AND 0xFFF \<noteq> 0
      then Inl (KPanic ''src/memory/kernel_kalloc.c'' 47)
      else bitmap_set (PAGE x) FREE (ms_push x s))"

text \<open>The bodies of the two page loops, the body of the memory map loop, and the whole.\<close>

definition init_free_page :: "u32 \<Rightarrow> u32 \<Rightarrow> u32 \<Rightarrow> u32 \<Rightarrow> kmem \<Rightarrow> kmem res" where
  "init_free_page kernel_start kernel_end mmap i s =
     (let a = mmap_baselow (ram s) mmap + i
      in if a < kernel_start \<or> a \<ge> kernel_end then Inr (ms_push a s)
         else bitmap_set (drop_bit 12 a) SYSTEM s)"

definition init_reserved_page :: "u32 \<Rightarrow> u32 \<Rightarrow> kmem \<Rightarrow> kmem res" where
  "init_reserved_page mmap i s =
     bitmap_set (drop_bit 12 (mmap_baselow (ram s) mmap + i)) SYSTEM s"

definition init_region :: "u32 \<Rightarrow> u32 \<Rightarrow> u32 \<Rightarrow> kmem \<Rightarrow> kmem res" where
  "init_region kernel_start kernel_end mmap s =
     (if mmap_basehigh (ram s) mmap \<noteq> 0 then Inr s
      else if mmap_type (ram s) mmap = MULTIBOOT_MMAP_FREE_MEMORY then
        loop_res (page_loop 0 (\<lambda>s. mmap_lenlow (ram s) mmap) (init_free_page kernel_start kernel_end mmap) s)
      else if mmap_type (ram s) mmap = MULTIBOOT_MMAP_RESERVED \<and> mmap_baselow (ram s) mmap < KERNEL_BOOT_VMA
      then loop_res (page_loop 0 (\<lambda>s. mmap_lenlow (ram s) mmap) (init_reserved_page mmap) s)
      else if mmap_type (ram s) mmap = MULTIBOOT_MMAP_ACPI
      then Inr (s\<lparr>acpi_address := mmap_baselow (ram s) mmap\<rparr>)
      else Inr s)"

definition init_kalloc :: "u32 \<Rightarrow> u32 \<Rightarrow> u32 \<Rightarrow> kmem \<Rightarrow> kmem res" where
  "init_kalloc mbi kernel_start kernel_end s =
     res_bind (bitmap_set (drop_bit 12 mbi) SYSTEM s) (\<lambda>s.
       loop_res (mmap_loop ram mbi (init_region kernel_start kernel_end)
         (mbi_mmap_address (ram s) mbi) s))"

section \<open>Page numbers\<close>

lemma PAGE_inject:
  assumes "x AND 0xFFF = 0" "y AND 0xFFF = 0"
  shows "PAGE x = PAGE y \<longleftrightarrow> x = y"
proof
  assume "PAGE x = PAGE y"
  moreover have "push_bit 12 (drop_bit 12 z) + take_bit 12 z = z" for z :: u32
    by (rule bits_ident)
  ultimately show "x = y"
    using assms unfolding PAGE_def page_low_bits by (metis add.right_neutral)
qed simp

lemma PAGE_nat: "unat (PAGE x) = unat x div 4096"
  by (simp add: PAGE_def unsigned_drop_bit_eq drop_bit_eq_div unat_div)

text \<open>Aligned pages below \<open>N\<close>: no more than \<open>N\<close> of them.\<close>

lemma distinct_pages_length:
  assumes "distinct xs" "\<forall>x \<in> set xs. x AND 0xFFF = 0 \<and> unat (PAGE x) < N"
  shows "length xs \<le> N"
proof -
  have "inj_on (\<lambda>x. unat (PAGE x)) (set xs)"
    using assms(2) by (auto intro!: inj_onI simp: PAGE_inject dest: u32_eqI)
  moreover have "(\<lambda>x. unat (PAGE x)) ` set xs \<subseteq> {..<N}" using assms(2) by auto
  ultimately have "card (set xs) \<le> card {..<N}" by (rule card_inj_on_le) simp
  with assms(1) show ?thesis by (simp add: distinct_card)
qed

section \<open>The two areas\<close>

text \<open>
  The bitmap covers pages \<open>0 \<dots> N - 1\<close>, the stack has \<open>C\<close> slots, and the two arrays do
  not overlap. \<open>clear_of\<close> names the words outside both.
\<close>

definition bitmap_words :: "nat \<Rightarrow> nat" where
  "bitmap_words N = (N + 15) div 16"

definition page_area :: "nat \<Rightarrow> nat \<Rightarrow> kmem \<Rightarrow> bool" where
  "page_area N C s \<longleftrightarrow> bitmap_wf s \<and> ms_wf s \<and> ms_depth s \<le> C \<and>
     unat (bitmap_address s) + 4 * bitmap_words N < 4294967296 \<and>
     unat (stack_start s) + 4 * C + 4 < 4294967296 \<and>
     (unat (bitmap_address s) + 4 * bitmap_words N \<le> unat (stack_start s) \<or>
      unat (stack_start s) + 4 * C + 4 \<le> unat (bitmap_address s))"

definition clear_of :: "nat \<Rightarrow> nat \<Rightarrow> kmem \<Rightarrow> u32 \<Rightarrow> bool" where
  "clear_of N C s a \<longleftrightarrow> aligned4 a \<and>
     (unat a < unat (bitmap_address s) \<or> unat (bitmap_address s) + 4 * bitmap_words N \<le> unat a) \<and>
     (unat a < unat (stack_start s) \<or> unat (stack_start s) + 4 * C + 4 \<le> unat a)"

lemma page_area_index:
  assumes "page_area N C s" "n < N"
  shows "unat (word_at (bitmap_address s) (n div 16)) = unat (bitmap_address s) + 4 * (n div 16)"
    and "n div 16 < bitmap_words N"
proof -
  show i: "n div 16 < bitmap_words N" using assms(2) by (simp add: bitmap_words_def)
  then show "unat (word_at (bitmap_address s) (n div 16)) = unat (bitmap_address s) + 4 * (n div 16)"
    using assms(1) by (intro unat_word_at) (simp add: page_area_def)
qed

lemma page_area_slot:
  assumes "page_area N C s" "j \<le> C"
  shows "unat (word_at (stack_start s) j) = unat (stack_start s) + 4 * j"
  using assms by (intro unat_word_at) (auto simp: page_area_def)

lemma page_area_disjoint:
  assumes area: "page_area N C s" and n: "n < N" and j: "j \<le> C"
  shows "word_at (bitmap_address s) (n div 16) \<noteq> word_at (stack_start s) j"
proof
  assume "word_at (bitmap_address s) (n div 16) = word_at (stack_start s) j"
  then have "unat (bitmap_address s) + 4 * (n div 16) = unat (stack_start s) + 4 * j"
    using page_area_index [OF area n] page_area_slot [OF area j] by metis
  moreover note page_area_index(2) [OF area n] j
  ultimately show False using area by (auto simp: page_area_def)
qed

lemma page_area_room: "page_area N C s \<Longrightarrow> ms_depth s < C \<Longrightarrow> 0 < ms_room s"
  using ms_room_pos [of s] by (simp add: page_area_def)

lemma push_area:
  assumes area: "page_area N C s" and room: "ms_depth s < C"
  shows "page_area N C (ms_push x s)"
  using area ms_push_wf [OF _ page_area_room [OF area room]] room
  by (simp add: page_area_def bitmap_wf_def)

lemma push_bitmap_get:
  assumes area: "page_area N C s" and room: "ms_depth s < C" and n: "unat n < N"
  shows "bitmap_get (ms_push x s) n = bitmap_get s n"
proof -
  have wf: "ms_wf s" "aligned4 (bitmap_address s)" "aligned4 (stack_start s)"
    using area by (simp_all add: page_area_def bitmap_wf_def ms_wf_def)
  have "load32 (ram (ms_push x s)) (word_at (bitmap_address s) (unat n div 16))
      = load32 (ram s) (word_at (bitmap_address s) (unat n div 16))"
    using page_area_disjoint [OF area n, of "Suc (ms_depth s)"] room wf
    by (simp add: ms_push_sp)
  then show ?thesis by (simp add: bitmap_get_def Let_def bitmap_index)
qed

lemma push_clear:
  assumes area: "page_area N C s" and room: "ms_depth s < C" and a: "clear_of N C s a"
  shows "load32 (ram (ms_push x s)) a = load32 (ram s) a"
proof -
  have wf: "ms_wf s" "aligned4 (stack_start s)"
    using area by (simp_all add: page_area_def ms_wf_def)
  have "unat a \<noteq> unat (word_at (stack_start s) (Suc (ms_depth s)))"
    using a room page_area_slot [OF area, of "Suc (ms_depth s)"] by (auto simp: clear_of_def)
  then have "a \<noteq> word_at (stack_start s) (Suc (ms_depth s))" by auto
  then show ?thesis using wf a by (simp add: ms_push_sp clear_of_def)
qed

lemma set_area:
  assumes area: "page_area N C s" and n: "unat n < N" and set: "bitmap_set n st s = Inr t"
  shows "page_area N C t" and "ms_list t = ms_list s" and "ms_depth t = ms_depth s"
    and "clear_of N C s a \<Longrightarrow> load32 (ram t) a = load32 (ram s) a"
proof -
  have wf: "bitmap_wf s" "ms_wf s" "aligned4 (stack_start s)"
    using area by (simp_all add: page_area_def ms_wf_def)
  note frame = bitmap_set_frame [OF wf(1) set]
  show d: "ms_depth t = ms_depth s" using frame by (simp add: ms_depth_def)
  show "page_area N C t" using area frame d by (simp add: page_area_def ms_wf_def)
  show "clear_of N C s a \<Longrightarrow> load32 (ram t) a = load32 (ram s) a"
  proof -
    assume a: "clear_of N C s a"
    then have "unat a \<noteq> unat (word_at (bitmap_address s) (unat n div 16))"
      using page_area_index [OF area n] by (auto simp: clear_of_def)
    then have "a \<noteq> word_at (bitmap_address s) (unat n div 16)" by auto
    then show ?thesis
      using bitmap_set_load_other [OF wf(1) set] a by (simp add: clear_of_def)
  qed
  have "ms_slot t j = ms_slot s j" if "j < ms_depth s" for j
  proof -
    have "Suc j \<le> C" using that area by (simp add: page_area_def)
    then have "word_at (stack_start s) (Suc j) \<noteq> word_at (bitmap_address s) (unat n div 16)"
      using page_area_disjoint [OF area n] by metis
    then show ?thesis using bitmap_set_load_other [OF wf(1) set] wf frame
      by (simp add: ms_slot_def)
  qed
  then show "ms_list t = ms_list s" using d by (simp add: ms_list_def)
qed

lemma pop_area:
  assumes area: "page_area N C s" and list: "ms_list s = x # xs"
  obtains t where "ms_pop s = Inr (x, t)" "page_area N C t" "ms_list t = xs"
    "\<And>n. bitmap_get t n = bitmap_get s n" "ram t = ram s"
    "bitmap_address t = bitmap_address s" "stack_start t = stack_start s"
proof -
  have "ms_wf s" using area by (simp add: page_area_def)
  from ms_pop_list [OF this list] obtain t where t: "ms_pop s = Inr (x, t)"
    "t = s\<lparr>stackpointer := stackpointer s - 4\<rparr>" "ms_wf t" "ms_list t = xs"
    "ms_depth s = Suc (ms_depth t)" by blast
  have "page_area N C t" using area t(3,5) by (simp add: page_area_def bitmap_wf_def t(2))
  with that t show thesis by (simp add: bitmap_get_def)
qed

end
