(* ===== verification/Page_Pool.thy ===== *)
theory Page_Pool
  imports Page_Alloc
begin

text \<open>
  What the physical page allocator of \<open>Page_Alloc\<close> promises: the invariant that the stack
  holds distinct free pages, allocation and release as updates of a pool of pages, runs of
  both, and the start-up from the memory map.
\<close>

section \<open>The pool invariant\<close>

definition pool_page :: "nat \<Rightarrow> u32 \<Rightarrow> bool" where
  "pool_page N x \<longleftrightarrow> x AND 0xFFF = 0 \<and> unat (PAGE x) < N"

definition pool_inv :: "nat \<Rightarrow> nat \<Rightarrow> kmem \<Rightarrow> bool" where
  "pool_inv N C s \<longleftrightarrow> page_area N C s \<and> N \<le> C \<and> distinct (ms_list s) \<and>
     (\<forall>x \<in> set (ms_list s). pool_page N x \<and> bitmap_get s (PAGE x) = FREE)"

lemma pool_inv_room:
  assumes inv: "pool_inv N C s" and x: "pool_page N x" "x \<notin> set (ms_list s)"
  shows "ms_depth s < C"
proof -
  have "length (x # ms_list s) \<le> N"
    using inv x by (intro distinct_pages_length) (auto simp: pool_inv_def pool_page_def)
  then show ?thesis using inv by (simp add: pool_inv_def)
qed

lemma k_alloc_cons:
  assumes inv: "pool_inv N C s" and list: "ms_list s = x # xs" and st: "st \<noteq> FREE"
  shows "\<exists>t. k_alloc st s = Inr (x, t) \<and> pool_inv N C t \<and> ms_list t = xs \<and>
    (\<forall>n. bitmap_get t n = (if n = PAGE x then st else bitmap_get s n)) \<and>
    (\<forall>a. clear_of N C s a \<longrightarrow> load32 (ram t) a = load32 (ram s) a)"
proof -
  have area: "page_area N C s" and x: "pool_page N x"
    using inv list by (auto simp: pool_inv_def)
  from pop_area [OF area list] obtain u where u: "ms_pop s = Inr (x, u)" "page_area N C u"
    "ms_list u = xs" "\<And>n. bitmap_get u n = bitmap_get s n" "ram u = ram s"
    "bitmap_address u = bitmap_address s" "stack_start u = stack_start s" by blast
  then have wf: "bitmap_wf u" by (simp add: page_area_def)
  from bitmap_set_returns [OF wf] obtain t where t: "bitmap_set (PAGE x) st u = Inr t" by blast
  have n: "unat (PAGE x) < N" using x by (simp add: pool_page_def)
  note set = set_area [OF u(2) n t]
  note get = bitmap_set_get [OF wf t]
  have "pool_inv N C t"
  proof -
    have "PAGE y \<noteq> PAGE x" if "y \<in> set xs" for y
      using inv list that x PAGE_inject [of x y] by (auto simp: pool_inv_def pool_page_def)
    then show ?thesis
      using inv list set u by (simp add: pool_inv_def get)
  qed
  moreover have "\<forall>a. clear_of N C s a \<longrightarrow> load32 (ram t) a = load32 (ram s) a"
    using set(4) u(5-7) by (simp add: clear_of_def)
  ultimately show ?thesis using u t set get by (simp add: k_alloc_def)
qed

lemma kfree_pool:
  assumes inv: "pool_inv N C s" and x: "pool_page N x" "x \<notin> set (ms_list s)"
  shows "\<exists>t. kfree x s = Inr t \<and> pool_inv N C t \<and> ms_list t = x # ms_list s \<and>
    (\<forall>n. unat n < N \<longrightarrow> bitmap_get t n = (if n = PAGE x then FREE else bitmap_get s n))"
proof -
  have area: "page_area N C s" using inv by (simp add: pool_inv_def)
  have room: "ms_depth s < C" by (rule pool_inv_room [OF inv x])
  let ?u = "ms_push x s"
  have u: "page_area N C ?u" by (rule push_area [OF area room])
  then have wf: "bitmap_wf ?u" by (simp add: page_area_def)
  from bitmap_set_returns [OF wf] obtain t where t: "bitmap_set (PAGE x) FREE ?u = Inr t" by blast
  have n: "unat (PAGE x) < N" using x by (simp add: pool_page_def)
  note set = set_area [OF u n t]
  have list: "ms_list t = x # ms_list s"
    using set(2) ms_push_list [of s x] page_area_room [OF area room] area
    by (simp add: page_area_def)
  have get: "bitmap_get t m = (if m = PAGE x then FREE else bitmap_get s m)" if "unat m < N" for m
    using bitmap_set_get [OF wf t] push_bitmap_get [OF area room that] by simp
  have "pool_inv N C t"
    using inv x set(1) unfolding pool_inv_def list by (auto simp: get pool_page_def)
  then show ?thesis using t list get x by (simp add: kfree_def pool_page_def)
qed

lemma k_alloc_Inr:
  assumes "pool_inv N C s" "st \<noteq> FREE" "k_alloc st s = Inr (x, t)"
  shows "\<exists>xs. ms_list s = x # xs \<and> pool_inv N C t \<and>
    (\<forall>n. bitmap_get t n = (if n = PAGE x then st else bitmap_get s n))"
proof (cases "ms_list s")
  case Nil
  moreover have "ms_wf s" using assms(1) by (simp add: pool_inv_def page_area_def)
  ultimately show ?thesis using assms(3) by (simp add: k_alloc_def ms_pop_empty)
next
  case (Cons y ys)
  with k_alloc_cons [OF assms(1) Cons assms(2)] assms(3) show ?thesis by auto
qed

text \<open>C1: k_alloc on a consistent page pool takes the top page of the free stack, marks it with
  the requested status in the bitmap, leaves the status of every other page and keeps the
  pool consistent; on an empty pool it panics.\<close>
theorem k_alloc_spec:
  assumes "pool_inv N C s" and "st \<noteq> FREE"
  shows "case ms_list s of
      [] \<Rightarrow> k_alloc st s = Inl (KPanic ''src/memory/physical_memory_stack.c'' 20)
    | x # xs \<Rightarrow> (\<exists>t. k_alloc st s = Inr (x, t) \<and> pool_inv N C t \<and> ms_list t = xs \<and>
        bitmap_get s (PAGE x) = FREE \<and>
        (\<forall>n. bitmap_get t n = (if n = PAGE x then st else bitmap_get s n)))"
proof (cases "ms_list s")
  case Nil
  have "ms_wf s" using assms(1) by (simp add: pool_inv_def page_area_def)
  with Nil show ?thesis by (simp add: k_alloc_def ms_pop_empty)
next
  case (Cons x xs)
  have "bitmap_get s (PAGE x) = FREE" using assms(1) Cons by (simp add: pool_inv_def)
  with Cons k_alloc_cons [OF assms(1) Cons assms(2)] show ?thesis by auto
qed

text \<open>C2: Freeing a page that is not in the pool adds it with status FREE; the next k_alloc
  returns that very page and restores the stack of free pages, and the pool is consistent
  throughout.\<close>
theorem kfree_k_alloc_roundtrip:
  assumes inv: "pool_inv N C s" and x: "pool_page N x" "x \<notin> set (ms_list s)" and st: "st \<noteq> FREE"
  shows "\<exists>t u. kfree x s = Inr t \<and> pool_inv N C t \<and> bitmap_get t (PAGE x) = FREE
    \<and> k_alloc st t = Inr (x, u) \<and> pool_inv N C u \<and> ms_list u = ms_list s
    \<and> bitmap_get u (PAGE x) = st"
proof -
  from kfree_pool [OF inv x] obtain t where t: "kfree x s = Inr t" "pool_inv N C t"
    "ms_list t = x # ms_list s"
    "\<forall>n. unat n < N \<longrightarrow> bitmap_get t n = (if n = PAGE x then FREE else bitmap_get s n)" by blast
  from k_alloc_cons [OF t(2,3) st] obtain u where "k_alloc st t = Inr (x, u)" "pool_inv N C u"
    "ms_list u = ms_list s" "bitmap_get u (PAGE x) = st" by auto
  with t x show ?thesis by (auto simp: pool_page_def)
qed

section \<open>Runs of requests\<close>

text \<open>
  A client asks for pages (with a status other than \<open>FREE\<close>) and gives back pages it holds.
  \<open>held\<close> are the pages handed out and not yet returned.
\<close>

inductive page_step :: "kmem \<times> u32 set \<Rightarrow> kmem \<times> u32 set \<Rightarrow> bool" where
  request: "st \<noteq> FREE \<Longrightarrow> k_alloc st s = Inr (x, t) \<Longrightarrow> page_step (s, held) (t, insert x held)"
| release: "x \<in> held \<Longrightarrow> kfree x s = Inr t \<Longrightarrow> page_step (s, held) (t, held - {x})"

inductive page_run :: "kmem \<times> u32 set \<Rightarrow> kmem \<times> u32 set \<Rightarrow> bool" where
  stop: "page_run c c"
| step: "page_run c d \<Longrightarrow> page_step d e \<Longrightarrow> page_run c e"

inductive_cases page_stepE: "page_step (s, held) (t, held')"

definition held_inv :: "nat \<Rightarrow> nat \<Rightarrow> kmem \<Rightarrow> u32 set \<Rightarrow> bool" where
  "held_inv N C s held \<longleftrightarrow> pool_inv N C s \<and>
     (\<forall>x \<in> held. pool_page N x \<and> bitmap_get s (PAGE x) \<noteq> FREE)"

lemma held_not_free: "held_inv N C s held \<Longrightarrow> x \<in> held \<Longrightarrow> x \<notin> set (ms_list s)"
  by (auto simp: held_inv_def pool_inv_def)

lemma page_step_request:
  assumes inv: "held_inv N C s held" and st: "st \<noteq> FREE" and get: "k_alloc st s = Inr (x, t)"
  shows "held_inv N C t (insert x held)" and "x \<notin> held"
proof -
  have pool: "pool_inv N C s" using inv by (simp add: held_inv_def)
  obtain xs where list: "ms_list s = x # xs" and pool': "pool_inv N C t"
    and get': "\<forall>n. bitmap_get t n = (if n = PAGE x then st else bitmap_get s n)"
    using k_alloc_Inr [OF pool st get] by blast
  have x: "pool_page N x" "x \<notin> held"
    using pool list held_not_free [OF inv, of x] by (auto simp: pool_inv_def)
  then show "x \<notin> held" by simp
  show "held_inv N C t (insert x held)"
    using inv pool' st x(1) get' by (auto simp: held_inv_def)
qed

lemma page_step_release:
  assumes inv: "held_inv N C s held" and x: "x \<in> held" and rel: "kfree x s = Inr t"
  shows "held_inv N C t (held - {x})"
proof -
  have pool: "pool_inv N C s" and px: "pool_page N x" using inv x by (auto simp: held_inv_def)
  from kfree_pool [OF pool px held_not_free [OF inv x]] rel
  have "pool_inv N C t"
    "\<forall>n. unat n < N \<longrightarrow> bitmap_get t n = (if n = PAGE x then FREE else bitmap_get s n)" by auto
  moreover have "PAGE y \<noteq> PAGE x" "unat (PAGE y) < N" if "y \<in> held - {x}" for y
    using that inv px PAGE_inject [of x y] by (auto simp: held_inv_def pool_page_def)
  ultimately show ?thesis using inv by (auto simp: held_inv_def)
qed

lemma page_run_inv: "page_run c d \<Longrightarrow> held_inv N C (fst c) (snd c) \<Longrightarrow> held_inv N C (fst d) (snd d)"
proof (induction rule: page_run.induct)
  case (step c d e)
  obtain s held t held' where d: "d = (s, held)" and e: "e = (t, held')" by (metis surj_pair)
  from step have "held_inv N C s held" by (simp add: d)
  with step.hyps(2) show ?case
    unfolding d e by (auto elim!: page_stepE intro: page_step_request page_step_release)
qed simp

text \<open>C3: In every run of k_alloc and kfree calls from a consistent pool in which callers free
  only pages they hold, k_alloc never returns a page that is held; held pages are not on the
  free stack, are not marked FREE and keep their status, and the pool stays consistent.\<close>
theorem page_run_exclusive:
  assumes "page_run (s, {}) (t, held)" and "pool_inv N C s"
    and "st \<noteq> FREE" and "k_alloc st t = Inr (x, u)"
  shows "x \<notin> held \<and> x AND 0xFFF = 0 \<and> bitmap_get t (PAGE x) = FREE \<and>
    (\<forall>y \<in> held. y \<notin> set (ms_list t) \<and> bitmap_get t (PAGE y) \<noteq> FREE \<and>
      bitmap_get u (PAGE y) = bitmap_get t (PAGE y)) \<and>
    pool_inv N C t \<and> page_run (s, {}) (u, insert x held)"
proof (intro conjI ballI)
  have inv: "held_inv N C t held"
    using page_run_inv [OF assms(1), of N C] assms(2) by (simp add: held_inv_def)
  then have pool: "pool_inv N C t" by (simp add: held_inv_def)
  obtain xs where list: "ms_list t = x # xs"
    and get: "\<forall>n. bitmap_get u n = (if n = PAGE x then st else bitmap_get t n)"
    using k_alloc_Inr [OF pool assms(3,4)] by blast
  show fresh: "x \<notin> held" by (rule page_step_request(2) [OF inv assms(3,4)])
  show px: "x AND 0xFFF = 0" "bitmap_get t (PAGE x) = FREE"
    using pool list by (simp_all add: pool_inv_def pool_page_def)
  show "y \<notin> set (ms_list t)" "bitmap_get t (PAGE y) \<noteq> FREE" if "y \<in> held" for y
    using held_not_free [OF inv that] inv that by (auto simp: held_inv_def)
  show "bitmap_get u (PAGE y) = bitmap_get t (PAGE y)" if "y \<in> held" for y
  proof -
    have "y AND 0xFFF = 0" "y \<noteq> x" using inv fresh that by (auto simp: held_inv_def pool_page_def)
    then show ?thesis using get PAGE_inject [OF _ px(1)] by simp
  qed
  show "pool_inv N C t" by (rule pool)
  show "page_run (s, {}) (u, insert x held)"
    using page_run.step [OF assms(1) page_step.request [OF assms(3,4)]] .
qed

section \<open>A small concrete pool\<close>

text \<open>
  Sixteen pages: the bitmap at \<open>0x1000\<close>, the stack at \<open>0x2000\<close>, all memory zero. Then
  page 3 is put on the stack.
\<close>

definition empty_pool :: kmem where
  "empty_pool = setMStackAdress 0x2000 (setBitmapAddress 0x1000 zero_kmem)"

lemma empty_pool_simps [simp]:
  "ram empty_pool = (\<lambda>_. 0)" "bitmap_address empty_pool = 0x1000"
  "stack_start empty_pool = 0x2000" "stackpointer empty_pool = 0x2000" "ms_depth empty_pool = 0"
  by (simp_all add: empty_pool_def setMStackAdress_def setBitmapAddress_def zero_kmem_def ms_depth_def)

lemma empty_pool_list [simp]: "ms_list empty_pool = []"
  by (simp add: ms_list_def)

lemma empty_pool_get [simp]: "bitmap_get empty_pool n = FREE"
  by (simp add: bitmap_get_def load32_def status_of_def)

lemma empty_pool_area: "page_area 16 16 empty_pool"
  by (simp add: page_area_def bitmap_wf_def ms_wf_def aligned4_def word_at_def bitmap_words_def)

lemma empty_pool_inv: "pool_inv 16 16 empty_pool"
  by (simp add: pool_inv_def empty_pool_area)

lemma page3: "pool_page 16 0x3000"
  by (simp add: pool_page_def PAGE_def)

definition demo_pool :: kmem where
  "demo_pool = ms_push 0x3000 empty_pool"

lemma demo_pool_list: "ms_list demo_pool = [0x3000]"
  using ms_push_list [of empty_pool] page_area_room [OF empty_pool_area] empty_pool_area
  by (simp add: demo_pool_def page_area_def)

lemma demo_pool_get: "unat n < 16 \<Longrightarrow> bitmap_get demo_pool n = FREE"
  using push_bitmap_get [OF empty_pool_area] by (simp add: demo_pool_def)

lemma demo_pool_inv: "pool_inv 16 16 demo_pool"
  using push_area [OF empty_pool_area, of "0x3000"] page3 demo_pool_get [of "PAGE 0x3000"]
  by (simp add: pool_inv_def demo_pool_list pool_page_def demo_pool_def [symmetric])

theorem k_alloc_spec_witness:
  "\<exists>t. k_alloc SYSTEM demo_pool = Inr (0x3000, t) \<and> ms_list t = [] \<and> bitmap_get t 3 = SYSTEM"
  using k_alloc_spec [OF demo_pool_inv, of SYSTEM] by (auto simp: demo_pool_list PAGE_def)

theorem kfree_k_alloc_roundtrip_witness:
  "\<exists>t u. kfree 0x3000 empty_pool = Inr t \<and> bitmap_get t (PAGE 0x3000) = FREE \<and>
    k_alloc ALLOCATED t = Inr (0x3000, u) \<and> bitmap_get u (PAGE 0x3000) = ALLOCATED"
  using kfree_k_alloc_roundtrip [OF empty_pool_inv page3, of ALLOCATED] by auto

theorem page_run_exclusive_witness:
  "\<exists>u. k_alloc SYSTEM demo_pool = Inr (0x3000, u) \<and> page_run (demo_pool, {}) (u, {0x3000})"
proof -
  from k_alloc_cons [OF demo_pool_inv demo_pool_list, of SYSTEM] obtain u
    where u: "k_alloc SYSTEM demo_pool = Inr (0x3000, u)" by blast
  show ?thesis
    using page_run_exclusive [OF page_run.stop demo_pool_inv _ u] u by auto
qed

end
