(* ===== verification/Page_Init.thy ===== *)
theory Page_Init
  imports Page_Pool
begin

text \<open>
  What \<^verbatim>\<open>init_kalloc\<close> (\<^verbatim>\<open>src/src/memory/kernel_kalloc.c\<close>) makes of the boot loader's memory map:
  which pages end up on the stack, in which order, and which are marked \<open>SYSTEM\<close>.
\<close>

section \<open>What a memory map describes\<close>

text \<open>The page addresses of a region, and what the code does with each.\<close>

definition region_pages :: "mem \<Rightarrow> u32 \<Rightarrow> u32 list" where
  "region_pages m e = map (\<lambda>i. mmap_baselow m e + i) (page_offsets 0 (mmap_lenlow m e))"

definition outside_kernel :: "u32 \<Rightarrow> u32 \<Rightarrow> u32 \<Rightarrow> bool" where
  "outside_kernel ks ke a \<longleftrightarrow> a < ks \<or> a \<ge> ke"

definition region_free :: "u32 \<Rightarrow> u32 \<Rightarrow> mem \<Rightarrow> u32 \<Rightarrow> u32 list" where
  "region_free ks ke m e =
     (if mmap_basehigh m e = 0 \<and> mmap_type m e = MULTIBOOT_MMAP_FREE_MEMORY
      then filter (outside_kernel ks ke) (region_pages m e) else [])"

definition region_system :: "u32 \<Rightarrow> u32 \<Rightarrow> mem \<Rightarrow> u32 \<Rightarrow> u32 list" where
  "region_system ks ke m e =
     (if mmap_basehigh m e \<noteq> 0 then []
      else if mmap_type m e = MULTIBOOT_MMAP_FREE_MEMORY
      then filter (\<lambda>a. \<not> outside_kernel ks ke a) (region_pages m e)
      else if mmap_type m e = MULTIBOOT_MMAP_RESERVED \<and> mmap_baselow m e < KERNEL_BOOT_VMA
      then region_pages m e else [])"

text \<open>A region the loops can walk: it ends below page \<open>N\<close> and its length does not make the counter wrap.\<close>

definition region_ok :: "nat \<Rightarrow> mem \<Rightarrow> u32 \<Rightarrow> bool" where
  "region_ok N m e \<longleftrightarrow> mmap_basehigh m e = 0 \<longrightarrow>
     mmap_type m e = MULTIBOOT_MMAP_FREE_MEMORY \<or>
       mmap_type m e = MULTIBOOT_MMAP_RESERVED \<and> mmap_baselow m e < KERNEL_BOOT_VMA \<longrightarrow>
     unat (mmap_lenlow m e) \<le> 4294963200 \<and>
     (\<forall>a \<in> set (region_pages m e). unat (PAGE a) < N)"

text \<open>The words of a map entry and of the two fields of the boot information, outside both areas.\<close>

definition entry_clear :: "nat \<Rightarrow> nat \<Rightarrow> kmem \<Rightarrow> u32 \<Rightarrow> bool" where
  "entry_clear N C s e \<longleftrightarrow> clear_of N C s e \<and> clear_of N C s (e + 4) \<and> clear_of N C s (e + 8) \<and>
     clear_of N C s (e + 12) \<and> clear_of N C s (e + 20)"

definition mbi_clear :: "nat \<Rightarrow> nat \<Rightarrow> kmem \<Rightarrow> u32 \<Rightarrow> bool" where
  "mbi_clear N C s mbi \<longleftrightarrow> clear_of N C s (mbi + 44) \<and> clear_of N C s (mbi + 48)"

section \<open>Steps of the start-up\<close>

text \<open>
  \<open>fills N C s t free sys\<close>: from \<open>s\<close> to \<open>t\<close> the pages \<open>free\<close> were pushed, in this order,
  and the pages \<open>sys\<close> were marked, and nothing else of the two areas or around them changed.
\<close>

definition fills :: "nat \<Rightarrow> nat \<Rightarrow> kmem \<Rightarrow> kmem \<Rightarrow> u32 list \<Rightarrow> u32 list \<Rightarrow> bool" where
  "fills N C s t free sys \<longleftrightarrow> page_area N C t \<and>
     bitmap_address t = bitmap_address s \<and> stack_start t = stack_start s \<and>
     ms_list t = rev free @ ms_list s \<and>
     (\<forall>n. unat n < N \<longrightarrow> bitmap_get t n = (if n \<in> PAGE ` set sys then SYSTEM else bitmap_get s n)) \<and>
     (\<forall>a. clear_of N C s a \<longrightarrow> load32 (ram t) a = load32 (ram s) a)"

lemma fills_refl: "page_area N C s \<Longrightarrow> fills N C s s [] []"
  by (simp add: fills_def)

lemma fills_trans:
  "fills N C s t free sys \<Longrightarrow> fills N C t u free' sys' \<Longrightarrow> fills N C s u (free @ free') (sys @ sys')"
  by (auto simp: fills_def clear_of_def image_Un)

lemma fills_clear: "fills N C s t free sys \<Longrightarrow> clear_of N C t a = clear_of N C s a"
  by (simp add: fills_def clear_of_def)

lemma fills_push:
  assumes area: "page_area N C s" and room: "ms_depth s < C"
  shows "fills N C s (ms_push a s) [a] []"
  using push_area [OF area room] push_bitmap_get [OF area room] push_clear [OF area room]
    ms_push_list [of s a] page_area_room [OF area room] area
  by (simp add: fills_def page_area_def)

lemma fills_mark:
  assumes area: "page_area N C s" and n: "unat (PAGE a) < N"
  shows "\<exists>t. bitmap_set (PAGE a) SYSTEM s = Inr t \<and> fills N C s t [] [a]"
proof -
  have wf: "bitmap_wf s" using area by (simp add: page_area_def)
  from bitmap_set_returns [OF wf] obtain t where t: "bitmap_set (PAGE a) SYSTEM s = Inr t" by blast
  with set_area [OF area n t] bitmap_set_get [OF wf t] bitmap_set_frame [OF wf t] show ?thesis
    by (simp add: fills_def)
qed

lemma entry_fields_kept:
  assumes "fills N C s t free sys" "entry_clear N C s e"
  shows "mmap_size (ram t) e = mmap_size (ram s) e" "mmap_baselow (ram t) e = mmap_baselow (ram s) e"
    "mmap_basehigh (ram t) e = mmap_basehigh (ram s) e"
    "mmap_lenlow (ram t) e = mmap_lenlow (ram s) e" "mmap_type (ram t) e = mmap_type (ram s) e"
  using assms by (simp_all add: fills_def entry_clear_def mmap_field_defs)

text \<open>Both page loops: a list of offsets is walked, each page pushed or marked.\<close>

lemma fold_fills:
  assumes area: "page_area N C s" and clear: "entry_clear N C s e"
    and pages: "\<forall>i \<in> set offs. unat (PAGE (mmap_baselow (ram s) e + i)) < N"
    and room: "ms_depth s + length offs \<le> C"
    and step: "\<And>u i. page_area N C u \<Longrightarrow> ms_depth u < C \<Longrightarrow> mmap_baselow (ram u) e = b
        \<Longrightarrow> unat (PAGE (b + i)) < N
        \<Longrightarrow> \<exists>t. f i u = Inr t \<and> fills N C u t (if P (b + i) then [b + i] else [])
            (if P (b + i) then [] else [b + i])"
    and b: "b = mmap_baselow (ram s) e"
  shows "\<exists>t. fold_res f offs s = Inr t \<and> fills N C s t (filter P (map (\<lambda>i. b + i) offs))
    (filter (\<lambda>a. \<not> P a) (map (\<lambda>i. b + i) offs))"
  using area clear pages room b
proof (induction offs arbitrary: s)
  case Nil
  then show ?case by (simp add: fills_refl)
next
  case (Cons i offs)
  obtain u where u: "f i s = Inr u" "fills N C s u (if P (b + i) then [b + i] else [])
            (if P (b + i) then [] else [b + i])"
    using step [of s i] Cons.prems by auto
  have "length (ms_list u) \<le> Suc (length (ms_list s))" using u(2) by (simp add: fills_def)
  then have room: "ms_depth u + length offs \<le> C" using Cons.prems(4) by simp
  have "entry_clear N C u e"
    using u(2) Cons.prems(2) fills_clear [OF u(2)] by (simp add: entry_clear_def)
  moreover have "page_area N C u" using u(2) by (simp add: fills_def)
  moreover have base: "mmap_baselow (ram u) e = mmap_baselow (ram s) e"
    using entry_fields_kept [OF u(2) Cons.prems(2)] by simp
  moreover have "\<forall>i \<in> set offs. unat (PAGE (mmap_baselow (ram u) e + i)) < N"
    using Cons.prems(3) base by simp
  ultimately obtain t where t: "fold_res f offs u = Inr t"
    "fills N C u t (filter P (map (\<lambda>i. b + i) offs)) (filter (\<lambda>a. \<not> P a) (map (\<lambda>i. b + i) offs))"
    using Cons.IH room Cons.prems(5) by metis
  with fills_trans [OF u(2) t(2)] u(1) show ?case by auto
qed

text \<open>
  The loop reads its bound from the map before every page: it stays the same, because every
  part of the loop run so far only \<open>fills\<close> the two areas.
\<close>

lemma page_loop_fills:
  assumes area: "page_area N C s" and clear: "entry_clear N C s e"
    and len: "unat (mmap_lenlow (ram s) e) \<le> 4294963200"
    and pages: "\<forall>a \<in> set (region_pages (ram s) e). unat (PAGE a) < N"
    and room: "ms_depth s + length (region_pages (ram s) e) \<le> C"
    and step: "\<And>u i. page_area N C u \<Longrightarrow> ms_depth u < C \<Longrightarrow> mmap_baselow (ram u) e = b
        \<Longrightarrow> unat (PAGE (b + i)) < N
        \<Longrightarrow> \<exists>t. f i u = Inr t \<and> fills N C u t (if P (b + i) then [b + i] else [])
            (if P (b + i) then [] else [b + i])"
    and b: "b = mmap_baselow (ram s) e"
  shows "\<exists>t. page_loop 0 (\<lambda>s. mmap_lenlow (ram s) e) f s = Some (Inr t) \<and>
    fills N C s t (filter P (region_pages (ram s) e)) (filter (\<lambda>a. \<not> P a) (region_pages (ram s) e))"
proof -
  let ?offs = "page_offsets 0 (mmap_lenlow (ram s) e)"
  have pages': "\<forall>i \<in> set ?offs. unat (PAGE (mmap_baselow (ram s) e + i)) < N"
    using pages by (auto simp: region_pages_def)
  have room': "ms_depth s + length ?offs \<le> C" using room by (simp add: region_pages_def)
  have "mmap_lenlow (ram u) e = mmap_lenlow (ram s) e" if "fold_res f (take k ?offs) s = Inr u" for k u
  proof -
    have "\<forall>i \<in> set (take k ?offs). unat (PAGE (mmap_baselow (ram s) e + i)) < N"
      using pages' by (meson in_set_takeD)
    moreover have "ms_depth s + length (take k ?offs) \<le> C" using room' by simp
    ultimately obtain t free sys where "fold_res f (take k ?offs) s = Inr t" "fills N C s t free sys"
      using fold_fills [OF area clear _ _ step b] by blast
    with that entry_fields_kept [OF _ clear] show ?thesis by simp
  qed
  then have "page_loop 0 (\<lambda>s. mmap_lenlow (ram s) e) f s = Some (fold_res f ?offs s)"
    by (rule page_loop_path [OF len])
  with fold_fills [OF area clear pages' room' step b] b show ?thesis
    by (auto simp: region_pages_def)
qed

lemma init_free_page_fills:
  assumes "page_area N C u" "ms_depth u < C" "mmap_baselow (ram u) e = b" "unat (PAGE (b + i)) < N"
  shows "\<exists>t. init_free_page ks ke e i u = Inr t \<and>
    fills N C u t (if outside_kernel ks ke (b + i) then [b + i] else [])
      (if outside_kernel ks ke (b + i) then [] else [b + i])"
  using assms fills_push [OF assms(1,2)] fills_mark [OF assms(1,4)]
  by (simp add: init_free_page_def outside_kernel_def Let_def PAGE_def)

lemma init_reserved_page_fills:
  assumes "page_area N C u" "ms_depth u < C" "mmap_baselow (ram u) e = b" "unat (PAGE (b + i)) < N"
  shows "\<exists>t. init_reserved_page e i u = Inr t \<and>
    fills N C u t (if False then [b + i] else []) (if False then [] else [b + i])"
  using assms fills_mark [OF assms(1,4)] by (simp add: init_reserved_page_def PAGE_def)

lemma init_region_fills:
  assumes area: "page_area N C s" and clear: "entry_clear N C s e" and ok: "region_ok N (ram s) e"
    and room: "ms_depth s + length (region_pages (ram s) e) \<le> C"
  shows "\<exists>t. init_region ks ke e s = Inr t \<and>
    fills N C s t (region_free ks ke (ram s) e) (region_system ks ke (ram s) e)"
proof -
  let ?m = "ram s"
  consider (high) "mmap_basehigh ?m e \<noteq> 0"
    | (free) "mmap_basehigh ?m e = 0" "mmap_type ?m e = MULTIBOOT_MMAP_FREE_MEMORY"
    | (reserved) "mmap_basehigh ?m e = 0" "mmap_type ?m e = MULTIBOOT_MMAP_RESERVED"
        "mmap_baselow ?m e < KERNEL_BOOT_VMA" "mmap_type ?m e \<noteq> MULTIBOOT_MMAP_FREE_MEMORY"
    | (other) "mmap_basehigh ?m e = 0" "mmap_type ?m e \<noteq> MULTIBOOT_MMAP_FREE_MEMORY"
        "\<not> (mmap_type ?m e = MULTIBOOT_MMAP_RESERVED \<and> mmap_baselow ?m e < KERNEL_BOOT_VMA)"
    by (auto simp: MULTIBOOT_MMAP_FREE_MEMORY_def MULTIBOOT_MMAP_RESERVED_def)
  then show ?thesis
  proof cases
    case high
    then show ?thesis using fills_refl [OF area]
      by (simp add: init_region_def region_free_def region_system_def)
  next
    case free
    then have "unat (mmap_lenlow ?m e) \<le> 4294963200" "\<forall>a \<in> set (region_pages ?m e). unat (PAGE a) < N"
      using ok by (simp_all add: region_ok_def)
    from page_loop_fills [OF area clear this room _ refl, of "init_free_page ks ke e"
        "outside_kernel ks ke"] init_free_page_fills
    obtain t where t: "page_loop 0 (\<lambda>s. mmap_lenlow (ram s) e) (init_free_page ks ke e) s = Some (Inr t)"
      "fills N C s t (filter (outside_kernel ks ke) (region_pages ?m e))
        (filter (\<lambda>a. \<not> outside_kernel ks ke a) (region_pages ?m e))" by blast
    have "init_region ks ke e s = Inr t" using free t(1) by (simp add: init_region_def)
    with t(2) free show ?thesis by (simp add: region_free_def region_system_def)
  next
    case reserved
    then have "unat (mmap_lenlow ?m e) \<le> 4294963200" "\<forall>a \<in> set (region_pages ?m e). unat (PAGE a) < N"
      using ok by (simp_all add: region_ok_def)
    from page_loop_fills [OF area clear this room _ refl, of "init_reserved_page e" "\<lambda>_. False"]
      init_reserved_page_fills
    obtain t where t: "page_loop 0 (\<lambda>s. mmap_lenlow (ram s) e) (init_reserved_page e) s = Some (Inr t)"
      "fills N C s t (filter (\<lambda>_. False) (region_pages ?m e))
        (filter (\<lambda>a. \<not> False) (region_pages ?m e))" by blast
    have "init_region ks ke e s = Inr t" using reserved t(1) by (simp add: init_region_def)
    with t(2) reserved show ?thesis by (simp add: region_free_def region_system_def)
  next
    case other
    have "fills N C s (s\<lparr>acpi_address := x\<rparr>) [] []" for x
      using area by (simp add: fills_def page_area_def ms_wf_def bitmap_wf_def ms_depth_def
          ms_list_def ms_slot_def bitmap_get_def)
    moreover have "region_free ks ke ?m e = []" "region_system ks ke ?m e = []"
      using other by (auto simp: region_free_def region_system_def)
    moreover have "init_region ks ke e s = Inr (if mmap_type ?m e = MULTIBOOT_MMAP_ACPI
        then s\<lparr>acpi_address := mmap_baselow ?m e\<rparr> else s)"
      using other by (auto simp: init_region_def)
    ultimately show ?thesis using fills_refl [OF area] by simp
  qed
qed

section \<open>The whole memory map\<close>

definition map_free :: "u32 \<Rightarrow> u32 \<Rightarrow> mem \<Rightarrow> u32 list \<Rightarrow> u32 list" where
  "map_free ks ke m es = concat (map (region_free ks ke m) es)"

definition map_system :: "u32 \<Rightarrow> u32 \<Rightarrow> mem \<Rightarrow> u32 list \<Rightarrow> u32 list" where
  "map_system ks ke m es = concat (map (region_system ks ke m) es)"

definition map_pages :: "mem \<Rightarrow> u32 list \<Rightarrow> nat" where
  "map_pages m es = sum_list (map (\<lambda>e. length (region_pages m e)) es)"

lemma region_kept:
  assumes "fills N C s t free sys" "entry_clear N C s e"
  shows "region_free ks ke (ram t) e = region_free ks ke (ram s) e"
    and "region_system ks ke (ram t) e = region_system ks ke (ram s) e"
    and "region_ok N (ram t) e = region_ok N (ram s) e"
    and "region_pages (ram t) e = region_pages (ram s) e"
    and "entry_clear N C t e"
  using entry_fields_kept [OF assms] assms(2) fills_clear [OF assms(1)]
  by (simp_all add: region_free_def region_system_def region_ok_def region_pages_def entry_clear_def)

lemma region_free_length: "length (region_free ks ke m e) \<le> length (region_pages m e)"
  by (simp add: region_free_def)

lemma fold_region_fills:
  assumes "page_area N C s" "\<forall>e \<in> set es. entry_clear N C s e \<and> region_ok N (ram s) e"
    and "ms_depth s + map_pages (ram s) es \<le> C"
  shows "\<exists>t. fold_res (init_region ks ke) es s = Inr t \<and>
    fills N C s t (map_free ks ke (ram s) es) (map_system ks ke (ram s) es)"
  using assms
proof (induction es arbitrary: s)
  case Nil
  then show ?case by (simp add: fills_refl map_free_def map_system_def)
next
  case (Cons e es)
  have "entry_clear N C s e" "region_ok N (ram s) e"
    "ms_depth s + length (region_pages (ram s) e) \<le> C"
    using Cons.prems(2,3) by (simp_all add: map_pages_def)
  from init_region_fills [OF Cons.prems(1) this, of ks ke] obtain u where
    u: "init_region ks ke e s = Inr u"
      "fills N C s u (region_free ks ke (ram s) e) (region_system ks ke (ram s) e)"
    by blast
  have "ms_depth u = length (region_free ks ke (ram s) e) + ms_depth s"
    using u(2) length_ms_list [of u] length_ms_list [of s] by (simp add: fills_def)
  moreover have kept: "region_free ks ke (ram u) f = region_free ks ke (ram s) f"
      "region_system ks ke (ram u) f = region_system ks ke (ram s) f"
      "region_pages (ram u) f = region_pages (ram s) f"
      "entry_clear N C u f \<and> region_ok N (ram u) f" if "f \<in> set es" for f
    using region_kept [OF u(2)] Cons.prems(2) that by simp_all
  moreover have "page_area N C u" using u(2) by (simp add: fills_def)
  moreover from kept have "map_free ks ke (ram u) es = map_free ks ke (ram s) es"
      "map_system ks ke (ram u) es = map_system ks ke (ram s) es"
      "map_pages (ram u) es = map_pages (ram s) es"
    by (simp_all add: map_free_def map_system_def map_pages_def cong: map_cong)
  ultimately obtain t where t: "fold_res (init_region ks ke) es u = Inr t"
      "fills N C u t (map_free ks ke (ram s) es) (map_system ks ke (ram s) es)"
    using Cons.IH [of u] Cons.prems(3) region_free_length [of ks ke "ram s" e]
    by (auto simp: map_pages_def)
  from fills_trans [OF u(2) t(2)] u(1) t(1) show ?case
    by (simp add: map_free_def map_system_def)
qed

definition init_ready :: "nat \<Rightarrow> nat \<Rightarrow> u32 \<Rightarrow> u32 list \<Rightarrow> kmem \<Rightarrow> bool" where
  "init_ready N C mbi es s \<longleftrightarrow> page_area N C s \<and> mbi_clear N C s mbi \<and> unat (PAGE mbi) < N \<and>
     mmap_chain (ram s) (mbi_mmap_address (ram s) mbi) (mmap_stop (ram s) mbi) es \<and>
     (\<forall>e \<in> set es. entry_clear N C s e \<and> region_ok N (ram s) e) \<and>
     ms_depth s + map_pages (ram s) es \<le> C"

lemma mmap_chain_cong:
  assumes "\<And>e. e \<in> set es \<Longrightarrow> mmap_size m e = mmap_size m' e"
  shows "mmap_chain m a stop es = mmap_chain m' a stop es"
  using assms by (induction es arbitrary: a) (auto simp: mmap_next_def)

lemma init_kalloc_fills:
  assumes ready: "init_ready N C mbi es s"
  shows "\<exists>t. init_kalloc mbi ks ke s = Inr t \<and>
    fills N C s t (map_free ks ke (ram s) es) (mbi # map_system ks ke (ram s) es)"
proof -
  have area: "page_area N C s" and mbi: "mbi_clear N C s mbi" "unat (PAGE mbi) < N"
    and entries: "\<forall>e \<in> set es. entry_clear N C s e \<and> region_ok N (ram s) e"
    and room: "ms_depth s + map_pages (ram s) es \<le> C"
    and chain: "mmap_chain (ram s) (mbi_mmap_address (ram s) mbi) (mmap_stop (ram s) mbi) es"
    using ready by (simp_all add: init_ready_def)
  from fills_mark [OF area mbi(2)] obtain u where
    u: "bitmap_set (PAGE mbi) SYSTEM s = Inr u" "fills N C s u [] [mbi]" by blast
  have fields: "mbi_mmap_address (ram v) mbi = mbi_mmap_address (ram s) mbi"
      "mmap_stop (ram v) mbi = mmap_stop (ram s) mbi" if "fills N C s v free sys" for v free sys
    using that mbi(1) by (simp_all add: fills_def mbi_clear_def mbi_field_defs mmap_stop_def)
  have kept: "region_free ks ke (ram u) f = region_free ks ke (ram s) f"
      "region_system ks ke (ram u) f = region_system ks ke (ram s) f"
      "region_pages (ram u) f = region_pages (ram s) f"
      "entry_clear N C u f \<and> region_ok N (ram u) f" "mmap_size (ram u) f = mmap_size (ram s) f"
    if "f \<in> set es" for f
    using region_kept [OF u(2)] entry_fields_kept [OF u(2)] entries that by simp_all
  have area_u: "page_area N C u" and depth_u: "ms_depth u = ms_depth s"
    using u(2) length_ms_list [of u] length_ms_list [of s] by (simp_all add: fills_def)
  have pages_u: "map_pages (ram u) es = map_pages (ram s) es"
    "map_free ks ke (ram u) es = map_free ks ke (ram s) es"
    "map_system ks ke (ram u) es = map_system ks ke (ram s) es"
    using kept by (simp_all add: map_free_def map_system_def map_pages_def cong: map_cong)
  have fold: "\<exists>t free sys. fold_res (init_region ks ke) pre u = Inr t \<and> fills N C s t free sys"
    if "es = pre @ post" for pre post
  proof -
    have "ms_depth u + map_pages (ram u) pre \<le> C"
      using room pages_u depth_u that by (simp add: map_pages_def)
    with fold_region_fills [OF area_u, of pre ks ke] kept that obtain t where
      "fold_res (init_region ks ke) pre u = Inr t"
      "fills N C u t (map_free ks ke (ram u) pre) (map_system ks ke (ram u) pre)" by auto
    with fills_trans [OF u(2)] show ?thesis by blast
  qed
  have "mmap_loop ram mbi (init_region ks ke) (mbi_mmap_address (ram u) mbi) u
      = Some (fold_res (init_region ks ke) es u)"
  proof (rule mmap_loop_path [where stop = "mmap_stop (ram s) mbi" and m = "ram s"])
    show "mmap_chain (ram s) (mbi_mmap_address (ram u) mbi) (mmap_stop (ram s) mbi) es"
      using chain fields [OF u(2)] by simp
  next
    fix pre post v assume pre: "es = pre @ post" "fold_res (init_region ks ke) pre u = Inr v"
    obtain t free sys where "fold_res (init_region ks ke) pre u = Inr t" "fills N C s t free sys"
      using fold [OF pre(1)] by blast
    with pre(2) have v: "fills N C s v free sys" by simp
    show "mmap_stop (ram v) mbi = mmap_stop (ram s) mbi" using fields [OF v] by simp
    show "mmap_size (ram v) e = mmap_size (ram s) e" if "e \<in> set es" for e
      using entry_fields_kept [OF v] entries that by simp
  qed
  moreover have "ms_depth u + map_pages (ram u) es \<le> C" using room pages_u depth_u by simp
  then obtain t where t: "fold_res (init_region ks ke) es u = Inr t"
      "fills N C u t (map_free ks ke (ram s) es) (map_system ks ke (ram s) es)"
    using fold_region_fills [OF area_u, of es ks ke] kept(4) unfolding pages_u by blast
  moreover have "fills N C s t (map_free ks ke (ram s) es) (mbi # map_system ks ke (ram s) es)"
    using fills_trans [OF u(2) t(2)] by simp
  ultimately show ?thesis using u(1) by (simp add: init_kalloc_def PAGE_def)
qed

section \<open>Properties of the start-up\<close>

lemma region_free_outside: "a \<in> set (map_free ks ke m es) \<Longrightarrow> outside_kernel ks ke a"
  by (auto simp: map_free_def region_free_def split: if_splits)

text \<open>C4: init_kalloc returns for every memory map whose regions it can walk, pushes exactly the
  pages of the free regions outside the kernel, and marks as SYSTEM exactly the boot
  information page, the kernel pages and the reserved pages below one MiB.\<close>
theorem init_kalloc_spec:
  assumes "init_ready N C mbi es s" and "ms_list s = []" and "\<forall>n. unat n < N \<longrightarrow> bitmap_get s n = FREE"
  shows "\<exists>t. init_kalloc mbi ks ke s = Inr t \<and> ms_list t = rev (map_free ks ke (ram s) es) \<and>
    (\<forall>x \<in> set (ms_list t). x < ks \<or> ke \<le> x) \<and>
    (\<forall>n. unat n < N \<longrightarrow> bitmap_get t n =
      (if n = PAGE mbi \<or> n \<in> PAGE ` set (map_system ks ke (ram s) es) then SYSTEM else FREE))"
proof -
  from init_kalloc_fills [OF assms(1), of ks ke] obtain t where
    t: "init_kalloc mbi ks ke s = Inr t"
      "fills N C s t (map_free ks ke (ram s) es) (mbi # map_system ks ke (ram s) es)" by blast
  then have list: "ms_list t = rev (map_free ks ke (ram s) es)"
    using assms(2) by (simp add: fills_def)
  have "x < ks \<or> ke \<le> x" if "x \<in> set (ms_list t)" for x
    using region_free_outside [of x ks ke "ram s" es] that list by (simp add: outside_kernel_def)
  with t list assms(3) show ?thesis by (simp add: fills_def)
qed

text \<open>
  The allocator's invariant after the start-up: the free pages the map gives are whole,
  pairwise different, and none is among the pages marked \<open>SYSTEM\<close>.
\<close>

definition map_good :: "nat \<Rightarrow> u32 \<Rightarrow> u32 \<Rightarrow> u32 \<Rightarrow> mem \<Rightarrow> u32 list \<Rightarrow> bool" where
  "map_good N mbi ks ke m es \<longleftrightarrow> distinct (map_free ks ke m es) \<and>
     (\<forall>x \<in> set (map_free ks ke m es). pool_page N x \<and> PAGE x \<noteq> PAGE mbi \<and>
        PAGE x \<notin> PAGE ` set (map_system ks ke m es))"

text \<open>C5: On a map that init_kalloc can walk, with an empty stack and an all-FREE bitmap that
  covers the stack: when the pages of the free regions outside the kernel are distinct, lie
  on page boundaries within the covered range, and none of them is the page of the boot
  information or a page that the map makes SYSTEM, init_kalloc establishes the page pool
  invariant that k_alloc and kfree keep. The exclusion of the boot information page is
  necessary, as the next property shows.\<close>
theorem init_kalloc_pool:
  assumes ready: "init_ready N C mbi es s" and start: "ms_list s = []"
    and free: "\<forall>n. unat n < N \<longrightarrow> bitmap_get s n = FREE" and "N \<le> C"
    and good: "map_good N mbi ks ke (ram s) es"
  shows "\<exists>t. init_kalloc mbi ks ke s = Inr t \<and> pool_inv N C t"
proof -
  from init_kalloc_fills [OF ready, of ks ke] obtain t where
    t: "init_kalloc mbi ks ke s = Inr t"
      "fills N C s t (map_free ks ke (ram s) es) (mbi # map_system ks ke (ram s) es)" by blast
  have "pool_inv N C t"
    using t(2) good start free \<open>N \<le> C\<close>
    by (auto simp: pool_inv_def map_good_def fills_def pool_page_def)
  with t show ?thesis by blast
qed

text \<open>
  The page that holds the boot information is marked \<open>SYSTEM\<close> but not kept off the stack: a
  free region that contains it makes the allocator hand it out.
\<close>

text \<open>C6: init_kalloc marks the page of the boot information as SYSTEM and still pushes it on
  the free stack when it lies in a free region, so k_alloc will hand it out.\<close>
theorem init_kalloc_gives_out_mbi:
  assumes "init_ready N C mbi es s" and "ms_list s = []" and "x \<in> set (map_free ks ke (ram s) es)"
    and "PAGE x = PAGE mbi"
  shows "\<exists>t. init_kalloc mbi ks ke s = Inr t \<and> x \<in> set (ms_list t) \<and>
    bitmap_get t (PAGE x) = SYSTEM \<and> \<not> pool_inv N C t"
proof -
  from init_kalloc_fills [OF assms(1), of ks ke] obtain t where
    t: "init_kalloc mbi ks ke s = Inr t"
      "fills N C s t (map_free ks ke (ram s) es) (mbi # map_system ks ke (ram s) es)" by blast
  have "unat (PAGE mbi) < N" using assms(1) by (simp add: init_ready_def)
  then have "x \<in> set (ms_list t)" "bitmap_get t (PAGE x) = SYSTEM"
    using t(2) assms(2-4) by (simp_all add: fills_def)
  moreover from this have "\<not> pool_inv N C t" by (force simp: pool_inv_def)
  ultimately show ?thesis using t(1) by blast
qed

section \<open>A concrete memory map\<close>

text \<open>
  The areas of \<open>empty_pool\<close>; the boot information at \<open>info\<close>, its map at \<open>0x9000\<close>: one free
  region of two pages from \<open>0x3000\<close>.
\<close>

definition demo_boot :: "u32 \<Rightarrow> kmem" where
  "demo_boot info = empty_pool\<lparr>ram :=
     store32 (store32 (store32 (store32 (store32 (store32 (store32 (\<lambda>_. 0)
       (info + 44) 24) (info + 48) 0x9000)
       0x9000 20) 0x9004 0x3000) 0x9008 0) 0x900C 0x2000) 0x9014 1\<rparr>"

lemma demo_boot_area: "page_area 16 16 (demo_boot info)"
  using empty_pool_area
  by (simp add: demo_boot_def page_area_def bitmap_wf_def ms_wf_def ms_depth_def)

lemma demo_boot_list: "ms_list (demo_boot info) = []"
  by (simp add: ms_list_def ms_depth_def demo_boot_def)

lemma demo_boot_fields:
  assumes "info = 0x8000 \<or> info = 0x4000"
  shows "mbi_mmap_address (ram (demo_boot info)) info = 0x9000"
    "mmap_stop (ram (demo_boot info)) info = 0x9018"
    "mmap_size (ram (demo_boot info)) 0x9000 = 20"
    "mmap_baselow (ram (demo_boot info)) 0x9000 = 0x3000"
    "mmap_basehigh (ram (demo_boot info)) 0x9000 = 0"
    "mmap_lenlow (ram (demo_boot info)) 0x9000 = 0x2000"
    "mmap_type (ram (demo_boot info)) 0x9000 = 1"
  using assms
  by (auto simp: demo_boot_def mmap_field_defs mbi_field_defs mmap_stop_def aligned4_def)

lemma demo_boot_pages:
  "info = 0x8000 \<or> info = 0x4000 \<Longrightarrow> region_pages (ram (demo_boot info)) 0x9000 = [0x3000, 0x4000]"
  by (simp add: region_pages_def demo_boot_fields page_offsets_step page_offsets_stop)

lemma demo_boot_get:
  assumes "info = 0x8000 \<or> info = 0x4000" "unat n < 16"
  shows "bitmap_get (demo_boot info) n = FREE"
proof -
  have "load32 (ram (demo_boot info)) 0x1000 = load32 (\<lambda>_. 0) 0x1000"
    using assms(1) by (auto simp: demo_boot_def aligned4_def)
  moreover have "load32 (\<lambda>_. 0) 0x1000 = 0" by (simp add: load32_def)
  moreover have "bitmap_address (demo_boot info) = 0x1000" by (simp add: demo_boot_def)
  ultimately show ?thesis using assms(2) by (intro bitmap_get_zero) (simp add: word_at_def)
qed

lemma demo_boot_ready:
  assumes "info = 0x8000 \<or> info = 0x4000"
  shows "init_ready 16 16 info [0x9000] (demo_boot info)"
proof -
  have c: "clear_of 16 16 (demo_boot i) a"
    if "aligned4 a" "0x2044 \<le> unat a" for a i
    using that by (simp add: clear_of_def demo_boot_def bitmap_words_def)
  have "mbi_clear 16 16 (demo_boot info) info" "entry_clear 16 16 (demo_boot info) 0x9000"
    using assms by (auto simp: mbi_clear_def entry_clear_def aligned4_def intro!: c)
  moreover have "ms_depth (demo_boot info) = 0"
    using length_ms_list [of "demo_boot info"] by (simp add: demo_boot_list)
  ultimately show ?thesis using assms
    by (auto simp: init_ready_def demo_boot_area demo_boot_fields PAGE_nat region_ok_def
        demo_boot_pages map_pages_def mmap_next_def)
qed

lemma demo_boot_free:
  assumes "info = 0x8000 \<or> info = 0x4000"
  shows "map_free 0x100000 0x200000 (ram (demo_boot info)) [0x9000] = [0x3000, 0x4000]"
    and "map_system 0x100000 0x200000 (ram (demo_boot info)) [0x9000] = []"
  using assms by (simp_all add: map_free_def map_system_def region_free_def region_system_def
      demo_boot_fields demo_boot_pages outside_kernel_def MULTIBOOT_MMAP_FREE_MEMORY_def)

theorem init_kalloc_spec_witness:
  "\<exists>t. init_kalloc 0x8000 0x100000 0x200000 (demo_boot 0x8000) = Inr t \<and>
    ms_list t = [0x4000, 0x3000] \<and> bitmap_get t 8 = SYSTEM \<and> bitmap_get t 3 = FREE"
  using init_kalloc_spec [OF demo_boot_ready demo_boot_list, of "0x8000" "0x100000" "0x200000"]
    demo_boot_get [of "0x8000"] demo_boot_free [of "0x8000"]
  by (auto simp: PAGE_def)

theorem init_kalloc_pool_witness:
  "\<exists>t. init_kalloc 0x8000 0x100000 0x200000 (demo_boot 0x8000) = Inr t \<and> pool_inv 16 16 t"
proof -
  have "map_good 16 0x8000 0x100000 0x200000 (ram (demo_boot 0x8000)) [0x9000]"
    using demo_boot_free [of "0x8000"] by (simp add: map_good_def pool_page_def PAGE_def)
  from init_kalloc_pool [OF demo_boot_ready demo_boot_list _ _ this] demo_boot_get [of "0x8000"]
  show ?thesis by simp
qed

theorem init_kalloc_gives_out_mbi_witness:
  "\<exists>t. init_kalloc 0x4000 0x100000 0x200000 (demo_boot 0x4000) = Inr t \<and>
    0x4000 \<in> set (ms_list t) \<and> bitmap_get t 4 = SYSTEM"
  using init_kalloc_gives_out_mbi [OF demo_boot_ready demo_boot_list, of "0x4000" "0x4000" "0x100000" "0x200000"]
    demo_boot_free [of "0x4000"] by (auto simp: PAGE_def)

end
