(* ===== verification/Port_IO.thy ===== *)
theory Port_IO
  imports Kernel_Prelude
begin

text \<open>
  \<^verbatim>\<open>src/src/io.asm\<close> and \<^verbatim>\<open>src/src/include/io_bus.h\<close>: the processor's port instructions and its
  interrupt flag. What a device answers is not code of the repository: \<open>dev p k\<close> is the value
  the \<open>k\<close>-th read of port \<open>p\<close> gives, any function. Writes are recorded in order.
\<close>

record machine =
  dev :: "u16 \<Rightarrow> nat \<Rightarrow> u8"
  reads :: "u16 \<Rightarrow> nat"
  outs :: "(u16 \<times> u8) list"
  intr_flag :: bool

definition out :: "u16 \<Rightarrow> u8 \<Rightarrow> machine \<Rightarrow> machine" where
  "out port data io = io\<lparr>outs := outs io @ [(port, data)]\<rparr>"

definition in_port :: "u16 \<Rightarrow> machine \<Rightarrow> u8 \<times> machine" where
  "in_port port io =
     (dev io port (reads io port), io\<lparr>reads := (reads io)(port := Suc (reads io port))\<rparr>)"

definition cli :: "machine \<Rightarrow> machine" where
  "cli io = io\<lparr>intr_flag := False\<rparr>"

definition sti :: "machine \<Rightarrow> machine" where
  "sti io = io\<lparr>intr_flag := True\<rparr>"

fun out_all :: "(u16 \<times> u8) list \<Rightarrow> machine \<Rightarrow> machine" where
  "out_all [] io = io"
| "out_all ((p, v) # ws) io = out_all ws (out p v io)"

lemma out_fields [simp]:
  "dev (out p v io) = dev io" "reads (out p v io) = reads io"
  "outs (out p v io) = outs io @ [(p, v)]" "intr_flag (out p v io) = intr_flag io"
  by (simp_all add: out_def)

lemma in_port_fields [simp]:
  "fst (in_port p io) = dev io p (reads io p)"
  "dev (snd (in_port p io)) = dev io" "outs (snd (in_port p io)) = outs io"
  "intr_flag (snd (in_port p io)) = intr_flag io"
  "reads (snd (in_port p io)) = (reads io)(p := Suc (reads io p))"
  by (simp_all add: in_port_def)

lemma flag_fields [simp]:
  "dev (cli io) = dev io" "reads (cli io) = reads io" "outs (cli io) = outs io"
  "\<not> intr_flag (cli io)"
  "dev (sti io) = dev io" "reads (sti io) = reads io" "outs (sti io) = outs io"
  "intr_flag (sti io)"
  by (simp_all add: cli_def sti_def)

lemma out_all_fields [simp]:
  "outs (out_all ws io) = outs io @ ws" "dev (out_all ws io) = dev io"
  "reads (out_all ws io) = reads io" "intr_flag (out_all ws io) = intr_flag io"
  by (induction ws io rule: out_all.induct) simp_all

text \<open>The ports of \<^verbatim>\<open>io_bus.h\<close>.\<close>

definition PIT_CHANNEL_0 :: u16 where "PIT_CHANNEL_0 = 0x40"
definition PIT_COMMAND :: u16 where "PIT_COMMAND = 0x43"
definition PIC1 :: u16 where "PIC1 = 0x20"
definition PIC2 :: u16 where "PIC2 = 0xA0"
definition PIC1_DATA :: u16 where "PIC1_DATA = PIC1 + 1"
definition PIC2_DATA :: u16 where "PIC2_DATA = PIC2 + 1"
definition PIC_EOI :: u8 where "PIC_EOI = 0x20"

lemmas port_defs = PIT_CHANNEL_0_def PIT_COMMAND_def PIC1_def PIC2_def PIC1_DATA_def
  PIC2_DATA_def PIC_EOI_def

text \<open>A machine whose devices always answer \<open>v\<close>.\<close>

definition quiet_machine :: "u8 \<Rightarrow> machine" where
  "quiet_machine v = \<lparr>dev = (\<lambda>_ _. v), reads = (\<lambda>_. 0), outs = [], intr_flag = False\<rparr>"

end
