(* ===== verification/Interrupts.thy ===== *)
theory Interrupts
  imports Port_IO
begin

text \<open>
  \<^verbatim>\<open>src/src/interrupts/interrupts_handlers.c\<close>: the tables of interrupt and exception handlers,
  their registration with the interrupt controllers, and the dispatch. A handler is named by
  the C function that is registered; running it is the dispatcher's result.
\<close>

section \<open>State\<close>

datatype handler = pageFault | pit_interrupt_handler | keyboard_interrupt_handler

record handler_tables =
  IrqCalls :: "handler option list" \<comment> \<open>16 entries\<close>
  IsrCalls :: "handler option list" \<comment> \<open>32 entries\<close>

definition no_handlers :: handler_tables where
  "no_handlers = \<lparr>IrqCalls = replicate 16 None, IsrCalls = replicate 32 None\<rparr>"

definition tables_wf :: "handler_tables \<Rightarrow> bool" where
  "tables_wf h \<longleftrightarrow> length (IrqCalls h) = 16 \<and> length (IsrCalls h) = 32"

text \<open>The fields of the saved registers that the dispatchers read.\<close>

record InterruptSave =
  int_num :: u32
  err :: u32

section \<open>Operations\<close>

definition irq_port :: "u8 \<Rightarrow> u16" where
  "irq_port irq_number = (if irq_number < 8 then PIC1_DATA else PIC2_DATA)"

text \<open>An entry of one of the two arrays, read or written at an index the C code computes.\<close>

definition load_slot :: "nat \<Rightarrow> nat \<Rightarrow> handler option list \<Rightarrow> handler option res" where
  "load_slot line n t = (if n < length t then Inr (t ! n) else Inl (Undefined ''src/interrupts/interrupts_handlers.c'' line))"

definition store_slot :: "nat \<Rightarrow> nat \<Rightarrow> handler option \<Rightarrow> handler option list \<Rightarrow> handler option list res" where
  "store_slot line n c t =
     (if n < length t then Inr (t[n := c]) else Inl (Undefined ''src/interrupts/interrupts_handlers.c'' line))"

definition irq_new_call ::
  "u8 \<Rightarrow> handler \<Rightarrow> handler_tables \<times> machine \<Rightarrow> (handler_tables \<times> machine) res" where
  "irq_new_call irq_number caller = (\<lambda>(h, io).
     if irq_number > 16 then Inr (h, io)
     else
       let io = cli io
       in res_bind (store_slot 105 (unat irq_number) (Some caller) (IrqCalls h)) (\<lambda>calls.
          let (mask', io) = in_port (irq_port irq_number) io;
              io = out (irq_port irq_number) (mask' AND NOT (push_bit (unat (irq_number mod 8)) 1)) io
          in Inr (h\<lparr>IrqCalls := calls\<rparr>, sti io)))"

definition irq_remove_call ::
  "u8 \<Rightarrow> handler_tables \<times> machine \<Rightarrow> (handler_tables \<times> machine) res" where
  "irq_remove_call irq_number = (\<lambda>(h, io).
     if irq_number > 16 then Inr (h, io)
     else
       let io = cli io
       in res_bind (store_slot 137 (unat irq_number) None (IrqCalls h)) (\<lambda>calls.
          let (mask', io) = in_port (irq_port irq_number) io;
              io = out (irq_port irq_number) (mask' OR push_bit (unat (irq_number mod 8)) 1) io
          in Inr (h\<lparr>IrqCalls := calls\<rparr>, sti io)))"

definition isr_new_call :: "u8 \<Rightarrow> handler \<Rightarrow> handler_tables \<Rightarrow> handler_tables res" where
  "isr_new_call isr_number caller h =
     (if isr_number > 32 then Inr h
      else res_bind (load_slot 125 (unat isr_number) (IsrCalls h)) (\<lambda>old.
        if old \<noteq> None then Inl (KPanic ''src/interrupts/interrupts_handlers.c'' 126)
        else res_bind (store_slot 128 (unat isr_number) (Some caller) (IsrCalls h)) (\<lambda>calls.
          Inr (h\<lparr>IsrCalls := calls\<rparr>))))"

definition isr_remove_call :: "u8 \<Rightarrow> handler_tables \<Rightarrow> handler_tables res" where
  "isr_remove_call isr_number h =
     (if isr_number > 32 then Inr h
      else res_bind (store_slot 157 (unat isr_number) None (IsrCalls h)) (\<lambda>calls. Inr (h\<lparr>IsrCalls := calls\<rparr>)))"

text \<open>
  The dispatchers return the handler to run. \<^verbatim>\<open>isr_handler\<close> without a handler prints the
  registers and panics; its table is indexed with the gate number of the exception.
\<close>

definition isr_handler :: "InterruptSave \<Rightarrow> handler_tables \<Rightarrow> handler res" where
  "isr_handler is h =
     res_bind (load_slot 46 (unat (int_num is)) (IsrCalls h)) (\<lambda>f.
       case f of Some f \<Rightarrow> Inr f | None \<Rightarrow> Inl (KPanic ''src/interrupts/interrupts_handlers.c'' 82))"

definition irq_handler ::
  "InterruptSave \<Rightarrow> handler_tables \<times> machine \<Rightarrow> (handler option \<times> machine) res" where
  "irq_handler is = (\<lambda>(h, io).
     let io = out PIC1 PIC_EOI io;
         io = (if int_num is \<ge> 40 then out PIC2 PIC_EOI io else io)
     in res_bind (load_slot 92 (unat (int_num is - 32)) (IrqCalls h)) (\<lambda>f. Inr (f, io)))"

section \<open>Properties\<close>

lemma irq_index: "irq < 16 \<Longrightarrow> unat (irq :: u8) < 16"
  by (simp add: word_less_nat_alt)

lemma irq_dispatch_index:
  "unat (32 + ucast (irq :: u8) - 32 :: u32) = unat irq"
  by simp

lemma slot_simps [simp]:
  "n < length t \<Longrightarrow> load_slot line n t = Inr (t ! n)" "n < length t \<Longrightarrow> store_slot line n c t = Inr (t[n := c])"
  by (simp_all add: load_slot_def store_slot_def)

lemma irq_new_call_eq:
  assumes "irq < 16" and "tables_wf h"
  shows "\<exists>h' io'. irq_new_call irq f (h, io) = Inr (h', io') \<and>
    IrqCalls h' = (IrqCalls h)[unat irq := Some f] \<and> IsrCalls h' = IsrCalls h \<and> intr_flag io' \<and>
    outs io' = outs io @ [(irq_port irq,
      dev io (irq_port irq) (reads io (irq_port irq)) AND NOT (push_bit (unat (irq mod 8)) 1))]"
proof -
  have "\<not> irq > 16" "unat irq < length (IrqCalls h)" using assms by (auto simp: tables_wf_def irq_index)
  then show ?thesis by (simp add: irq_new_call_def Let_def in_port_def)
qed

text \<open>C10: irq_new_call stores the handler in its slot only, and writes the mask of the
  controller the line belongs to with just that line enabled; interrupts are on afterwards.\<close>
theorem irq_new_call_unmasks:
  assumes "irq < 16" and "tables_wf h"
  shows "\<exists>h' io' v. irq_new_call irq f (h, io) = Inr (h', io') \<and> tables_wf h' \<and> intr_flag io' \<and>
    (\<forall>j < 16. IrqCalls h' ! j = (if j = unat irq then Some f else IrqCalls h ! j)) \<and>
    IsrCalls h' = IsrCalls h \<and>
    outs io' = outs io @ [(if irq < 8 then 0x21 else 0xA1, v)] \<and>
    (\<forall>k < 8. bit v k = (k \<noteq> unat irq mod 8 \<and> bit (dev io (irq_port irq) (reads io (irq_port irq))) k))"
proof -
  from irq_new_call_eq [OF assms, of f io] obtain h' io' where
    h: "irq_new_call irq f (h, io) = Inr (h', io')" "IrqCalls h' = (IrqCalls h)[unat irq := Some f]"
      "IsrCalls h' = IsrCalls h" "intr_flag io'"
      "outs io' = outs io @ [(irq_port irq,
        dev io (irq_port irq) (reads io (irq_port irq)) AND NOT (push_bit (unat (irq mod 8)) 1))]"
    by blast
  have "bit (w AND NOT (push_bit (unat (irq mod 8)) 1)) k = (k \<noteq> unat irq mod 8 \<and> bit w k)"
    if "k < 8" for k and w :: u8
    using that by (auto simp: bit_simps unat_mod)
  moreover have "irq_port irq = (if irq < 8 then 0x21 else 0xA1)"
    by (simp add: irq_port_def port_defs)
  ultimately show ?thesis
    using h assms by (auto simp: tables_wf_def nth_list_update)
qed

theorem irq_new_call_unmasks_witness:
  "\<exists>h' io'. irq_new_call 1 keyboard_interrupt_handler (no_handlers, quiet_machine 0xFB) = Inr (h', io') \<and>
    IrqCalls h' ! 1 = Some keyboard_interrupt_handler"
  using irq_new_call_unmasks [of 1 no_handlers keyboard_interrupt_handler "quiet_machine 0xFB"]
  by (auto simp: tables_wf_def no_handlers_def)

text \<open>irq_handler acknowledges the first controller, and the second for lines 8 to 15,
  before it dispatches to the registered handler.\<close>
theorem irq_handler_acknowledges:
  fixes irq :: u8
  assumes "irq < 16" and "tables_wf h"
  shows "\<exists>io'. irq_handler \<lparr>int_num = 32 + ucast irq, err = 0\<rparr> (h, io) = Inr (IrqCalls h ! unat irq, io') \<and>
    outs io' = outs io @ (0x20, 0x20) # (if 8 \<le> irq then [(0xA0, 0x20)] else [])"
proof -
  have "(40 :: u32) \<le> 32 + ucast irq \<longleftrightarrow> 8 \<le> irq"
  proof -
    have "unat (32 + ucast irq :: u32) = 32 + unat irq"
      using irq_index [OF assms(1)] by (simp add: u32_add_nowrap)
    then show ?thesis by (simp add: word_le_nat_alt)
  qed
  then show ?thesis
    using irq_dispatch_index [of irq] irq_index [OF assms(1)] assms(2)
    by (simp add: irq_handler_def tables_wf_def Let_def port_defs)
qed

theorem irq_handler_acknowledges_witness:
  "\<exists>io'. irq_handler \<lparr>int_num = 32 + ucast (12 :: u8), err = 0\<rparr> (no_handlers, quiet_machine 0) = Inr (None, io') \<and>
    outs io' = [(0x20, 0x20), (0xA0, 0x20)]"
  using irq_handler_acknowledges [of 12 no_handlers "quiet_machine 0"]
  by (simp add: no_handlers_def tables_wf_def quiet_machine_def)

text \<open>
  The guards of the registration functions admit exactly one number past the end of the arrays,
  and an exception whose gate is not below 32, as the installed gate 186, is looked up past it.
\<close>
theorem handler_tables_bounds:
  assumes "tables_wf h"
  shows "irq_new_call n f (h, io) = Inl (Undefined ''src/interrupts/interrupts_handlers.c'' 105) \<longleftrightarrow> n = 16"
    and "irq_remove_call n (h, io) = Inl (Undefined ''src/interrupts/interrupts_handlers.c'' 137) \<longleftrightarrow> n = 16"
    and "isr_new_call n f h = Inl (Undefined ''src/interrupts/interrupts_handlers.c'' 125) \<longleftrightarrow> n = 32"
    and "isr_remove_call n h = Inl (Undefined ''src/interrupts/interrupts_handlers.c'' 157) \<longleftrightarrow> n = 32"
    and "isr_handler is h = Inl (Undefined ''src/interrupts/interrupts_handlers.c'' 46) \<longleftrightarrow> 32 \<le> unat (int_num is)"
proof -
  have n: "\<not> n > 16 \<Longrightarrow> unat n < 16 \<or> n = 16" "\<not> n > 32 \<Longrightarrow> unat n < 32 \<or> n = 32"
    by (auto simp: word_less_nat_alt word_unat_eq_iff)
  have l: "length (IrqCalls h) = 16" "length (IsrCalls h) = 32" using assms by (simp_all add: tables_wf_def)
  show "irq_new_call n f (h, io) = Inl (Undefined ''src/interrupts/interrupts_handlers.c'' 105) \<longleftrightarrow> n = 16"
    "irq_remove_call n (h, io) = Inl (Undefined ''src/interrupts/interrupts_handlers.c'' 137) \<longleftrightarrow> n = 16"
    using n(1) l by (auto simp: irq_new_call_def irq_remove_call_def store_slot_def in_port_def Let_def)
  show "isr_new_call n f h = Inl (Undefined ''src/interrupts/interrupts_handlers.c'' 125) \<longleftrightarrow> n = 32"
    "isr_remove_call n h = Inl (Undefined ''src/interrupts/interrupts_handlers.c'' 157) \<longleftrightarrow> n = 32"
    using n(2) l by (auto simp: isr_new_call_def isr_remove_call_def load_slot_def store_slot_def)
  show "isr_handler is h = Inl (Undefined ''src/interrupts/interrupts_handlers.c'' 46) \<longleftrightarrow> 32 \<le> unat (int_num is)"
    using l by (auto simp: isr_handler_def load_slot_def split: option.splits)
qed

end
