(* ===== verification/Paging.thy ===== *)
theory Paging
  imports Kernel_Memory Interrupts
begin

text \<open>
  \<^verbatim>\<open>src/src/memory/virtual_memory_manager.c\<close>: the page directory and the page tables, which
  the running kernel reads and writes through a window of virtual memory at
  \<open>KERNEL_STRUCTURES_SPACE\<close>: one page of directory, then the 1024 tables one after the other.
  The locale \<open>address_space\<close> is the contract of a page mapping; its clients are every caller of
  \<open>map\<close> in the kernel.
\<close>

section \<open>The structures\<close>

definition KERNEL_STRUCTURES_SPACE :: u32 where "KERNEL_STRUCTURES_SPACE = 0xF8000000"
definition PAGE_DIRECTORY_SIZE :: u32 where "PAGE_DIRECTORY_SIZE = 0x1000"

definition directory :: u32 where "directory = KERNEL_STRUCTURES_SPACE"

text \<open>\<^verbatim>\<open>directory[i].entry\<close>, and the bit fields of the entries.\<close>

definition pd_entry_addr :: "u32 \<Rightarrow> u32" where
  "pd_entry_addr i = directory + 4 * i"

definition getTableEntry :: "u32 \<Rightarrow> u32" where
  "getTableEntry table_entry_index = directory + PAGE_DIRECTORY_SIZE + table_entry_index * 0x1000"

definition pt_entry_addr :: "u32 \<Rightarrow> u32 \<Rightarrow> u32" where
  "pt_entry_addr pd pt = getTableEntry pd + 4 * pt"

definition entry_present :: "u32 \<Rightarrow> bool" where
  "entry_present e \<longleftrightarrow> bit e 0"

definition entry_address :: "u32 \<Rightarrow> u32" where
  "entry_address e = drop_bit 12 e"

definition pd_present :: "mem \<Rightarrow> u32 \<Rightarrow> bool" where
  "pd_present m i = entry_present (load32 m (pd_entry_addr i))"

definition set_pd_present :: "u32 \<Rightarrow> mem \<Rightarrow> mem" where
  "set_pd_present i m = store32 m (pd_entry_addr i) (load32 m (pd_entry_addr i) OR 1)"

definition pd_index :: "u32 \<Rightarrow> u32" where "pd_index va = drop_bit 22 va"
definition pt_index :: "u32 \<Rightarrow> u32" where "pt_index va = drop_bit 12 va AND 0x03FF"

section \<open>Operations\<close>

definition getPhysicalAddress :: "u32 \<Rightarrow> kmem \<Rightarrow> u32 res" where
  "getPhysicalAddress virtual_address s =
     (if virtual_address AND 0xFFF \<noteq> 0
      then Inl (KPanic ''src/memory/virtual_memory_manager.c'' 72)
      else if \<not> pd_present (ram s) (pd_index virtual_address) then Inr 0
      else
        let entry = load32 (ram s) (pt_entry_addr (pd_index virtual_address) (pt_index virtual_address))
        in if \<not> entry_present entry then Inr 0
           else Inr (push_bit 12 (entry_address entry)))"

definition map_page :: "u32 \<Rightarrow> u32 \<Rightarrow> kmem \<Rightarrow> kmem res" where
  "map_page physical_address virtual_address s =
     (if physical_address AND 0xFFF \<noteq> 0 \<or> virtual_address AND 0xFFF \<noteq> 0
      then Inl (KPanic ''src/memory/virtual_memory_manager.c'' 112)
      else
        let pd = pd_index virtual_address; pt = pt_index virtual_address;
            m = (if \<not> pd_present (ram s) pd then set_pd_present pd (ram s) else ram s)
        in Inr (s\<lparr>ram := store32 m (pt_entry_addr pd pt) (physical_address OR 1)\<rparr>))"

definition remap :: "u32 \<Rightarrow> u32 \<Rightarrow> kmem \<Rightarrow> kmem res" where
  "remap virtual_old virtual_new s =
     (if virtual_old AND 0xFFF \<noteq> 0 \<or> virtual_new AND 0xFFF \<noteq> 0
      then Inl (KPanic ''src/memory/virtual_memory_manager.c'' 88)
      else if \<not> pd_present (ram s) (pd_index virtual_old)
      then Inl (KPanic ''src/memory/virtual_memory_manager.c'' 95)
      else
        let old = load32 (ram s) (pt_entry_addr (pd_index virtual_old) (pt_index virtual_old))
        in if \<not> entry_present old
           then Inl (KPanic ''src/memory/virtual_memory_manager.c'' 97)
           else
             let entry = push_bit 12 (entry_address old);
                 pd = pd_index virtual_new; pt = pt_index virtual_new;
                 m = (if \<not> pd_present (ram s) pd then set_pd_present pd (ram s) else ram s)
             in Inr (s\<lparr>ram := store32 m (pt_entry_addr pd pt) (entry OR 1)\<rparr>))"

definition init_paging :: "handler_tables \<times> kmem \<Rightarrow> (handler_tables \<times> kmem) res" where
  "init_paging = (\<lambda>(h, s).
     res_bind (isr_new_call 14 pageFault h) (\<lambda>h.
       let m = fill_bytes (directory + 0x1000) 32 4096 (ram s);
           m = store32 m directory (load32 m directory AND NOT 1);
           m = store32 m directory (load32 m directory AND NOT 0x20)
       in Inr (h, s\<lparr>ram := m\<rparr>)))"

section \<open>The window as an array of words\<close>

definition va_ok :: "u32 \<Rightarrow> bool" where
  "va_ok a \<longleftrightarrow> a AND 0xFFF = 0"

lemma pd_index_nat: "unat (pd_index va) = unat va div 4194304"
  by (simp add: pd_index_def unsigned_drop_bit_eq drop_bit_eq_div unat_div)

lemma pt_index_nat: "unat (pt_index va) = unat va div 4096 mod 1024"
proof -
  have "(0x03FF :: u32) = mask 10" by (simp add: mask_eq_exp_minus_1)
  then have "pt_index va = take_bit 10 (drop_bit 12 va)"
    by (simp add: pt_index_def take_bit_eq_mask)
  then show ?thesis
    by (simp add: unsigned_take_bit_eq unsigned_drop_bit_eq take_bit_eq_mod drop_bit_eq_div unat_div unat_mod)
qed

lemma pd_index_less: "unat (pd_index va) < 1024"
  using unat_u32_less [of va] by (simp add: pd_index_nat less_mult_imp_div_less)

lemma pt_index_less: "unat (pt_index va) < 1024"
  by (simp add: pt_index_nat)

text \<open>The page number \<open>va >> 12\<close>: table and slot together.\<close>

definition page_no :: "u32 \<Rightarrow> nat" where
  "page_no va = unat va div 4096"

lemma page_no_index: "page_no va = 1024 * unat (pd_index va) + unat (pt_index va)"
proof -
  have "unat va div 4194304 = unat va div 4096 div 1024" by (simp add: div_mult2_eq [symmetric])
  then show ?thesis by (simp add: page_no_def pd_index_nat pt_index_nat)
qed

lemma page_no_less: "page_no va < 1048576"
  using unat_u32_less [of va] by (simp add: page_no_def less_mult_imp_div_less)

lemma page_no_inject:
  assumes "va_ok a" "va_ok b" shows "page_no a = page_no b \<longleftrightarrow> a = b"
proof
  assume eq: "page_no a = page_no b"
  have "unat a mod 4096 = unat b mod 4096"
    using assms by (simp add: va_ok_def page_aligned_nat)
  with eq show "a = b" by (metis page_no_def div_mult_mod_eq u32_eqI)
qed simp

lemma aligned4_directory [simp]: "aligned4 directory"
  by (simp add: aligned4_def directory_def KERNEL_STRUCTURES_SPACE_def)

definition dir_word :: "mem \<Rightarrow> nat \<Rightarrow> u32" where
  "dir_word m p = load32 m (word_at directory p)"

definition page_word :: "mem \<Rightarrow> nat \<Rightarrow> u32" where
  "page_word m n = load32 m (word_at directory (1024 + n))"

lemma pd_entry_word: "pd_entry_addr (pd_index va) = word_at directory (page_no va div 1024)"
proof -
  have "page_no va div 1024 = unat (pd_index va)"
    using pt_index_less [of va] by (simp add: page_no_index)
  then show ?thesis by (simp add: pd_entry_addr_def word_at_def)
qed

lemma pt_entry_word: "pt_entry_addr (pd_index va) (pt_index va) = word_at directory (1024 + page_no va)"
  by (simp add: pt_entry_addr_def getTableEntry_def word_at_def page_no_index PAGE_DIRECTORY_SIZE_def
      algebra_simps)

lemma dir_word_upd:
  assumes "p < 1024" "q < 1024"
  shows "dir_word (store32 m (word_at directory p) v) q = (if p = q then v else dir_word m q)"
  using assms by (simp add: dir_word_def ram.array_upd)

lemma dir_word_page:
  assumes "p < 1024" "n < 1048576"
  shows "dir_word (store32 m (word_at directory (1024 + n)) v) p = dir_word m p"
  using assms by (simp add: dir_word_def ram.array_upd)

lemma page_word_upd:
  assumes "n < 1048576" "k < 1048576"
  shows "page_word (store32 m (word_at directory (1024 + n)) v) k = (if n = k then v else page_word m k)"
  using assms by (simp add: page_word_def ram.array_upd)

lemma page_word_dir:
  assumes "p < 1024" "n < 1048576"
  shows "page_word (store32 m (word_at directory p) v) n = page_word m n"
  using assms by (simp add: page_word_def ram.array_upd)

lemmas window_upd = dir_word_upd dir_word_page page_word_upd page_word_dir

text \<open>
  A table entry is present only under a present directory entry. The boot code clears the
  tables and \<open>map_page\<close> sets the directory entry first, so that making a table present never
  uncovers an old entry.
\<close>

definition paging_wf :: "kmem \<Rightarrow> bool" where
  "paging_wf s \<longleftrightarrow> (\<forall>n < 1048576. entry_present (page_word (ram s) n)
     \<longrightarrow> entry_present (dir_word (ram s) (n div 1024)))"

lemma getPhysicalAddress_word:
  assumes "va_ok va"
  shows "getPhysicalAddress va s =
    Inr (if entry_present (dir_word (ram s) (page_no va div 1024)) \<and> entry_present (page_word (ram s) (page_no va))
      then push_bit 12 (drop_bit 12 (page_word (ram s) (page_no va))) else 0)"
  using assms
  by (simp add: getPhysicalAddress_def va_ok_def pd_present_def pd_entry_word pt_entry_word
      dir_word_def page_word_def entry_address_def Let_def)

lemma va_ok_restore: "va_ok pa \<Longrightarrow> push_bit 12 (drop_bit 12 pa) = pa"
  using bits_ident [of 12 pa] by (simp add: va_ok_def page_low_bits)

lemma entry_or_1:
  assumes "va_ok pa"
  shows "entry_present (pa OR 1)" and "push_bit 12 (drop_bit 12 (pa OR 1)) = pa"
  using va_ok_restore [OF assms] by (simp_all add: entry_present_def bit_simps)

section \<open>One mapping written\<close>

text \<open>Both \<open>map_page\<close> and \<open>remap\<close> end by writing one entry: this is what it does.\<close>

definition write_entry :: "u32 \<Rightarrow> u32 \<Rightarrow> mem \<Rightarrow> mem" where
  "write_entry pa va m =
     store32 (if \<not> pd_present m (pd_index va) then set_pd_present (pd_index va) m else m)
       (pt_entry_addr (pd_index va) (pt_index va)) (pa OR 1)"

lemma map_page_write:
  "va_ok pa \<Longrightarrow> va_ok va \<Longrightarrow> map_page pa va s = Inr (s\<lparr>ram := write_entry pa va (ram s)\<rparr>)"
  by (simp add: map_page_def va_ok_def write_entry_def Let_def)

lemma page_no_dir: "page_no va div 1024 < 1024"
  using page_no_less [of va] by (simp add: less_mult_imp_div_less)

lemma write_entry_pages:
  assumes "n < 1048576"
  shows "page_word (write_entry pa va m) n = (if n = page_no va then pa OR 1 else page_word m n)"
  using assms page_no_less [of va] page_no_dir [of va]
  by (auto simp: write_entry_def set_pd_present_def pd_entry_word pt_entry_word window_upd)

lemma write_entry_dirs:
  assumes "p < 1024"
  shows "entry_present (dir_word (write_entry pa va m) p)
    = (p = page_no va div 1024 \<or> entry_present (dir_word m p))"
proof -
  have "entry_present (x OR 1)" for x by (simp add: entry_present_def bit_simps)
  then show ?thesis
    using assms page_no_less [of va] page_no_dir [of va]
    by (auto simp: write_entry_def set_pd_present_def pd_present_def pd_entry_word pt_entry_word
        window_upd dir_word_def [symmetric])
qed

lemma write_entry_wf:
  assumes "paging_wf s"
  shows "paging_wf (s\<lparr>ram := write_entry pa va (ram s)\<rparr>)"
  using assms by (auto simp: paging_wf_def write_entry_pages write_entry_dirs less_mult_imp_div_less)

lemma write_entry_translate:
  assumes wf: "paging_wf s" and pa: "va_ok pa" and va: "va_ok va" and v: "va_ok v"
  shows "getPhysicalAddress v (s\<lparr>ram := write_entry pa va (ram s)\<rparr>)
    = (if v = va then Inr pa else getPhysicalAddress v s)"
proof (cases "v = va")
  case True
  then show ?thesis using pa va
    by (simp add: getPhysicalAddress_word write_entry_pages write_entry_dirs page_no_less page_no_dir
        entry_or_1 va_ok_restore)
next
  case False
  then have "page_no v \<noteq> page_no va" using page_no_inject [OF v va] by simp
  moreover have "entry_present (page_word (ram s) (page_no v))
      \<Longrightarrow> entry_present (dir_word (ram s) (page_no v div 1024))"
    using wf page_no_less [of v] by (simp add: paging_wf_def)
  ultimately show ?thesis using False v
    by (auto simp: getPhysicalAddress_word write_entry_pages write_entry_dirs page_no_less page_no_dir)
qed

text \<open>Memory outside the window is not touched.\<close>

definition in_window :: "u32 \<Rightarrow> bool" where
  "in_window a \<longleftrightarrow> 0xF8000000 \<le> unat a \<and> unat a < 0xF8401000"

lemma window_addr: "n < 1049600 \<Longrightarrow> in_window (word_at directory n)"
  by (simp add: in_window_def unat_word_at directory_def KERNEL_STRUCTURES_SPACE_def)

lemma write_entry_outside:
  assumes "aligned4 a" "\<not> in_window a"
  shows "load32 (write_entry pa va m) a = load32 m a"
proof -
  have "word_at directory (page_no va div 1024) \<noteq> a" "word_at directory (1024 + page_no va) \<noteq> a"
    using assms(2) window_addr page_no_less [of va] page_no_dir [of va] by fastforce+
  with assms(1) show ?thesis
    by (auto simp: write_entry_def set_pd_present_def pd_entry_word pt_entry_word)
qed

section \<open>The contract of an address space\<close>

locale address_space =
  fixes wf :: "'s \<Rightarrow> bool"
    and translate :: "u32 \<Rightarrow> 's \<Rightarrow> u32 res"
    and map_op :: "u32 \<Rightarrow> u32 \<Rightarrow> 's \<Rightarrow> 's res"
  assumes map_ok: "wf s \<Longrightarrow> va_ok pa \<Longrightarrow> va_ok va \<Longrightarrow> \<exists>t. map_op pa va s = Inr t \<and> wf t"
    and translate_map: "wf s \<Longrightarrow> va_ok pa \<Longrightarrow> va_ok va \<Longrightarrow> va_ok v \<Longrightarrow> map_op pa va s = Inr t
      \<Longrightarrow> translate v t = (if v = va then Inr pa else translate v s)"
begin

lemma map_twice:
  assumes "wf s" "va_ok pa" "va_ok pa'" "va_ok va" "va_ok v"
    and "map_op pa va s = Inr t" "map_op pa' va t = Inr u"
  shows "translate v u = (if v = va then Inr pa' else translate v s)"
proof -
  have "wf t" using map_ok [of s pa va] assms by auto
  with assms show ?thesis using translate_map [of t pa' va v u] translate_map [of s pa va v t] by simp
qed

text \<open>A run of mappings: the last one for an address counts.\<close>

lemma map_run:
  assumes "wf s" "\<forall>(pa, va) \<in> set ps. va_ok pa \<and> va_ok va"
  shows "\<exists>t. fold_res (\<lambda>(pa, va). map_op pa va) ps s = Inr t \<and> wf t \<and>
    (\<forall>v. va_ok v \<longrightarrow> translate v t = (case map_of (rev (map (\<lambda>(pa, va). (va, pa)) ps)) v of
        Some pa \<Rightarrow> Inr pa | None \<Rightarrow> translate v s))"
  using assms
proof (induction ps arbitrary: s)
  case (Cons p ps)
  obtain pa va where p: "p = (pa, va)" by (cases p)
  from Cons.prems p have ok: "va_ok pa" "va_ok va" by auto
  from map_ok [OF Cons.prems(1) ok] obtain u where u: "map_op pa va s = Inr u" "wf u" by blast
  from Cons.IH [OF u(2)] Cons.prems(2) obtain t where
    t: "fold_res (\<lambda>(pa, va). map_op pa va) ps u = Inr t" "wf t"
      "\<forall>v. va_ok v \<longrightarrow> translate v t = (case map_of (rev (map (\<lambda>(pa, va). (va, pa)) ps)) v of
        Some pa \<Rightarrow> Inr pa | None \<Rightarrow> translate v u)" by auto
  have "translate v t = (case map_of (rev (map (\<lambda>(pa, va). (va, pa)) (p # ps))) v of
        Some pa \<Rightarrow> Inr pa | None \<Rightarrow> translate v s)" if "va_ok v" for v
    using t(3) that translate_map [OF Cons.prems(1) ok that u(1)]
    by (auto simp: p map_add_def split: option.splits)
  with u t p show ?case by simp
qed simp

end

interpretation vmm: address_space paging_wf getPhysicalAddress map_page
proof unfold_locales
  show "paging_wf s \<Longrightarrow> va_ok pa \<Longrightarrow> va_ok va \<Longrightarrow> \<exists>t. map_page pa va s = Inr t \<and> paging_wf t"
    for s pa va
    by (simp add: map_page_write write_entry_wf)
  show "paging_wf s \<Longrightarrow> va_ok pa \<Longrightarrow> va_ok va \<Longrightarrow> va_ok v \<Longrightarrow> map_page pa va s = Inr t
      \<Longrightarrow> getPhysicalAddress v t = (if v = va then Inr pa else getPhysicalAddress v s)" for s pa va v t
    using write_entry_translate [of s pa va v] by (auto simp: map_page_write)
qed

section \<open>Properties\<close>

text \<open>C8: map makes the virtual page translate to the given physical page, and changes the
  translation of no other page and no memory outside the paging structures.\<close>
theorem map_page_spec:
  assumes "paging_wf s" and "va_ok pa" and "va_ok va"
  shows "\<exists>t. map_page pa va s = Inr t \<and> paging_wf t \<and> getPhysicalAddress va t = Inr pa \<and>
    (\<forall>v. va_ok v \<and> v \<noteq> va \<longrightarrow> getPhysicalAddress v t = getPhysicalAddress v s) \<and>
    (\<forall>a. aligned4 a \<and> \<not> in_window a \<longrightarrow> load32 (ram t) a = load32 (ram s) a)"
proof -
  from vmm.map_ok [OF assms] obtain t where t: "map_page pa va s = Inr t" "paging_wf t" by blast
  then have "load32 (ram t) a = load32 (ram s) a" if "aligned4 a" "\<not> in_window a" for a
    using write_entry_outside [OF that] map_page_write [OF assms(2,3), of s] by auto
  with t vmm.translate_map [OF assms _ t(1)] assms(3) show ?thesis by auto
qed

lemma getPhysicalAddress_present:
  assumes "va_ok va" "getPhysicalAddress va s = Inr p" "p \<noteq> 0"
  shows "pd_present (ram s) (pd_index va)"
    and "entry_present (page_word (ram s) (page_no va))"
    and "push_bit 12 (drop_bit 12 (page_word (ram s) (page_no va))) = p"
  using assms by (auto simp: getPhysicalAddress_word pd_present_def pd_entry_word dir_word_def split: if_splits)

lemma va_ok_shifted: "va_ok (push_bit 12 x)"
  by (simp add: va_ok_def page_low_bits take_bit_push_bit)

text \<open>remap makes the new virtual page translate to the physical page of the old one, which
  stays mapped as well, and changes no other translation.\<close>
theorem remap_spec:
  assumes "paging_wf s" and "va_ok old" and "va_ok new" and "getPhysicalAddress old s = Inr p" and "p \<noteq> 0"
  shows "\<exists>t. remap old new s = Inr t \<and> paging_wf t \<and> getPhysicalAddress new t = Inr p \<and>
    getPhysicalAddress old t = Inr p \<and>
    (\<forall>v. va_ok v \<and> v \<noteq> new \<longrightarrow> getPhysicalAddress v t = getPhysicalAddress v s)"
proof -
  note old = getPhysicalAddress_present [OF assms(2,4,5)]
  have p: "va_ok p" using va_ok_shifted [of "drop_bit 12 (page_word (ram s) (page_no old))"] old(3) by simp
  have "remap old new s = Inr (s\<lparr>ram := write_entry p new (ram s)\<rparr>)"
    using assms(2,3) old
    by (simp add: remap_def va_ok_def pt_entry_word page_word_def entry_address_def Let_def write_entry_def)
  then have "remap old new s = map_page p new s" using map_page_write [OF p assms(3), of s] by simp
  with vmm.map_ok [OF assms(1) p assms(3)] vmm.translate_map [OF assms(1) p assms(3)] assms(2-4)
  show ?thesis by auto
qed

section \<open>Start-up\<close>

lemma fill_load_inside:
  assumes "\<And>k. k \<in> {0, 1, 2, 3} \<Longrightarrow> unat (a + k - p) < n" "n \<le> 4294967295"
  shows "\<not> bit (load32 (fill_bytes p 32 n m) a) 0"
proof -
  have "fill_bytes p 32 n m a = 32"
    using assms(1) [of 0] assms(2) by (simp add: fill_bytes_value)
  then show ?thesis by (simp add: load32_def bit_simps)
qed

lemma fill_load_outside:
  assumes "\<And>k. k \<in> {0, 1, 2, 3} \<Longrightarrow> n \<le> unat (a + k - p)" "n \<le> 4294967295"
  shows "load32 (fill_bytes p c n m) a = load32 m a"
proof (rule load32_cong)
  fix x assume "x \<in> {a, a + 1, a + 2, a + 3}"
  then obtain k where "k \<in> {0, 1, 2, 3}" "x = a + k" by fastforce
  with assms(1) [of k] assms(2) show "fill_bytes p c n m x = m x" by (simp add: fill_bytes_value)
qed

lemma clear_first_table:
  defines "m' m \<equiv> fill_bytes (directory + 0x1000) 32 4096 m"
  shows "n < 1024 \<Longrightarrow> \<not> entry_present (page_word (m' m) n)"
    and "1024 \<le> n \<Longrightarrow> n < 1048576 \<Longrightarrow> page_word (m' m) n = page_word m n"
    and "p < 1024 \<Longrightarrow> dir_word (m' m) p = dir_word m p"
proof -
  have off: "unat (word_at directory j + k - (directory + 0x1000)) = 4 * j + unat k - 4096"
    if "1024 \<le> j" "j < 1049600" "k \<in> {0, 1, 2, 3}" for j k
  proof -
    have "unat (word_at directory j + k) = 0xF8000000 + 4 * j + unat k"
    proof -
      have w: "unat (word_at directory j) = 0xF8000000 + 4 * j" using that(2)
        by (simp add: unat_word_at directory_def KERNEL_STRUCTURES_SPACE_def)
      have "unat k \<le> 3" using that(3) by auto
      then show ?thesis using that(2) w by (simp add: u32_add_nowrap)
    qed
    moreover have "unat (directory + 0x1000) = 0xF8000000 + 4096"
      by (simp add: directory_def KERNEL_STRUCTURES_SPACE_def)
    ultimately show ?thesis using that(1) by (simp add: u32_sub_nowrap)
  qed
  have below: "unat (word_at directory j + k - (directory + 0x1000)) \<ge> 4096"
    if "j < 1024" "k \<in> {0, 1, 2, 3}" for j k
  proof -
    have w: "unat (word_at directory j) = 0xF8000000 + 4 * j" using that(1)
      by (simp add: unat_word_at directory_def KERNEL_STRUCTURES_SPACE_def)
    have k: "unat k \<le> 3" using that(2) by auto
    have "word_at directory j + k - (directory + 0x1000) = (word_at directory j + k - directory) - 0x1000"
      by simp
    moreover have "unat (word_at directory j + k) = 0xF8000000 + 4 * j + unat k"
      using that(1) w k by (simp add: u32_add_nowrap)
    moreover have "unat directory = 0xF8000000" by (simp add: directory_def KERNEL_STRUCTURES_SPACE_def)
    ultimately have "unat (word_at directory j + k - directory) = 4 * j + unat k"
      by (simp add: u32_sub_nowrap)
    moreover have "unat (x - 0x1000) \<ge> 4096" if "unat x < 4096" for x :: u32
    proof -
      have eq: "x - 0x1000 = x + 0xFFFFF000" by simp
      have "unat (x + 0xFFFFF000) = unat x + 4294963200"
        using that by (simp add: u32_add_nowrap)
      then show ?thesis unfolding eq by simp
    qed
    ultimately show ?thesis
      using that(1) k by (simp add: \<open>word_at directory j + k - (directory + 0x1000) = _\<close>)
  qed
  show "\<not> entry_present (page_word (m' m) n)" if "n < 1024"
  proof -
    have "unat (word_at directory (1024 + n) + k - (directory + 0x1000)) < 4096"
      if "k \<in> {0, 1, 2, 3}" for k
    proof -
      have "unat k \<le> 3" using that by auto
      then show ?thesis using \<open>n < 1024\<close> off [of "1024 + n" k] that by simp
    qed
    then show ?thesis
      unfolding entry_present_def page_word_def m'_def by (intro fill_load_inside) auto
  qed
  show "page_word (m' m) n = page_word m n" if "1024 \<le> n" "n < 1048576"
    unfolding page_word_def m'_def using that off [of "1024 + n"] by (intro fill_load_outside) auto
  show "dir_word (m' m) p = dir_word m p" if "p < 1024"
    unfolding dir_word_def m'_def using that below by (intro fill_load_outside) auto
qed

lemma clear_first_dir:
  fixes m :: mem
  defines "m1 \<equiv> store32 m directory (load32 m directory AND NOT 1)"
  defines "m2 \<equiv> store32 m1 directory (load32 m1 directory AND NOT 0x20)"
  shows "n < 1048576 \<Longrightarrow> page_word m2 n = page_word m n"
    and "p < 1024 \<Longrightarrow> 0 < p \<Longrightarrow> dir_word m2 p = dir_word m p"
    and "\<not> entry_present (dir_word m2 0)"
proof -
  have d: "directory = word_at directory 0" by (simp add: word_at_def)
  show "page_word m2 n = page_word m n" if "n < 1048576"
    unfolding m2_def m1_def using page_word_dir [of 0 n] that by (simp flip: d)
  show "dir_word m2 p = dir_word m p" if "p < 1024" "0 < p"
    unfolding m2_def m1_def using dir_word_upd [of 0 p] that by (simp flip: d)
  have "dir_word m2 0 = (load32 m directory AND NOT 1) AND NOT 0x20"
    by (simp add: m2_def m1_def dir_word_def word_at_def)
  then show "\<not> entry_present (dir_word m2 0)" by (simp add: entry_present_def bit_simps)
qed

lemma init_paging_works:
  assumes "paging_wf s" and "tables_wf h" and "IsrCalls h ! 14 = None"
  obtains t where "init_paging (h, s) = Inr (h\<lparr>IsrCalls := (IsrCalls h)[14 := Some pageFault]\<rparr>, t)"
    "paging_wf t" "t = s\<lparr>ram := ram t\<rparr>"
    "\<And>v. va_ok v \<Longrightarrow> getPhysicalAddress v t = (if v < 0x400000 then Inr 0 else getPhysicalAddress v s)"
    "\<And>z. unat z < 0xF8000000 \<or> 0xF8002000 \<le> unat z \<Longrightarrow> ram t z = ram s z"
proof -
  let ?m = "fill_bytes (directory + 0x1000) 32 4096 (ram s)"
  let ?m1 = "store32 ?m directory (load32 ?m directory AND NOT 1)"
  let ?m2 = "store32 ?m1 directory (load32 ?m1 directory AND NOT 0x20)"
  let ?h = "h\<lparr>IsrCalls := (IsrCalls h)[14 := Some pageFault]\<rparr>"
  let ?t = "s\<lparr>ram := ?m2\<rparr>"
  have isr: "isr_new_call 14 pageFault h = Inr ?h" using assms(2,3) by (simp add: isr_new_call_def tables_wf_def)
  note second = clear_first_dir [where m = ?m]
  have low: "\<not> entry_present (page_word ?m2 n)" if "n < 1024" for n
    using clear_first_table(1) [OF that] second(1) that by simp
  have high: "page_word ?m2 n = page_word (ram s) n" if "1024 \<le> n" "n < 1048576" for n
    using clear_first_table(2) [OF that] second(1) [OF that(2)] by simp
  have dirs: "dir_word ?m2 p = dir_word (ram s) p" if "p < 1024" "0 < p" for p
    using clear_first_table(3) [OF that(1)] second(2) [OF that] by simp
  have "paging_wf ?t"
    unfolding paging_wf_def
  proof (intro allI impI)
    fix n :: nat assume n: "n < 1048576" and p: "entry_present (page_word (ram ?t) n)"
    then have "1024 \<le> n" using low [of n] by (auto simp: linorder_not_less [symmetric])
    moreover from this have "0 < n div 1024" "n div 1024 < 1024"
      using n by (simp_all add: div_greater_zero_iff less_mult_imp_div_less)
    ultimately show "entry_present (dir_word (ram ?t) (n div 1024))"
      using assms(1) n p high [of n] dirs [of "n div 1024"] by (simp add: paging_wf_def)
  qed
  moreover have "getPhysicalAddress v ?t = (if v < 0x400000 then Inr 0 else getPhysicalAddress v s)"
    if v: "va_ok v" for v
  proof (cases "v < 0x400000")
    case True
    then have "page_no v < 1024" by (simp add: page_no_def word_less_nat_alt less_mult_imp_div_less)
    then show ?thesis using True v low [of "page_no v"] by (simp add: getPhysicalAddress_word)
  next
    case False
    then have n: "1024 \<le> page_no v"
      by (simp add: page_no_def word_less_nat_alt div_le_mono [of 4194304 _ 4096, simplified])
    then have "0 < page_no v div 1024" by (simp add: div_greater_zero_iff)
    then show ?thesis
      using False v high [OF n page_no_less] dirs [OF page_no_dir] by (simp add: getPhysicalAddress_word)
  qed
  moreover have "ram ?t z = ram s z" if z: "unat z < 0xF8000000 \<or> 0xF8002000 \<le> unat z" for z
  proof -
    have d: "unat directory = 0xF8000000" by (simp add: directory_def KERNEL_STRUCTURES_SPACE_def)
    have "\<not> unat (z - (directory + 0x1000)) < 4096"
      using z d by (auto simp: unat_sub_if' unat_u32_less u32_add_nowrap)
    moreover have "z \<notin> {directory, directory + 1, directory + 2, directory + 3}"
      using z d by (auto simp: u32_add_nowrap)
    ultimately show ?thesis by (simp add: store32_byte_other fill_bytes_value)
  qed
  ultimately show thesis using isr by (intro that [of ?t]) (simp_all add: init_paging_def Let_def)
qed

text \<open>C9: init_paging registers the page fault handler, unmaps exactly the first 4 MiB and
  leaves every other translation; a second call panics.\<close>
theorem init_paging_spec:
  assumes "paging_wf s" and "tables_wf h" and "IsrCalls h ! 14 = None"
  shows "\<exists>h' t. init_paging (h, s) = Inr (h', t) \<and> IsrCalls h' ! 14 = Some pageFault \<and> paging_wf t \<and>
    (\<forall>v. va_ok v \<longrightarrow> getPhysicalAddress v t =
      (if v < 0x400000 then Inr 0 else getPhysicalAddress v s)) \<and>
    init_paging (h', t) = Inl (KPanic ''src/interrupts/interrupts_handlers.c'' 126)"
proof -
  obtain t where t: "init_paging (h, s) = Inr (h\<lparr>IsrCalls := (IsrCalls h)[14 := Some pageFault]\<rparr>, t)" "paging_wf t"
    "\<And>v. va_ok v \<Longrightarrow> getPhysicalAddress v t = (if v < 0x400000 then Inr 0 else getPhysicalAddress v s)"
    by (rule init_paging_works [OF assms]) blast
  let ?h = "h\<lparr>IsrCalls := (IsrCalls h)[14 := Some pageFault]\<rparr>"
  have h14: "IsrCalls ?h ! 14 = Some pageFault" using assms(2) by (simp add: tables_wf_def)
  then have "init_paging (?h, t) = Inl (KPanic ''src/interrupts/interrupts_handlers.c'' 126)"
    using assms(2) by (simp add: init_paging_def isr_new_call_def tables_wf_def)
  with t h14 show ?thesis by (intro exI [of _ ?h] exI [of _ t]) simp
qed

section \<open>Concrete runs\<close>

lemma zero_kmem_paging: "paging_wf zero_kmem"
  by (simp add: paging_wf_def zero_kmem_def page_word_def entry_present_def)

lemma zero_kmem_translate: "va_ok v \<Longrightarrow> getPhysicalAddress v zero_kmem = Inr 0"
  by (simp add: getPhysicalAddress_word zero_kmem_def page_word_def entry_present_def)

theorem map_page_spec_witness:
  "\<exists>t. map_page 0x5000 0xE8000000 zero_kmem = Inr t \<and> getPhysicalAddress 0xE8000000 t = Inr 0x5000 \<and>
    getPhysicalAddress 0xE8001000 t = Inr 0"
  using map_page_spec [OF zero_kmem_paging, of "0x5000" "0xE8000000"] zero_kmem_translate
  by (auto simp: va_ok_def)

theorem remap_spec_witness:
  "\<exists>s t. map_page 0x5000 0xE8000000 zero_kmem = Inr s \<and> remap 0xE8000000 0xF0000000 s = Inr t \<and>
    getPhysicalAddress 0xF0000000 t = Inr 0x5000 \<and> getPhysicalAddress 0xE8000000 t = Inr 0x5000"
proof -
  have ok: "va_ok 0x5000" "va_ok 0xE8000000" "va_ok 0xF0000000" by (simp_all add: va_ok_def)
  from vmm.map_ok [OF zero_kmem_paging ok(1,2)] obtain s where
    s: "map_page 0x5000 0xE8000000 zero_kmem = Inr s" "paging_wf s" by blast
  have "getPhysicalAddress 0xE8000000 s = Inr 0x5000"
    using vmm.translate_map [OF zero_kmem_paging ok(1,2,2) s(1)] by simp
  from remap_spec [OF s(2) ok(2,3) this] s show ?thesis by auto
qed

theorem init_paging_spec_witness:
  "\<exists>s h t. map_page 0xB8000 0xB8000 zero_kmem = Inr s \<and> init_paging (no_handlers, s) = Inr (h, t) \<and>
    getPhysicalAddress 0xB8000 s = Inr 0xB8000 \<and> getPhysicalAddress 0xB8000 t = Inr 0"
proof -
  have ok: "va_ok 0xB8000" by (simp add: va_ok_def)
  from vmm.map_ok [OF zero_kmem_paging ok ok] obtain s where
    s: "map_page 0xB8000 0xB8000 zero_kmem = Inr s" "paging_wf s" by blast
  have "getPhysicalAddress 0xB8000 s = Inr 0xB8000"
    using vmm.translate_map [OF zero_kmem_paging ok ok ok s(1)] by simp
  with init_paging_spec [OF s(2), of no_handlers] s ok show ?thesis
    by (auto simp: tables_wf_def no_handlers_def)
qed

end
