(* ===== verification/Heap.thy ===== *)
theory Heap
  imports Page_Alloc Paging
begin

text \<open>
  \<^verbatim>\<open>src/src/memory/kernel_heap.c\<close> and \<^verbatim>\<open>kernel_heap_malloc.c\<close>: the kernel heap, a doubly
  linked list of blocks whose 16-byte headers lie in the heap itself, between two sentinels.
  The headers are read from and written to the bytes of memory.
\<close>

section \<open>Layout\<close>

definition HEAP_SPACE :: u32 where "HEAP_SPACE = 0xE8000000"
definition HEAP_SIZE :: u32 where "HEAP_SIZE = 0x08000000"
definition BLOCK_FREE :: u32 where "BLOCK_FREE = 1"
definition BLOCK_ALLOCATED :: u32 where "BLOCK_ALLOCATED = 0"

text \<open>\<^verbatim>\<open>sizeof(heap_t)\<close> and \<^verbatim>\<open>sizeof(block_t)\<close> on the 32-bit target.\<close>

definition sizeof_heap_t :: u32 where "sizeof_heap_t = 12"
definition sizeof_block_t :: u32 where "sizeof_block_t = 16"

record block_t =
  p_prev :: u32
  b_size :: u32
  b_free :: u32
  p_next :: u32

definition read_block :: "mem \<Rightarrow> u32 \<Rightarrow> block_t" where
  "read_block m a = \<lparr>p_prev = load32 m a, b_size = load32 m (a + 4),
     b_free = load32 m (a + 8), p_next = load32 m (a + 12)\<rparr>"

definition write_block :: "u32 \<Rightarrow> block_t \<Rightarrow> mem \<Rightarrow> mem" where
  "write_block a b m = store32 (store32 (store32 (store32 m a (p_prev b)) (a + 4) (b_size b))
     (a + 8) (b_free b)) (a + 12) (p_next b)"

definition set_prev :: "u32 \<Rightarrow> u32 \<Rightarrow> mem \<Rightarrow> mem" where "set_prev a v m = store32 m a v"
definition set_size :: "u32 \<Rightarrow> u32 \<Rightarrow> mem \<Rightarrow> mem" where "set_size a v m = store32 m (a + 4) v"
definition set_free :: "u32 \<Rightarrow> u32 \<Rightarrow> mem \<Rightarrow> mem" where "set_free a v m = store32 m (a + 8) v"
definition set_next :: "u32 \<Rightarrow> u32 \<Rightarrow> mem \<Rightarrow> mem" where "set_next a v m = store32 m (a + 12) v"

text \<open>The fields of \<^verbatim>\<open>heap_t\<close>.\<close>

definition heap_head :: "mem \<Rightarrow> u32 \<Rightarrow> u32" where "heap_head m heap = load32 m (heap + 4)"
definition heap_tail :: "mem \<Rightarrow> u32 \<Rightarrow> u32" where "heap_tail m heap = load32 m (heap + 8)"

section \<open>Start-up (kernel_heap.c)\<close>

definition init_heap_page :: "u32 \<Rightarrow> kmem \<Rightarrow> kmem res" where
  "init_heap_page i s = res_bind (k_alloc SYSTEM s) (\<lambda>(temp, s). map_page temp (HEAP_SPACE + i) s)"

definition init_heap_blocks :: "kmem \<Rightarrow> kmem" where
  "init_heap_blocks s =
     (let heap = HEAP_SPACE;
          head = HEAP_SPACE + sizeof_heap_t;
          tail = HEAP_SPACE + HEAP_SIZE - sizeof_block_t;
          first = head + sizeof_block_t;
          m = store32 (store32 (store32 (ram s) heap HEAP_SPACE) (heap + 4) head) (heap + 8) tail;
          m = write_block head \<lparr>p_prev = 0, b_size = 0, b_free = BLOCK_ALLOCATED, p_next = first\<rparr> m;
          m = write_block first \<lparr>p_prev = head, b_size = tail - head - sizeof_block_t,
                b_free = BLOCK_FREE, p_next = tail\<rparr> m;
          m = write_block tail \<lparr>p_prev = first, b_size = 0, b_free = BLOCK_ALLOCATED, p_next = 0\<rparr> m
      in s\<lparr>heap_ptr := heap, ram := m\<rparr>)"

definition init_heap :: "kmem \<Rightarrow> kmem res" where
  "init_heap s = res_bind (loop_res (page_loop 0 (\<lambda>_. HEAP_SIZE) init_heap_page s))
     (\<lambda>s. Inr (init_heap_blocks s))"

definition getHeap :: "kmem \<Rightarrow> u32 res" where
  "getHeap s = (if heap_ptr s = 0 then Inl (KPanic ''src/memory/kernel_heap.c'' 71)
     else Inr (heap_ptr s))"

definition heap_block_join :: "u32 \<Rightarrow> mem \<Rightarrow> mem" where
  "heap_block_join p_ref m =
     (let m = set_free p_ref BLOCK_FREE m;
          nxt = p_next (read_block m p_ref);
          m = set_size p_ref (b_size (read_block m p_ref) + sizeof_block_t + b_size (read_block m nxt)) m;
          p_last = p_next (read_block m (p_next (read_block m p_ref)));
          m = set_next p_ref p_last m
      in set_prev p_last p_ref m)"

section \<open>Allocation (kernel_heap_malloc.c)\<close>

text \<open>\<^verbatim>\<open>((sz + ALIGNED - 1) & ~(ALIGNED - 1))\<close> with \<^verbatim>\<open>ALIGNED\<close> 8, in 32 bits.\<close>

definition ALIGN_SIZE :: "u32 \<Rightarrow> u32" where
  "ALIGN_SIZE sz = (sz + 8 - 1) AND NOT 7"

text \<open>The walks follow \<^verbatim>\<open>p_next\<close>; a \<^verbatim>\<open>NULL\<close> on the way faults for ever.\<close>

partial_function (option) worst_fit_loop :: "mem \<Rightarrow> u32 \<Rightarrow> u32 \<Rightarrow> u32 \<Rightarrow> u32 option" where
  "worst_fit_loop m heap p_current p_largest =
     (if p_current = heap_tail m heap then Some p_largest
      else if p_current = 0 then None
      else
        let b = read_block m p_current
        in if b_free b = BLOCK_ALLOCATED then worst_fit_loop m heap (p_next b) p_largest
           else if b_size b \<ge> b_size (read_block m p_largest)
           then worst_fit_loop m heap (p_next b) p_current
           else worst_fit_loop m heap (p_next b) p_largest)"

declare worst_fit_loop.simps [code]

definition find_worst_fit :: "mem \<Rightarrow> u32 \<Rightarrow> u32 \<Rightarrow> u32 option" where
  "find_worst_fit m heap min_size =
     (let first = p_next (read_block m (heap_head m heap))
      in case worst_fit_loop m heap (p_next (read_block m first)) first of
        None \<Rightarrow> None
      | Some p_largest \<Rightarrow>
          Some (if b_free (read_block m p_largest) = BLOCK_ALLOCATED
                  \<or> b_size (read_block m p_largest) < min_size
                then 0 else p_largest))"

definition split_block :: "u32 \<Rightarrow> u32 \<Rightarrow> mem \<Rightarrow> mem" where
  "split_block p_new sz m =
     (let p_rest = p_new + sizeof_block_t + sz;
          nxt = p_next (read_block m p_new);
          temp_prev = p_prev (read_block m p_new);
          m = write_block p_rest \<lparr>p_prev = p_new,
                b_size = b_size (read_block m p_new) - sz - sizeof_block_t,
                b_free = BLOCK_FREE, p_next = nxt\<rparr> m;
          m = write_block p_new \<lparr>p_prev = temp_prev, b_size = sz,
                b_free = BLOCK_ALLOCATED, p_next = p_rest\<rparr> m
      in set_prev nxt p_rest m)"

definition malloc :: "u32 \<Rightarrow> kmem \<Rightarrow> (u32 \<times> kmem) res" where
  "malloc sz s = res_bind (getHeap s) (\<lambda>heap.
     if heap = 0 then Inl (KPanic ''src/memory/kernel_heap_malloc.c'' 26)
     else
       let sz = ALIGN_SIZE sz
       in res_bind (returned (find_worst_fit (ram s) heap sz)) (\<lambda>p_new.
         if p_new = 0 then Inr (0, s)
         else
           let m = (if b_size (read_block (ram s) p_new) \<ge> sz + sizeof_block_t
                    then split_block p_new sz (ram s)
                    else set_free p_new BLOCK_ALLOCATED (ram s))
           in Inr (p_new + sizeof_block_t, s\<lparr>ram := m\<rparr>)))"

definition calloc :: "u32 \<Rightarrow> u32 \<Rightarrow> kmem \<Rightarrow> (u32 \<times> kmem) res" where
  "calloc num sz s = res_bind (malloc (num * sz) s) (\<lambda>(ptr, s).
     if ptr = 0 then Inr (0, s)
     else Inr (ptr, s\<lparr>ram := fill_bytes ptr 0 (unat (num * sz)) (ram s)\<rparr>))"

partial_function (option) free_search :: "mem \<Rightarrow> u32 \<Rightarrow> u32 \<Rightarrow> u32 \<Rightarrow> bool option" where
  "free_search m heap p_block p =
     (if p = heap_tail m heap then Some False
      else if p = p_block then Some True
      else if p = 0 then None
      else free_search m heap p_block (p_next (read_block m p)))"

declare free_search.simps [code]

definition release_block :: "u32 \<Rightarrow> mem \<Rightarrow> mem res" where
  "release_block p_block m =
     (let m = set_free p_block BLOCK_FREE m;
          m = (if b_free (read_block m (p_next (read_block m p_block))) \<noteq> 0
               then heap_block_join p_block m else m);
          prv = p_prev (read_block m p_block)
      in if prv = 0 then Inl Stuck
         else Inr (if b_free (read_block m prv) \<noteq> 0 then heap_block_join prv m else m))"

definition heap_free :: "u32 \<Rightarrow> kmem \<Rightarrow> kmem res" where
  "heap_free ptr s =
     (if ptr = 0 then Inr s
      else res_bind (getHeap s) (\<lambda>heap.
        let p_block = ptr - sizeof_block_t
        in res_bind (returned (free_search (ram s) heap p_block (heap_head (ram s) heap))) (\<lambda>found.
          if \<not> found then Inr s
          else res_bind (release_block p_block (ram s)) (\<lambda>m. Inr (s\<lparr>ram := m\<rparr>)))))"

end
