(* ===== verification/Heap_Blocks.thy ===== *)
theory Heap_Blocks
  imports Heap
begin

text \<open>
  The block list of the kernel heap as a list of (address, size, free): what the bytes of the
  headers must say for it, how single field updates, splitting and joining act on it, and
  which bytes they leave alone.
\<close>

section \<open>Headers\<close>

definition HEAD :: u32 where "HEAD = HEAP_SPACE + sizeof_heap_t"
definition FIRST :: u32 where "FIRST = HEAD + sizeof_block_t"
definition TAIL :: u32 where "TAIL = HEAP_SPACE + HEAP_SIZE - sizeof_block_t"

definition END :: u32 where "END = HEAP_SPACE + HEAP_SIZE"

lemma heap_addresses [simp]:
  "unat HEAD = 0xE800000C" "unat FIRST = 0xE800001C" "unat TAIL = 0xEFFFFFF0" "unat END = 0xF0000000"
  by (simp_all add: HEAD_def FIRST_def TAIL_def END_def HEAP_SPACE_def HEAP_SIZE_def sizeof_heap_t_def
      sizeof_block_t_def)

text \<open>A place for a header: aligned, from the left sentinel to the right one.\<close>

definition hdr :: "u32 \<Rightarrow> bool" where
  "hdr a \<longleftrightarrow> unat a mod 4 = 0 \<and> 0xE800000C \<le> unat a \<and> unat a \<le> 0xEFFFFFF0"

definition apart :: "u32 \<Rightarrow> u32 \<Rightarrow> bool" where
  "apart a b \<longleftrightarrow> unat a + 16 \<le> unat b \<or> unat b + 16 \<le> unat a"

lemma hdr_sentinels [simp]: "hdr HEAD" "hdr FIRST" "hdr TAIL"
  by (simp_all add: hdr_def)

lemma hdr_nonzero: "hdr a \<Longrightarrow> a \<noteq> 0"
  by (auto simp: hdr_def)

lemma hdr_field:
  assumes "hdr a" "k \<in> {0, 4, 8, 12}"
  shows "aligned4 (a + k)" and "unat (a + k) = unat a + unat k"
proof -
  show u: "unat (a + k) = unat a + unat k"
    using assms by (intro u32_add_nowrap) (auto simp: hdr_def)
  show "aligned4 (a + k)" using assms unfolding aligned4_def u by (auto simp: hdr_def mod_add_eq)
qed

lemma hdr_fields_differ:
  assumes "hdr a" "j \<in> {0, 4, 8, 12}" "k \<in> {0, 4, 8, 12}" "j \<noteq> k"
  shows "a + j \<noteq> a + k"
  using assms by simp

lemma field_load_other:
  assumes "hdr a" "hdr b" "apart a b" "j \<in> {0, 4, 8, 12}" "k \<in> {0, 4, 8, 12}"
  shows "load32 (store32 m (a + j) v) (b + k) = load32 m (b + k)"
proof -
  have "unat (a + j) \<noteq> unat (b + k)"
    using assms(3-5) hdr_field(2) [OF assms(1,4)] hdr_field(2) [OF assms(2,5)]
    by (auto simp: apart_def)
  then have "a + j \<noteq> b + k" by auto
  then show ?thesis using hdr_field(1) [OF assms(1,4)] hdr_field(1) [OF assms(2,5)] by simp
qed

lemmas field_0 = field_load_other [where j = 0, simplified] field_load_other [where k = 0, simplified]
lemmas block_set_defs = set_prev_def set_size_def set_free_def set_next_def

lemma read_set_other:
  assumes "hdr a" "hdr b" "apart a b"
  shows "read_block (set_prev a v m) b = read_block m b"
    and "read_block (set_size a v m) b = read_block m b"
    and "read_block (set_free a v m) b = read_block m b"
    and "read_block (set_next a v m) b = read_block m b"
  using field_load_other [OF assms, of 0] field_load_other [OF assms, of _ 0]
    field_load_other [OF assms, of 0 0] field_load_other [OF assms]
  by (simp_all add: read_block_def block_set_defs)

lemma field_load_same:
  assumes "hdr a" "j \<in> {0, 4, 8, 12}" "k \<in> {0, 4, 8, 12}"
  shows "load32 (store32 m (a + j) v) (a + k) = (if j = k then v else load32 m (a + k))"
  using hdr_field(1) [OF assms(1,2)] hdr_field(1) [OF assms(1,3)] by simp

lemma read_set_same:
  assumes "hdr a"
  shows "read_block (set_prev a v m) a = (read_block m a)\<lparr>p_prev := v\<rparr>"
    and "read_block (set_size a v m) a = (read_block m a)\<lparr>b_size := v\<rparr>"
    and "read_block (set_free a v m) a = (read_block m a)\<lparr>b_free := v\<rparr>"
    and "read_block (set_next a v m) a = (read_block m a)\<lparr>p_next := v\<rparr>"
  using field_load_same [OF assms, of 0] field_load_same [OF assms, of _ 0]
    field_load_same [OF assms, of 0 0] field_load_same [OF assms]
  by (simp_all add: read_block_def block_set_defs)

lemma write_block_sets:
  "write_block a b m = set_next a (p_next b) (set_free a (b_free b) (set_size a (b_size b)
     (set_prev a (p_prev b) m)))"
  by (simp add: write_block_def block_set_defs)

lemma read_write_block:
  assumes "hdr a"
  shows "read_block (write_block a b m) a = b"
    and "hdr c \<Longrightarrow> apart a c \<Longrightarrow> read_block (write_block a b m) c = read_block m c"
  using assms by (simp_all add: write_block_sets read_set_same read_set_other)

lemmas read_block_simps = read_set_same read_set_other read_write_block

text \<open>Bytes outside a header.\<close>

definition in_hdr :: "u32 \<Rightarrow> u32 \<Rightarrow> bool" where
  "in_hdr a z \<longleftrightarrow> unat a \<le> unat z \<and> unat z < unat a + 16"

lemma hdr_byte_outside:
  assumes a: "hdr a" and k: "unat k \<le> 12" and j: "unat j \<le> 3" and z: "\<not> in_hdr a z"
  shows "z \<noteq> a + k + j"
proof
  assume eq: "z = a + k + j"
  have "unat (a + k) = unat a + unat k" using a k by (simp add: hdr_def u32_add_nowrap)
  moreover from this have "unat (a + k + j) = unat (a + k) + unat j"
    using a k j by (simp add: hdr_def u32_add_nowrap)
  ultimately show False using z k j eq by (simp add: in_hdr_def)
qed

lemma set_byte_other:
  assumes "hdr a" "\<not> in_hdr a z"
  shows "set_prev a v m z = m z" "set_size a v m z = m z"
    "set_free a v m z = m z" "set_next a v m z = m z"
proof -
  have "store32 m (a + k) v z = m z" if k: "k \<in> {0, 4, 8, 12}" for k
  proof (rule store32_byte_other)
    have k': "unat k \<le> 12" using k by auto
    note ne = hdr_byte_outside [OF assms(1) k' _ assms(2)]
    show "z \<notin> {a + k, a + k + 1, a + k + 2, a + k + 3}"
      using ne [of 0] ne [of 1] ne [of 2] ne [of 3] by simp
  qed
  from this [of 0] this [of 4] this [of 8] this [of 12]
  show "set_prev a v m z = m z" "set_size a v m z = m z"
    "set_free a v m z = m z" "set_next a v m z = m z"
    by (simp_all add: block_set_defs)
qed

lemma read_block_byte:
  assumes "hdr a" "\<not> in_hdr a z"
  shows "read_block (m(z := c)) a = read_block m a"
proof -
  have "load32 (m(z := c)) (a + k) = load32 m (a + k)" if k: "k \<in> {0, 4, 8, 12}" for k
  proof (rule load32_byte_other)
    have k': "unat k \<le> 12" using k by auto
    note ne = hdr_byte_outside [OF assms(1) k' _ assms(2)]
    show "z \<notin> {a + k, a + k + 1, a + k + 2, a + k + 3}"
      using ne [of 0] ne [of 1] ne [of 2] ne [of 3] by simp
  qed
  from this [of 0] this [of 4] this [of 8] this [of 12]
  show ?thesis by (simp add: read_block_def)
qed

section \<open>Block lists\<close>

type_synonym blk = "u32 \<times> u32 \<times> bool"

definition flag :: "bool \<Rightarrow> u32" where
  "flag f = (if f then BLOCK_FREE else BLOCK_ALLOCATED)"

lemma flag_simps [simp]:
  "flag True = 1" "flag False = 0" "flag f = 0 \<longleftrightarrow> \<not> f" "flag f = BLOCK_ALLOCATED \<longleftrightarrow> \<not> f"
  by (simp_all add: flag_def BLOCK_FREE_def BLOCK_ALLOCATED_def)

text \<open>
  The sizes tile the memory from the first block to \<open>END\<close>, the end of the heap: \<^verbatim>\<open>init_heap\<close>
  computes the size of the first block as if the right sentinel were part of it, and every
  later split or join hands the 16 extra bytes on to the last block. So the last block's size
  runs over the sentinel, and its next link leads back to the sentinel: \<open>link\<close>. A block fits
  when its header does not reach the sentinel, and neither does that of its successor.
\<close>

definition link :: "u32 \<Rightarrow> u32" where
  "link a = (if a = END then TAIL else a)"

definition place :: "u32 \<Rightarrow> bool" where
  "place a \<longleftrightarrow> a = END \<or> hdr a \<and> unat a + 16 \<le> unat TAIL"

definition fits :: "u32 \<Rightarrow> u32 \<Rightarrow> bool" where
  "fits a sz \<longleftrightarrow> unat sz mod 4 = 0 \<and>
     (unat a + 16 + unat sz = unat END \<and> 16 \<le> unat sz \<or> unat a + 16 + unat sz + 16 \<le> unat TAIL)"

text \<open>
  A list of blocks from address \<open>a\<close> up to the end, each linked to its neighbours; and a
  segment of such a list.
\<close>

fun blocks :: "mem \<Rightarrow> u32 \<Rightarrow> u32 \<Rightarrow> blk list \<Rightarrow> bool" where
  "blocks m prv a [] \<longleftrightarrow> a = END \<and>
     read_block m TAIL = \<lparr>p_prev = prv, b_size = 0, b_free = 0, p_next = 0\<rparr>"
| "blocks m prv a ((x, sz, f) # bs) \<longleftrightarrow> x = a \<and> fits a sz \<and>
     read_block m a = \<lparr>p_prev = prv, b_size = sz, b_free = flag f, p_next = link (a + 16 + sz)\<rparr> \<and>
     blocks m a (a + 16 + sz) bs"

fun seg :: "mem \<Rightarrow> u32 \<Rightarrow> u32 \<Rightarrow> blk list \<Rightarrow> bool" where
  "seg m prv a [] \<longleftrightarrow> True"
| "seg m prv a ((x, sz, f) # bs) \<longleftrightarrow> x = a \<and> fits a sz \<and>
     read_block m a = \<lparr>p_prev = prv, b_size = sz, b_free = flag f, p_next = link (a + 16 + sz)\<rparr> \<and>
     seg m a (a + 16 + sz) bs"

fun end_of :: "u32 \<Rightarrow> blk list \<Rightarrow> u32" where
  "end_of a [] = a"
| "end_of a ((x, sz, f) # bs) = end_of (x + 16 + sz) bs"

fun last_of :: "u32 \<Rightarrow> blk list \<Rightarrow> u32" where
  "last_of prv [] = prv"
| "last_of prv ((x, sz, f) # bs) = last_of x bs"

lemma blocks_append:
  "blocks m prv a (xs @ ys) \<longleftrightarrow> seg m prv a xs \<and> blocks m (last_of prv xs) (end_of a xs) ys"
  by (induction m prv a xs rule: seg.induct) auto

lemma place_simps [simp]: "place FIRST" "place END"
  by (simp_all add: place_def)

lemma place_link: "place a \<Longrightarrow> hdr (link a)"
  by (auto simp: place_def link_def)

lemma fits_not_END: "fits a sz \<Longrightarrow> a \<noteq> END"
  by (auto simp: fits_def)

lemma fits_hdr:
  assumes "place a" "fits a sz"
  shows "hdr a" "unat a + 16 \<le> unat TAIL" "link a = a" "apart a TAIL"
  using assms fits_not_END [OF assms(2)] by (auto simp: place_def link_def apart_def)

lemma next_place:
  assumes "place a" "fits a sz"
  shows "place (a + 16 + sz)" and "unat (a + 16 + sz) = unat a + 16 + unat sz"
    and "unat a + 16 + unat sz \<le> unat END"
proof -
  note h = fits_hdr [OF assms]
  show e: "unat a + 16 + unat sz \<le> unat END" using assms(2) by (auto simp: fits_def)
  have "unat (a + 16) = unat a + 16" using h(2) by (simp add: u32_add_nowrap)
  then show u: "unat (a + 16 + sz) = unat a + 16 + unat sz"
    using e by (simp add: u32_add_nowrap)
  show "place (a + 16 + sz)"
  proof (cases "unat a + 16 + unat sz = unat END")
    case True
    then have "a + 16 + sz = END" by (intro u32_eqI) (simp add: u)
    then show ?thesis by simp
  next
    case False
    then have b: "unat a + 16 + unat sz + 16 \<le> unat TAIL" "unat sz mod 4 = 0"
      using assms(2) by (auto simp: fits_def)
    have "(unat a + 16 + unat sz) mod 4 = 0" using h(1) b(2) by (simp add: hdr_def mod_eq_0_iff_dvd)
    then show ?thesis using b(1) h(1) by (simp add: place_def hdr_def u)
  qed
qed

text \<open>The distance between the header of a block and the one its link leads to.\<close>

lemma link_far:
  assumes "place a" "fits a sz"
  shows "unat a + 16 \<le> unat (link (a + 16 + sz))" "apart a (link (a + 16 + sz))" "apart (link (a + 16 + sz)) a"
  using fits_hdr [OF assms] next_place [OF assms] by (auto simp: link_def apart_def)

text \<open>Where the blocks of a list lie.\<close>

lemma seg_bounds:
  "seg m prv a xs \<Longrightarrow> place a \<Longrightarrow> place (end_of a xs) \<and> unat a \<le> unat (end_of a xs) \<and>
    (\<forall>(x, sz, f) \<in> set xs. hdr x \<and> unat x + 16 \<le> unat TAIL \<and> unat a \<le> unat x \<and>
      unat x + 16 + unat sz \<le> unat (end_of a xs))"
proof (induction m prv a xs rule: seg.induct)
  case (2 m prv a x sz f bs)
  then have s: "seg m a (a + 16 + sz) bs" "fits a sz" "x = a" by simp_all
  note n = next_place [OF 2(3) s(2)]
  have "place (end_of (a + 16 + sz) bs) \<and> unat (a + 16 + sz) \<le> unat (end_of (a + 16 + sz) bs) \<and>
    (\<forall>(y, t, g) \<in> set bs. hdr y \<and> unat y + 16 \<le> unat TAIL \<and> unat (a + 16 + sz) \<le> unat y \<and>
      unat y + 16 + unat t \<le> unat (end_of (a + 16 + sz) bs))"
    by (rule 2(1) [OF s(1) n(1)])
  with fits_hdr [OF 2(3) s(2)] n(2) s(3) show ?case by fastforce
qed simp

lemma blocks_seg:
  "blocks m prv a bs \<longleftrightarrow> seg m prv a bs \<and> end_of a bs = END \<and>
     read_block m TAIL = \<lparr>p_prev = last_of prv bs, b_size = 0, b_free = 0, p_next = 0\<rparr>"
  using blocks_append [of m prv a bs "[]"] by simp

lemma blocks_bounds:
  assumes "blocks m prv a bs" "place a" "(x, sz, f) \<in> set bs"
  shows "hdr x" and "unat a \<le> unat x" and "unat x + 16 + unat sz \<le> unat END"
    and "unat x + 16 \<le> unat TAIL"
  using seg_bounds [of m prv a bs] assms by (auto simp: blocks_seg)

lemma blocks_split:
  assumes "blocks m prv a (xs @ (p, sz, f) # ys)" "place a"
  shows "seg m prv a xs" and "p = end_of a xs" and "place p" and "fits p sz"
    and "read_block m p = \<lparr>p_prev = last_of prv xs, b_size = sz, b_free = flag f, p_next = link (p + 16 + sz)\<rparr>"
    and "blocks m p (p + 16 + sz) ys"
proof -
  have s: "seg m prv a xs" "blocks m (last_of prv xs) (end_of a xs) ((p, sz, f) # ys)"
    using assms(1) by (simp_all only: blocks_append)
  show "seg m prv a xs" by (rule s(1))
  show p: "p = end_of a xs" using s(2) by simp
  show "place p" using seg_bounds [OF s(1) assms(2)] p by simp
  show "fits p sz"
    and "read_block m p = \<lparr>p_prev = last_of prv xs, b_size = sz, b_free = flag f, p_next = link (p + 16 + sz)\<rparr>"
    and "blocks m p (p + 16 + sz) ys"
    using s(2) p by simp_all
qed

lemma seg_cong:
  "(\<And>x sz f. (x, sz, f) \<in> set xs \<Longrightarrow> read_block m' x = read_block m x) \<Longrightarrow> seg m' prv a xs = seg m prv a xs"
proof (induction m prv a xs rule: seg.induct)
  case (2 m prv a x sz f bs)
  have "read_block m' x = read_block m x" by (rule 2(2) [of x sz f]) simp
  moreover have "seg m' a (a + 16 + sz) bs = seg m a (a + 16 + sz) bs"
    by (rule 2(1)) (rule 2(2), erule list.set_intros(2))
  ultimately show ?case by auto
qed simp

lemma blocks_cong:
  assumes "\<And>x sz f. (x, sz, f) \<in> set bs \<Longrightarrow> read_block m' x = read_block m x"
    and "read_block m' TAIL = read_block m TAIL"
  shows "blocks m' prv a bs = blocks m prv a bs"
proof -
  have "seg m' prv a bs = seg m prv a bs" by (rule seg_cong) (rule assms(1))
  then show ?thesis using assms(2) by (simp add: blocks_seg)
qed

text \<open>The left link of the first block, or of the right sentinel when there is none.\<close>

lemma blocks_set_prev:
  assumes "blocks m q a bs" "place a"
  shows "blocks (set_prev (link a) q' m) q' a bs"
proof (cases bs)
  case Nil
  then show ?thesis using assms by (auto simp: read_set_same link_def)
next
  case (Cons b cs)
  obtain x sz f where b: "b = (x, sz, f)" by (cases b)
  have a: "x = a" "fits a sz"
    "read_block m a = \<lparr>p_prev = q, b_size = sz, b_free = flag f, p_next = link (a + 16 + sz)\<rparr>"
    "blocks m a (a + 16 + sz) cs"
    using assms by (simp_all add: Cons b)
  note n = next_place [OF assms(2) a(2)] and h = fits_hdr [OF assms(2) a(2)]
  have "blocks (set_prev a q' m) a (a + 16 + sz) cs = blocks m a (a + 16 + sz) cs"
  proof (rule blocks_cong)
    fix y t g assume "(y, t, g) \<in> set cs"
    note y = blocks_bounds [OF a(4) n(1) this]
    have "hdr y" "apart a y" using y(1,2) n(2) by (simp_all add: apart_def)
    then show "read_block (set_prev a q' m) y = read_block m y" using h(1) by (simp add: read_set_other)
  next
    show "read_block (set_prev a q' m) TAIL = read_block m TAIL"
      using h by (simp add: read_set_other)
  qed
  with a h show ?thesis by (simp add: Cons b read_set_same)
qed

text \<open>Replacing the tail of a list of blocks.\<close>

lemma blocks_replace:
  assumes "seg m prv a xs" "\<And>x sz f. (x, sz, f) \<in> set xs \<Longrightarrow> read_block m' x = read_block m x"
    and "blocks m' (last_of prv xs) (end_of a xs) zs"
  shows "blocks m' prv a (xs @ zs)"
  using assms(1,3) seg_cong [of xs m' m prv a, OF assms(2)] by (simp add: blocks_append)

end
