(* ===== verification/Heap_Alloc.thy ===== *)
theory Heap_Alloc
  imports Heap_Blocks
begin

text \<open>
  What \<^verbatim>\<open>malloc\<close>, \<^verbatim>\<open>calloc\<close> and \<^verbatim>\<open>free\<close> do to the list of blocks: the worst-fit search,
  splitting, joining, and the invariant of the heap. The abstract effect of \<^verbatim>\<open>malloc\<close> is
  \<open>carve\<close> at a largest free block, that of \<^verbatim>\<open>free\<close> is to mark the block and to \<open>coalesce\<close>
  neighbouring free blocks. Invariant: no two neighbours are free.
\<close>

section \<open>Abstract blocks\<close>

abbreviation blk_addr :: "blk \<Rightarrow> u32" where "blk_addr b \<equiv> fst b"
abbreviation blk_size :: "blk \<Rightarrow> u32" where "blk_size b \<equiv> fst (snd b)"
abbreviation blk_free :: "blk \<Rightarrow> bool" where "blk_free b \<equiv> snd (snd b)"

definition coalesced :: "blk list \<Rightarrow> bool" where
  "coalesced bs \<longleftrightarrow> successively (\<lambda>b c. \<not> (blk_free b \<and> blk_free c)) bs"

lemma coalesced_simps [simp]:
  "coalesced []" "coalesced [b]"
  "coalesced (b # c # bs) \<longleftrightarrow> \<not> (blk_free b \<and> blk_free c) \<and> coalesced (c # bs)"
  by (simp_all add: coalesced_def)

lemma coalesced_append:
  "coalesced (xs @ ys) \<longleftrightarrow> coalesced xs \<and> coalesced ys \<and>
     (xs = [] \<or> ys = [] \<or> \<not> (blk_free (last xs) \<and> blk_free (hd ys)))"
  by (auto simp: coalesced_def successively_append_iff)

fun coalesce :: "blk list \<Rightarrow> blk list" where
  "coalesce ((x, s, True) # (y, t, True) # bs) = coalesce ((x, s + 16 + t, True) # bs)"
| "coalesce (b # bs) = b # coalesce bs"
| "coalesce [] = []"

lemma coalesce_id: "coalesced bs \<Longrightarrow> coalesce bs = bs"
  by (induction bs rule: coalesce.induct) (auto simp: coalesced_def successively_Cons)

lemma coalesce_alloc_first: "coalesce ((x, s, False) # bs) = (x, s, False) # coalesce bs"
  by simp

lemma coalesce_append:
  "coalesced xs \<Longrightarrow> xs = [] \<or> \<not> blk_free (last xs) \<Longrightarrow> coalesce (xs @ zs) = xs @ coalesce zs"
proof (induction xs)
  case (Cons b xs)
  obtain x s f where b: "b = (x, s, f)" by (cases b)
  show ?case
  proof (cases "f \<and> xs \<noteq> []")
    case True
    then obtain y t xs' where xs: "xs = (y, t, False) # xs'"
      using Cons.prems(1) b by (cases xs) auto
    then have "coalesce (xs @ zs) = xs @ coalesce zs" using Cons by simp
    then show ?thesis using True by (simp add: b xs)
  next
    case False
    then have "\<not> f" using Cons.prems(2) b by auto
    moreover have "coalesced xs" using Cons.prems(1) by (cases xs) auto
    ultimately show ?thesis using Cons by (cases xs) (auto simp: b)
  qed
qed simp

lemma coalesce_free_first:
  assumes "coalesced ys"
  shows "coalesce ((p, s, True) # ys) =
    (case ys of (y, t, True) # ys' \<Rightarrow> (p, s + 16 + t, True) # ys' | _ \<Rightarrow> (p, s, True) # ys)"
proof (cases ys)
  case (Cons b ys')
  obtain y t g where b: "b = (y, t, g)" by (cases b)
  have c: "coalesced ys'" using assms by (cases ys') (auto simp: Cons)
  show ?thesis
  proof (cases g)
    case True
    have "coalesced ((p, s + 16 + t, True) # ys')"
      using assms True by (cases ys') (auto simp: Cons b)
    then show ?thesis using True by (simp add: Cons b coalesce_id)
  next
    case False
    then show ?thesis using c by (simp add: Cons b coalesce_id)
  qed
qed simp

text \<open>Splitting a free block.\<close>

definition carve :: "u32 \<Rightarrow> u32 \<Rightarrow> u32 \<Rightarrow> blk list" where
  "carve p req sz = (if req + 16 \<le> sz then [(p, req, False), (p + 16 + req, sz - req - 16, True)]
     else [(p, sz, False)])"

lemma coalesced_carve:
  assumes "coalesced (xs @ (p, sz, True) # ys)"
  shows "coalesced (xs @ carve p req sz @ ys)"
  using assms by (cases ys) (auto simp: coalesced_append carve_def)

text \<open>Freeing what was carved restores the list.\<close>

lemma coalesce_carve:
  assumes "coalesced (xs @ (p, sz, True) # ys)"
  shows "coalesce (xs @ (map (\<lambda>(x, s, f). (x, s, f \<or> x = p)) (carve p req sz)) @ ys)
    = xs @ (p, sz, True) # ys"
proof -
  have xs: "coalesced xs" "xs = [] \<or> \<not> blk_free (last xs)" and ys: "coalesced ((p, sz, True) # ys)"
    using assms by (auto simp: coalesced_append)
  have "req + 16 + (sz - req - 16) = sz" by simp
  then show ?thesis
    using coalesce_id [OF ys] by (simp add: carve_def coalesce_append [OF xs])
qed

section \<open>The worst fit\<close>

fun worst_pick :: "blk \<Rightarrow> blk list \<Rightarrow> blk" where
  "worst_pick l [] = l"
| "worst_pick l (b # bs) = worst_pick (if blk_free b \<and> blk_size l \<le> blk_size b then b else l) bs"

lemma worst_pick_spec:
  "worst_pick l bs \<in> insert l {b \<in> set bs. blk_free b} \<and> blk_size l \<le> blk_size (worst_pick l bs) \<and>
   (\<forall>b \<in> set bs. blk_free b \<longrightarrow> blk_size b \<le> blk_size (worst_pick l bs))"
proof (induction bs arbitrary: l)
  case (Cons c bs)
  define l' where "l' = (if blk_free c \<and> blk_size l \<le> blk_size c then c else l)"
  have "blk_size l \<le> blk_size l'" "blk_free c \<Longrightarrow> blk_size c \<le> blk_size l'"
    by (auto simp: l'_def)
  moreover have "l' = l \<or> l' = c \<and> blk_free c" by (auto simp: l'_def)
  moreover have "worst_pick l (c # bs) = worst_pick l' bs" by (simp add: l'_def)
  ultimately show ?case using Cons.IH [of l'] by (auto intro: order_trans)
qed simp

lemma worst_pick_alloc:
  assumes "\<forall>b \<in> set bs. blk_free b \<longrightarrow> blk_size b < blk_size l"
  shows "worst_pick l bs = l"
  using assms by (induction bs arbitrary: l) auto

text \<open>The first block is returned although it is allocated only when every free one is smaller.\<close>

lemma worst_pick_not_free:
  assumes "\<not> blk_free (worst_pick l bs)"
  shows "\<not> blk_free l \<and> (\<forall>b \<in> set bs. blk_free b \<longrightarrow> blk_size b < blk_size l)"
  using assms
proof (induction bs arbitrary: l)
  case (Cons c bs)
  show ?case
  proof (cases "blk_free c \<and> blk_size l \<le> blk_size c")
    case True
    then show ?thesis using Cons.IH [of c] Cons.prems by simp
  next
    case False
    then have "worst_pick l (c # bs) = worst_pick l bs" by (simp only: worst_pick.simps if_False)
    then have "\<not> blk_free l \<and> (\<forall>b \<in> set bs. blk_free b \<longrightarrow> blk_size b < blk_size l)"
      using Cons.IH [of l] Cons.prems by metis
    then show ?thesis using False by (simp add: not_le)
  qed
qed simp

lemma blocks_read:
  "blocks m prv a bs \<Longrightarrow> (x, sz, f) \<in> set bs \<Longrightarrow>
    b_size (read_block m x) = sz \<and> b_free (read_block m x) = flag f"
  by (induction m prv a bs rule: blocks.induct) auto

lemma worst_fit_loop_blocks:
  assumes "blocks m prv a bs" "place a" "heap_tail m heap = TAIL" "b_size (read_block m (blk_addr l)) = blk_size l"
  shows "worst_fit_loop m heap (link a) (blk_addr l) = Some (blk_addr (worst_pick l bs))"
  using assms
proof (induction m prv a bs arbitrary: l rule: blocks.induct)
  case (1 m prv a)
  then show ?case by (subst worst_fit_loop.simps) (simp add: link_def)
next
  case (2 m prv a x sz f bs)
  from 2(2) have b: "x = a" "read_block m a = \<lparr>p_prev = prv, b_size = sz, b_free = flag f, p_next = link (a + 16 + sz)\<rparr>"
    "blocks m a (a + 16 + sz) bs" and z: "fits a sz"
    by simp_all
  note h = fits_hdr [OF 2(3) z]
  have ne: "a \<noteq> TAIL" "a \<noteq> 0" using h(2) hdr_nonzero [OF h(1)] by auto
  note IH = 2(1) [OF b(3) next_place(1) [OF 2(3) z] 2(4)]
  show ?case
    using IH [OF 2(5)] IH [of "(a, sz, f)"] ne 2(4,5) b(1,2) h(3)
    by (subst worst_fit_loop.simps) (simp add: Let_def)
qed

section \<open>Splitting and joining in memory\<close>

text \<open>Memory \<open>m'\<close> differs from \<open>m\<close> only in the headers at the addresses of \<open>A\<close>.\<close>

definition only_headers :: "u32 set \<Rightarrow> mem \<Rightarrow> mem \<Rightarrow> bool" where
  "only_headers A m m' \<longleftrightarrow> (\<forall>z. (\<forall>a \<in> A. \<not> in_hdr a z) \<longrightarrow> m' z = m z)"

lemma only_headers_refl [simp]: "only_headers A m m"
  by (simp add: only_headers_def)

lemma only_headers_trans:
  "only_headers A m m' \<Longrightarrow> only_headers B m' m'' \<Longrightarrow> A \<subseteq> C \<Longrightarrow> B \<subseteq> C \<Longrightarrow> only_headers C m m''"
  unfolding only_headers_def by (metis subsetD)

lemma only_headers_set [simp]:
  assumes "hdr a" "a \<in> A"
  shows "only_headers A m (set_prev a v m)" "only_headers A m (set_size a v m)"
    "only_headers A m (set_free a v m)" "only_headers A m (set_next a v m)"
  using set_byte_other [OF assms(1)] assms(2) by (auto simp: only_headers_def)

lemma only_headers_step:
  assumes "only_headers A m m'" "hdr a" "a \<in> A"
  shows "only_headers A m (set_prev a v m')" "only_headers A m (set_size a v m')"
    "only_headers A m (set_free a v m')" "only_headers A m (set_next a v m')"
    "only_headers A m (write_block a b m')"
  using assms set_byte_other [OF assms(2)] by (auto simp: only_headers_def write_block_sets)

lemma read_block_only:
  assumes "only_headers A m m'" "hdr b" "\<And>a. a \<in> A \<Longrightarrow> apart a b"
  shows "read_block m' b = read_block m b"
proof -
  have "load32 m' (b + k) = load32 m (b + k)" if k: "k \<in> {0, 4, 8, 12}" for k
  proof (rule load32_cong)
    fix z assume "z \<in> {b + k, b + k + 1, b + k + 2, b + k + 3}"
    then obtain j where j: "j \<in> {0, 1, 2, 3 :: u32}" "z = b + k + j" by auto
    have kj: "unat k \<le> 12" "unat j \<le> 3" using k j(1) by auto
    have "in_hdr b z" using hdr_byte_outside [OF assms(2) kj] j(2) by blast
    then have "\<not> in_hdr a z" if "a \<in> A" for a
      using assms(3) [OF that] by (auto simp: in_hdr_def apart_def)
    then show "m' z = m z" using assms(1) by (simp add: only_headers_def)
  qed
  from this [of 0] this [of 4] this [of 8] this [of 12]
  show ?thesis by (simp add: read_block_def)
qed

lemma heap_fields_only:
  assumes "only_headers A m m'" "\<And>a. a \<in> A \<Longrightarrow> hdr a"
  shows "heap_head m' HEAP_SPACE = heap_head m HEAP_SPACE"
    and "heap_tail m' HEAP_SPACE = heap_tail m HEAP_SPACE"
proof -
  have eq: "m' z = m z" if z: "unat z < 0xE800000C" for z
  proof -
    have "\<not> in_hdr a z" if "a \<in> A" for a
      using assms(2) [OF that] z by (simp add: in_hdr_def hdr_def)
    then show ?thesis using assms(1) by (simp add: only_headers_def)
  qed
  show "heap_head m' HEAP_SPACE = heap_head m HEAP_SPACE"
    and "heap_tail m' HEAP_SPACE = heap_tail m HEAP_SPACE"
    unfolding heap_head_def heap_tail_def by (rule load32_cong; auto simp: HEAP_SPACE_def eq)+
qed

lemma split_block_blocks:
  assumes bl: "blocks m prv a (xs @ (p, sz, f) # ys)" and a: "place a"
    and req: "unat req mod 4 = 0" "unat req + 16 \<le> unat sz" "ys = [] \<Longrightarrow> unat req + 32 \<le> unat sz"
  shows "blocks (split_block p req m) prv a (xs @ (p, req, False) # (p + 16 + req, sz - req - 16, True) # ys)"
    and "only_headers {p, p + 16 + req, link (p + 16 + sz)} m (split_block p req m)"
    and "hdr (p + 16 + req)" and "unat (p + 16 + req) = unat p + 16 + unat req"
proof -
  note S = blocks_split [OF bl a]
  note hp = fits_hdr [OF S(3,4)] and np = next_place [OF S(3,4)] and lf = link_far [OF S(3,4)]
  define r n where "r = p + 16 + req" and "n = link (p + 16 + sz)"
  have ends: "p + 16 + sz = END \<Longrightarrow> ys = []" using S(6) fits_not_END [of END] by (cases ys) auto
  have u16: "unat (p + 16) = unat p + 16" using hp(2) by (simp add: u32_add_nowrap)
  have ur: "unat r = unat p + 16 + unat req"
    unfolding r_def using u16 np(3) req(2) by (simp add: u32_add_nowrap)
  have urest: "unat (sz - req - 16) = unat sz - unat req - 16"
    using req(2) by (simp add: u32_sub_nowrap)
  have end_cases: "p + 16 + sz = END \<and> ys = [] \<and> unat p + 16 + unat sz = unat END
    \<or> unat p + 16 + unat sz + 16 \<le> unat TAIL"
    using np(1,2) ends by (auto simp: place_def)
  have rest: "unat sz mod 4 = 0" using S(4) by (simp add: fits_def)
  have fr: "fits r (sz - req - 16)"
  proof -
    have "unat (sz - req - 16) mod 4 = 0" unfolding urest using req(1,2) rest by presburger
    then show ?thesis using end_cases req(2,3) unfolding fits_def ur urest by auto
  qed
  have fp: "fits p req" using end_cases req unfolding fits_def by auto
  have pr: "place r" using next_place(1) [OF S(3) fp] by (simp add: r_def)
  note hr = fits_hdr [OF pr fr]
  have rn: "r + 16 + (sz - req - 16) = p + 16 + sz" by (simp add: r_def)
  have lr: "unat r + 16 \<le> unat n" using link_far(1) [OF pr fr] unfolding rn n_def .
  have hn: "hdr n" unfolding n_def by (rule place_link [OF np(1)])
  show "hdr (p + 16 + req)" and "unat (p + 16 + req) = unat p + 16 + unat req"
    using hr(1) ur by (simp_all add: r_def)
  define B1 where "B1 = \<lparr>p_prev = p, b_size = sz - req - 16, b_free = 1, p_next = n\<rparr>"
  define B2 where "B2 = \<lparr>p_prev = last_of prv xs, b_size = req, b_free = 0, p_next = r\<rparr>"
  define m2 where "m2 = write_block p B2 (write_block r B1 m)"
  have m': "split_block p req m = set_prev n r m2"
    unfolding split_block_def Let_def S(5) m2_def B1_def B2_def
    by (simp add: n_def r_def sizeof_block_t_def BLOCK_FREE_def BLOCK_ALLOCATED_def)
  have ap: "apart p r" "apart p n" "apart r n" "apart r p" "apart n p" "apart n r"
    using ur lr by (auto simp: apart_def)
  have o2: "only_headers {p, r} m m2"
    unfolding m2_def by (intro only_headers_step(5) only_headers_refl) (simp_all add: hp(1) hr(1))
  show o3: "only_headers {p, p + 16 + req, link (p + 16 + sz)} m (split_block p req m)"
    unfolding m' r_def [symmetric] n_def [symmetric]
    by (rule only_headers_trans [OF o2, where B = "{n}"]) (auto simp: hn)
  have "blocks m2 p (p + 16 + sz) ys"
  proof -
    have "blocks m2 p (p + 16 + sz) ys = blocks m p (p + 16 + sz) ys"
    proof (rule blocks_cong)
      fix y t g assume "(y, t, g) \<in> set ys"
      note y = blocks_bounds [OF S(6) np(1) this]
      show "read_block m2 y = read_block m y"
        using y(1,2) np(2) ur req(2) by (intro read_block_only [OF o2]) (auto simp: apart_def)
    next
      show "read_block m2 TAIL = read_block m TAIL"
        using hp(4) hr(4) by (intro read_block_only [OF o2]) auto
    qed
    then show ?thesis using S(6) by simp
  qed
  then have ys: "blocks (set_prev n r m2) r (p + 16 + sz) ys"
    unfolding n_def by (rule blocks_set_prev) (rule np(1))
  have rd: "read_block (set_prev n r m2) p = B2" "read_block (set_prev n r m2) r = B1"
    using hp(1) hr(1) hn ap by (simp_all add: m2_def read_block_simps)
  show "blocks (split_block p req m) prv a (xs @ (p, req, False) # (p + 16 + req, sz - req - 16, True) # ys)"
    unfolding r_def [symmetric]
  proof (rule blocks_replace [OF S(1)])
    fix x t g assume x: "(x, t, g) \<in> set xs"
    have xb: "hdr x" "unat x + 16 \<le> unat p"
      using seg_bounds [OF S(1) a] x S(2) by auto
    show "read_block (split_block p req m) x = read_block m x"
      using xb ur lr by (intro read_block_only [OF o3]) (auto simp: apart_def r_def [symmetric] n_def [symmetric])
  next
    show "blocks (split_block p req m) (last_of prv xs) (end_of a xs)
        ((p, req, False) # (r, sz - req - 16, True) # ys)"
      unfolding S(2) [symmetric] m'
      using ys rd fp fr hr(3)
      by (simp only: blocks.simps rn B1_def B2_def r_def [symmetric] n_def [symmetric]) simp
  qed
qed

lemma set_free_blocks:
  assumes bl: "blocks m prv a (xs @ (p, sz, f) # ys)" and a: "place a"
  shows "blocks (set_free p (flag g) m) prv a (xs @ (p, sz, g) # ys)"
    and "only_headers {p} m (set_free p (flag g) m)"
proof -
  note S = blocks_split [OF bl a]
  note hp = fits_hdr [OF S(3,4)] and np = next_place [OF S(3,4)]
  let ?m = "set_free p (flag g) m"
  show o: "only_headers {p} m ?m" using hp(1) by simp
  show "blocks ?m prv a (xs @ (p, sz, g) # ys)"
  proof (rule blocks_replace [OF S(1)])
    fix x t h assume x: "(x, t, h) \<in> set xs"
    show "read_block ?m x = read_block m x"
      using seg_bounds [OF S(1) a] x S(2) by (intro read_block_only [OF o]) (auto simp: apart_def)
  next
    have "blocks ?m p (p + 16 + sz) ys = blocks m p (p + 16 + sz) ys"
    proof (rule blocks_cong)
      fix y t h assume "(y, t, h) \<in> set ys"
      note y = blocks_bounds [OF S(6) np(1) this]
      show "read_block ?m y = read_block m y"
        using y(1,2) np(2) by (intro read_block_only [OF o]) (auto simp: apart_def)
    next
      show "read_block ?m TAIL = read_block m TAIL"
        using hp(4) by (intro read_block_only [OF o]) auto
    qed
    then show "blocks ?m (last_of prv xs) (end_of a xs) ((p, sz, g) # ys)"
      unfolding S(2) [symmetric] using S hp(1) by (simp add: read_set_same)
  qed
qed

lemma join_blocks:
  assumes bl: "blocks m prv a (xs @ (p, sz, f) # (q, t, g) # ys)" and a: "place a"
  shows "blocks (heap_block_join p m) prv a (xs @ (p, sz + 16 + t, True) # ys)"
    and "only_headers {p, link (q + 16 + t)} m (heap_block_join p m)"
proof -
  note S = blocks_split [OF bl a]
  have bl2: "blocks m prv a ((xs @ [(p, sz, f)]) @ (q, t, g) # ys)" using bl by simp
  note T = blocks_split [OF bl2 a]
  note hp = fits_hdr [OF S(3,4)] and np = next_place [OF S(3,4)]
  note hq = fits_hdr [OF T(3,4)] and nq = next_place [OF T(3,4)]
  have q: "q = p + 16 + sz" using S(6) by simp
  have uq: "unat q = unat p + 16 + unat sz" using np(2) by (simp add: q)
  define n where "n = link (q + 16 + t)"
  have hn: "hdr n" unfolding n_def by (rule place_link [OF nq(1)])
  have qn: "unat q + 16 \<le> unat n" unfolding n_def by (rule link_far(1) [OF T(3,4)])
  have ap: "apart p q" "apart q p" "apart p n" "apart n p"
    using uq qn by (auto simp: apart_def)
  have lq: "link (p + 16 + sz) = q" using hq(3) by (simp add: q)
  define m2 where "m2 = set_next p n (set_size p (sz + 16 + t) (set_free p 1 m))"
  have m': "heap_block_join p m = set_prev n p m2"
    unfolding heap_block_join_def Let_def m2_def
    using hp(1) S(5) hq(1) T(5) ap lq
    by (simp add: read_set_same read_set_other BLOCK_FREE_def sizeof_block_t_def n_def)
  have o2: "only_headers {p} m m2"
    unfolding m2_def by (intro only_headers_step only_headers_refl) (simp_all add: hp(1))
  show o3: "only_headers {p, link (q + 16 + t)} m (heap_block_join p m)"
    unfolding m' n_def [symmetric]
    by (rule only_headers_trans [OF o2, where B = "{n}"]) (auto simp: hn)
  have "blocks m2 q (q + 16 + t) ys"
  proof -
    have "blocks m2 q (q + 16 + t) ys = blocks m q (q + 16 + t) ys"
    proof (rule blocks_cong)
      fix y u h assume "(y, u, h) \<in> set ys"
      note y = blocks_bounds [OF T(6) nq(1) this]
      show "read_block m2 y = read_block m y"
        using y(1,2) nq(2) uq by (intro read_block_only [OF o2]) (auto simp: apart_def)
    next
      show "read_block m2 TAIL = read_block m TAIL"
        using hp(4) by (intro read_block_only [OF o2]) auto
    qed
    then show ?thesis using T(6) by simp
  qed
  then have ys: "blocks (set_prev n p m2) p (q + 16 + t) ys"
    unfolding n_def by (rule blocks_set_prev) (rule nq(1))
  have rd: "read_block (set_prev n p m2) p
      = \<lparr>p_prev = last_of prv xs, b_size = sz + 16 + t, b_free = 1, p_next = n\<rparr>"
    using hp(1) S(5) hn ap by (simp add: m2_def read_block_simps)
  have room: "unat p + 16 + (unat sz + 16 + unat t) \<le> unat END" using nq(3) uq by simp
  then have u16: "unat (sz + 16) = unat sz + 16" by (simp add: u32_add_nowrap)
  then have usz: "unat (sz + 16 + t) = unat sz + 16 + unat t"
    using room by (simp add: u32_add_nowrap)
  have pn: "p + 16 + (sz + 16 + t) = q + 16 + t" by (simp add: q)
  have "fits p (sz + 16 + t)"
  proof -
    have "unat sz mod 4 = 0" "unat t mod 4 = 0" using S(4) T(4) by (simp_all add: fits_def)
    then have "unat (sz + 16 + t) mod 4 = 0" unfolding usz by presburger
    moreover have "unat p + 16 + (unat sz + 16 + unat t) = unat q + 16 + unat t" using uq by simp
    ultimately show ?thesis using T(4) unfolding fits_def usz by linarith
  qed
  then have new: "blocks (heap_block_join p m) (last_of prv xs) p ((p, sz + 16 + t, True) # ys)"
    unfolding m' using ys rd by (simp add: pn n_def)
  show "blocks (heap_block_join p m) prv a (xs @ (p, sz + 16 + t, True) # ys)"
  proof (rule blocks_replace [OF S(1)])
    fix x u h assume x: "(x, u, h) \<in> set xs"
    show "read_block (heap_block_join p m) x = read_block m x"
      using seg_bounds [OF S(1) a] x S(2) uq qn
      by (intro read_block_only [OF o3]) (auto simp: apart_def n_def [symmetric])
  next
    show "blocks (heap_block_join p m) (last_of prv xs) (end_of a xs) ((p, sz + 16 + t, True) # ys)"
      unfolding S(2) [symmetric] by (rule new)
  qed
qed

end
