(* ===== verification/Heap_Spec.thy ===== *)
theory Heap_Spec
  imports Heap_Alloc
begin

text \<open>
  The contract of the kernel heap: its invariant, what \<^verbatim>\<open>malloc\<close>, \<^verbatim>\<open>calloc\<close> and \<^verbatim>\<open>free\<close>
  return and do to the list of blocks, and the locale \<open>allocator\<close>, the interface through which
  the rest of the kernel sees the heap.
\<close>

section \<open>The invariant\<close>

definition heap_inv :: "blk list \<Rightarrow> kmem \<Rightarrow> bool" where
  "heap_inv bs s \<longleftrightarrow> heap_ptr s = HEAP_SPACE \<and> heap_head (ram s) HEAP_SPACE = HEAD \<and>
     heap_tail (ram s) HEAP_SPACE = TAIL \<and>
     read_block (ram s) HEAD = \<lparr>p_prev = 0, b_size = 0, b_free = 0, p_next = FIRST\<rparr> \<and>
     blocks (ram s) HEAD FIRST bs \<and> bs \<noteq> [] \<and> coalesced bs \<and>
     blk_free (last bs)"

lemma heap_inv_parts:
  assumes "heap_inv bs s"
  shows "getHeap s = Inr HEAP_SPACE" "HEAP_SPACE \<noteq> 0" "heap_head (ram s) HEAP_SPACE = HEAD"
    "heap_tail (ram s) HEAP_SPACE = TAIL" "p_next (read_block (ram s) HEAD) = FIRST"
    "b_free (read_block (ram s) HEAD) = 0" "p_prev (read_block (ram s) HEAD) = 0"
    "blocks (ram s) HEAD FIRST bs" "coalesced bs" "bs \<noteq> []" "blk_free (last bs)"
  using assms by (simp_all add: heap_inv_def getHeap_def HEAP_SPACE_def)

lemma heap_inv_only:
  assumes "heap_inv bs s" "only_headers A (ram s) m'"
    and "\<And>a. a \<in> A \<Longrightarrow> hdr a \<and> unat FIRST \<le> unat a"
    and "blocks m' HEAD FIRST bs'" "bs' \<noteq> []" "coalesced bs'" "blk_free (last bs')"
  shows "heap_inv bs' (s\<lparr>ram := m'\<rparr>)"
proof -
  have "read_block m' HEAD = read_block (ram s) HEAD"
    using assms(3) by (intro read_block_only [OF assms(2)]) (fastforce simp: apart_def)+
  then show ?thesis
    using assms heap_fields_only [OF assms(2)] by (simp add: heap_inv_def)
qed

lemma blocks_unique:
  "blocks m prv a bs \<Longrightarrow> blocks m prv a bs' \<Longrightarrow> bs = bs'"
proof (induction m prv a bs arbitrary: bs' rule: blocks.induct)
  case (1 m prv a)
  then show ?case using fits_not_END [of END] by (cases bs') auto
next
  case (2 m prv a x sz f bs)
  from 2(2) have ne: "a \<noteq> END" using fits_not_END by auto
  with 2(3) obtain y t g cs where bs': "bs' = (y, t, g) # cs" by (cases bs') auto
  with 2(2,3) have eq: "y = x" "t = sz" "flag g = flag f" by auto
  then have "g = f" by (metis flag_simps(3))
  then show ?case using 2 bs' eq by simp
qed

lemma heap_inv_unique: "heap_inv bs s \<Longrightarrow> heap_inv bs' s \<Longrightarrow> bs = bs'"
  using blocks_unique by (auto simp: heap_inv_def)

text \<open>The blocks lie one after the other.\<close>

definition before :: "blk \<Rightarrow> blk \<Rightarrow> bool" where
  "before b c \<longleftrightarrow> unat (blk_addr b) + 16 + unat (blk_size b) \<le> unat (blk_addr c)"

lemma blocks_sorted: "blocks m prv a bs \<Longrightarrow> place a \<Longrightarrow> sorted_wrt before bs"
proof (induction m prv a bs rule: blocks.induct)
  case (2 m prv a x sz f bs)
  from 2(2) have bl: "blocks m a (a + 16 + sz) bs" "x = a"
    and z: "fits a sz" by simp_all
  note n = next_place [OF 2(3) z]
  have "before (x, sz, f) c" if "c \<in> set bs" for c
    using blocks_bounds(2) [OF bl(1) n(1), of "fst c" "fst (snd c)" "snd (snd c)"] that n(2) bl(2)
    by (simp add: before_def)
  then show ?case using 2(1) [OF bl(1) n(1)] by simp
qed simp

definition in_payload :: "blk \<Rightarrow> u32 \<Rightarrow> bool" where
  "in_payload b z \<longleftrightarrow> unat (blk_addr b) + 16 \<le> unat z \<and> unat z < unat (blk_addr b) + 16 + unat (blk_size b)
     \<and> unat z < unat TAIL"

text \<open>
  An operation on the block \<open>p\<close> writes headers inside it and the header that follows it: the
  contents of the other blocks stay.
\<close>

lemma other_payload_kept:
  assumes bl: "blocks m HEAD FIRST (xs @ (p, sz, f) # ys)" and only: "only_headers A m m'"
    and A: "\<And>a. a \<in> A \<Longrightarrow> unat p \<le> unat a \<and> unat a + 16 \<le> unat p + 16 + unat sz \<or> a = link (p + 16 + sz)"
    and b: "b \<in> set xs \<union> set ys" and z: "in_payload b z"
  shows "m' z = m z"
proof -
  note S = blocks_split [OF bl place_simps(1)]
  note n = next_place [OF S(3,4)]
  have sorted: "sorted_wrt before (xs @ (p, sz, f) # ys)" by (rule blocks_sorted [OF bl place_simps(1)])
  have cases: "unat z < unat p \<or> unat p + 16 + unat sz + 16 \<le> unat z"
  proof (cases "b \<in> set xs")
    case True
    then have "before b (p, sz, f)" using sorted by (auto simp: sorted_wrt_append)
    then show ?thesis using z by (simp add: before_def in_payload_def)
  next
    case False
    then have "b \<in> set ys" using b by simp
    then have "unat (p + 16 + sz) \<le> unat (blk_addr b)"
      using blocks_bounds(2) [OF S(6) n(1)] by (metis prod.collapse)
    then show ?thesis using z n(2) by (simp add: in_payload_def)
  qed
  have zT: "unat z < unat TAIL" using z by (simp add: in_payload_def)
  have "\<not> in_hdr a z" if "a \<in> A" for a
    using A [OF that] cases n(2) zT by (auto simp: in_hdr_def link_def split: if_splits)
  then show ?thesis using only by (simp add: only_headers_def)
qed

section \<open>Allocation\<close>

lemma ALIGN_SIZE_mod: "unat (ALIGN_SIZE n) mod 8 = 0"
proof -
  have m: "(7 :: u32) = mask 3" by (simp add: mask_eq_exp_minus_1)
  have "take_bit 3 (ALIGN_SIZE n) = 0"
    unfolding ALIGN_SIZE_def m by (rule bit_eqI) (auto simp: bit_simps)
  then have "take_bit 3 (unat (ALIGN_SIZE n)) = 0" by (simp add: unsigned_take_bit_eq [symmetric])
  then show ?thesis by (simp add: take_bit_eq_mod)
qed

lemma ALIGN_SIZE_bounds:
  assumes "unat n \<le> 4294967288"
  shows "unat n \<le> unat (ALIGN_SIZE n)" "unat (ALIGN_SIZE n) < unat n + 8"
proof -
  have m: "(7 :: u32) = mask 3" by (simp add: mask_eq_exp_minus_1)
  have u: "unat (n + 7) = unat n + 7" using assms by (simp add: u32_add_nowrap)
  have "ALIGN_SIZE n = (n + 7) - take_bit 3 (n + 7)"
  proof -
    have "ALIGN_SIZE n + take_bit 3 (n + 7) = n + 7"
    proof -
      have "n + 8 - 1 = n + 7" by simp
      then have "ALIGN_SIZE n = (n + 7) AND NOT (mask 3)" by (simp only: ALIGN_SIZE_def m)
      moreover have "take_bit 3 (n + 7) = (n + 7) AND mask 3" by (simp add: take_bit_eq_mask)
      ultimately show ?thesis
        by (simp add: disjunctive_add bit_simps bit_eq_iff) blast
    qed
    then show ?thesis by (metis add_diff_cancel_right')
  qed
  moreover have "unat (take_bit 3 (n + 7)) = (unat n + 7) mod 8"
    unfolding unsigned_take_bit_eq u by (simp add: take_bit_eq_mod)
  moreover have "take_bit 3 (n + 7) \<le> n + 7"
    by (simp add: word_le_nat_alt u calculation(2))
  ultimately have "unat (ALIGN_SIZE n) = (unat n + 7) - (unat n + 7) mod 8"
    by (simp add: unat_sub u)
  then show "unat n \<le> unat (ALIGN_SIZE n)" "unat (ALIGN_SIZE n) < unat n + 8" by presburger+
qed

lemma find_worst_fit_blocks:
  assumes "heap_inv bs s"
  shows "find_worst_fit (ram s) HEAP_SPACE n = Some (let b = worst_pick (hd bs) (tl bs)
    in if \<not> blk_free b \<or> blk_size b < n then 0 else blk_addr b)"
proof -
  note P = heap_inv_parts [OF assms]
  obtain x sz f cs where bs: "bs = (x, sz, f) # cs"
    using assms by (cases bs) (auto simp: heap_inv_def)
  have x: "x = FIRST" "p_next (read_block (ram s) FIRST) = link (FIRST + 16 + sz)"
    "b_size (read_block (ram s) FIRST) = sz" "fits FIRST sz"
    "blocks (ram s) FIRST (FIRST + 16 + sz) cs"
    using P(8) by (simp_all add: bs)
  have loop: "worst_fit_loop (ram s) HEAP_SPACE (link (FIRST + 16 + sz)) FIRST
      = Some (blk_addr (worst_pick (FIRST, sz, f) cs))"
    using worst_fit_loop_blocks [OF x(5) next_place(1) [OF place_simps(1) x(4)] P(4), of "(FIRST, sz, f)"] x(3)
    by simp
  obtain p t g where pick: "worst_pick (FIRST, sz, f) cs = (p, t, g)" by (metis prod.collapse)
  have "(p, t, g) \<in> set bs" using worst_pick_spec [of "(FIRST, sz, f)" cs] pick bs x(1) by auto
  then have "b_size (read_block (ram s) p) = t" "b_free (read_block (ram s) p) = flag g"
    using blocks_read [OF P(8)] by blast+
  then show ?thesis using P(3,5) x(2) loop pick by (simp add: find_worst_fit_def bs x(1) Let_def)
qed

text \<open>
  The request is safe when it is not served by the last block down to its last 32 bytes, which
  are needed for the header of the rest and are counted twice with the right sentinel.
\<close>

definition safe_request :: "u32 \<Rightarrow> blk list \<Rightarrow> bool" where
  "safe_request n bs \<longleftrightarrow> (let b = worst_pick (hd bs) (tl bs)
     in b = last bs \<longrightarrow> unat (ALIGN_SIZE n) + 32 \<le> unat (blk_size b) \<or> blk_size b < ALIGN_SIZE n)"

lemma malloc_blocks:
  assumes inv: "heap_inv bs s" and pick: "worst_pick (hd bs) (tl bs) = (p, sz, f)"
  shows "\<not> f \<or> sz < ALIGN_SIZE n \<Longrightarrow> malloc n s = Inr (0, s)"
    and "f \<Longrightarrow> ALIGN_SIZE n \<le> sz \<Longrightarrow> safe_request n bs \<Longrightarrow> \<exists>xs ys m. bs = xs @ (p, sz, True) # ys \<and>
      malloc n s = Inr (p + 16, s\<lparr>ram := m\<rparr>) \<and> heap_inv (xs @ carve p (ALIGN_SIZE n) sz @ ys) (s\<lparr>ram := m\<rparr>) \<and>
      (\<forall>b \<in> set xs \<union> set ys. \<forall>z. in_payload b z \<longrightarrow> m z = ram s z) \<and>
      (\<forall>z. unat z < 0xE8000000 \<longrightarrow> m z = ram s z)"
proof -
  note P = heap_inv_parts [OF inv]
  note F = find_worst_fit_blocks [OF inv, of "ALIGN_SIZE n"]
  show "\<not> f \<or> sz < ALIGN_SIZE n \<Longrightarrow> malloc n s = Inr (0, s)"
    using P(1,2) F pick by (auto simp: malloc_def Let_def)
  assume f: "f" and fit: "ALIGN_SIZE n \<le> sz" and safe: "safe_request n bs"
  define req where "req = ALIGN_SIZE n"
  have "(p, sz, True) \<in> set bs"
    using worst_pick_spec [of "hd bs" "tl bs"] pick f inv by (cases bs) (auto simp: heap_inv_def)
  then obtain xs ys where bs: "bs = xs @ (p, sz, True) # ys" by (meson split_list)
  note bl = P(8) [unfolded bs]
  note S = blocks_split [OF bl place_simps(1)]
  note hp = fits_hdr [OF S(3,4)] and np = next_place [OF S(3,4)]
  have last: "ys = [] \<Longrightarrow> unat req + 32 \<le> unat sz"
    using safe pick f fit by (auto simp: safe_request_def bs req_def Let_def)
  have p0: "p \<noteq> 0" by (rule hdr_nonzero [OF hp(1)])
  have pF: "unat FIRST \<le> unat p" using seg_bounds [OF S(1) place_simps(1)] S(2) by simp
  have req4: "unat req mod 4 = 0"
    using ALIGN_SIZE_mod [of n] by (simp add: req_def) presburger
  have small: "unat req + 16 < 4294967296" using fit np(3) by (simp add: req_def word_le_nat_alt)
  have u16: "unat (req + 16) = unat req + 16" using small by (simp add: u32_add_nowrap)
  define m where "m = (if req + 16 \<le> sz then split_block p req (ram s)
    else set_free p (flag False) (ram s))"
  have mal: "malloc n s = Inr (p + 16, s\<lparr>ram := m\<rparr>)"
    using P(1,2) F pick f fit p0 S(5)
    by (auto simp: malloc_def Let_def m_def req_def sizeof_block_t_def BLOCK_ALLOCATED_def)
  have n_far: "unat FIRST \<le> unat (link (p + 16 + sz))"
    using link_far(1) [OF S(3,4)] pF by simp
  have "blocks m HEAD FIRST (xs @ carve p req sz @ ys) \<and>
    (\<exists>A. only_headers A (ram s) m \<and> (\<forall>a \<in> A. hdr a \<and> unat FIRST \<le> unat a \<and>
      (unat p \<le> unat a \<and> unat a + 16 \<le> unat p + 16 + unat sz \<or> a = link (p + 16 + sz))))"
  proof (cases "req + 16 \<le> sz")
    case True
    then have r: "unat req + 16 \<le> unat sz" by (simp add: word_le_nat_alt u16)
    note T = split_block_blocks [OF bl place_simps(1) req4 r last]
    have "\<forall>a \<in> {p, p + 16 + req, link (p + 16 + sz)}. hdr a \<and> unat FIRST \<le> unat a \<and>
      (unat p \<le> unat a \<and> unat a + 16 \<le> unat p + 16 + unat sz \<or> a = link (p + 16 + sz))"
      using hp(1) place_link [OF np(1)] T(3,4) r pF n_far by auto
    then show ?thesis using T(1,2) True by (auto simp: m_def carve_def)
  next
    case False
    note T = set_free_blocks [OF bl place_simps(1), of False]
    have "\<forall>a \<in> {p}. hdr a \<and> unat FIRST \<le> unat a \<and>
      (unat p \<le> unat a \<and> unat a + 16 \<le> unat p + 16 + unat sz \<or> a = link (p + 16 + sz))"
      using hp(1) pF by simp
    moreover have "m = set_free p (flag False) (ram s)" using False by (simp add: m_def)
    ultimately show ?thesis using T False by (intro conjI exI [of _ "{p}"]) (simp_all add: carve_def)
  qed
  then obtain A where m: "blocks m HEAD FIRST (xs @ carve p req sz @ ys)" "only_headers A (ram s) m"
    and A: "\<And>a. a \<in> A \<Longrightarrow> hdr a \<and> unat FIRST \<le> unat a \<and>
      (unat p \<le> unat a \<and> unat a + 16 \<le> unat p + 16 + unat sz \<or> a = link (p + 16 + sz))"
    by blast
  have "heap_inv (xs @ carve p req sz @ ys) (s\<lparr>ram := m\<rparr>)"
  proof (rule heap_inv_only [OF inv m(2) _ m(1)])
    show "hdr a \<and> unat FIRST \<le> unat a" if "a \<in> A" for a
      using A [OF that] by auto
    show "coalesced (xs @ carve p req sz @ ys)" using P(9) by (intro coalesced_carve) (simp add: bs)
    show "blk_free (last (xs @ carve p req sz @ ys))"
    proof (cases "ys = []")
      case True
      then have "req + 16 \<le> sz" using last by (simp add: word_le_nat_alt u16)
      then show ?thesis using True by (simp add: carve_def)
    next
      case False
      then show ?thesis using P(11) by (simp add: bs)
    qed
  qed (simp add: carve_def)
  moreover have "\<forall>b \<in> set xs \<union> set ys. \<forall>z. in_payload b z \<longrightarrow> m z = ram s z"
    using other_payload_kept [OF bl m(2)] A by blast
  moreover have "\<forall>z. unat z < 0xE8000000 \<longrightarrow> m z = ram s z"
  proof (intro allI impI)
    fix z :: u32 assume z: "unat z < 0xE8000000"
    have "\<not> in_hdr a z" if "a \<in> A" for a using A [OF that] z by (simp add: in_hdr_def hdr_def)
    then show "m z = ram s z" using m(2) by (simp add: only_headers_def)
  qed
  ultimately show "\<exists>xs ys m. bs = xs @ (p, sz, True) # ys \<and>
      malloc n s = Inr (p + 16, s\<lparr>ram := m\<rparr>) \<and> heap_inv (xs @ carve p (ALIGN_SIZE n) sz @ ys) (s\<lparr>ram := m\<rparr>) \<and>
      (\<forall>b \<in> set xs \<union> set ys. \<forall>z. in_payload b z \<longrightarrow> m z = ram s z) \<and>
      (\<forall>z. unat z < 0xE8000000 \<longrightarrow> m z = ram s z)"
    using bs mal by (auto simp: req_def)
qed

section \<open>Release\<close>

lemma free_search_blocks:
  assumes "blocks m prv a bs" "place a" "heap_tail m heap = TAIL"
  shows "free_search m heap q (link a) = Some (q \<in> blk_addr ` set bs)"
  using assms
proof (induction m prv a bs rule: blocks.induct)
  case (1 m prv a)
  then show ?case by (subst free_search.simps) (simp add: link_def)
next
  case (2 m prv a x sz f bs)
  from 2(2) have b: "x = a" "p_next (read_block m a) = link (a + 16 + sz)" "blocks m a (a + 16 + sz) bs"
    and z: "fits a sz" by simp_all
  note h = fits_hdr [OF 2(3) z]
  have ne: "a \<noteq> TAIL" "a \<noteq> 0" using h(2) hdr_nonzero [OF h(1)] by auto
  note IH = 2(1) [OF b(3) next_place(1) [OF 2(3) z] 2(4)]
  show ?case using IH ne b 2(4) h(3) by (subst free_search.simps) auto
qed

lemma link_FIRST [simp]: "link FIRST = FIRST"
  by (auto simp: link_def dest: arg_cong [where f = unat])

lemma free_search_heap:
  assumes "heap_inv bs s"
  shows "free_search (ram s) HEAP_SPACE q (heap_head (ram s) HEAP_SPACE) = Some (q = HEAD \<or> q \<in> blk_addr ` set bs)"
proof -
  note P = heap_inv_parts [OF assms]
  have "HEAD \<noteq> TAIL" "HEAD \<noteq> 0" by (simp_all add: HEAD_def TAIL_def HEAP_SPACE_def HEAP_SIZE_def
      sizeof_heap_t_def sizeof_block_t_def)
  then show ?thesis
    using P(3,4,5) free_search_blocks [OF P(8) place_simps(1) P(4), of q]
    by (subst free_search.simps) (simp add: link_FIRST)
qed

lemma last_of_append [simp]: "last_of prv (xs @ [(q, t, g)]) = q"
  by (induction prv xs rule: last_of.induct) auto

lemma last_of_in:
  "xs \<noteq> [] \<Longrightarrow> last_of prv xs = blk_addr (last xs)"
  by (induction prv xs rule: last_of.induct) auto

text \<open>The next block is free: \<open>heap_block_join\<close> takes it over.\<close>

definition absorb :: "u32 \<Rightarrow> u32 \<Rightarrow> blk list \<Rightarrow> blk list" where
  "absorb p sz ys = (case ys of (y, t, True) # ys' \<Rightarrow> (p, sz + 16 + t, True) # ys'
     | _ \<Rightarrow> (p, sz, True) # ys)"

lemma coalesce_middle:
  assumes xs: "coalesced xs" and ys: "coalesced ys"
  shows "coalesce (xs @ (p, sz, True) # ys) =
    (if xs \<noteq> [] \<and> blk_free (last xs)
     then butlast xs @ [(blk_addr (last xs), blk_size (last xs) + 16 + blk_size (hd (absorb p sz ys)), True)]
       @ tl (absorb p sz ys)
     else xs @ absorb p sz ys)"
proof (cases "xs \<noteq> [] \<and> blk_free (last xs)")
  case False
  then show ?thesis
    using coalesce_append [OF xs] coalesce_free_first [OF ys] by (auto simp: absorb_def split: list.splits)
next
  case True
  obtain us q t where us: "xs = us @ [(q, t, True)]"
    using True by (metis append_butlast_last_id prod.collapse)
  have c: "coalesced us" "us = [] \<or> \<not> blk_free (last us)"
    using xs by (auto simp: us coalesced_append)
  have "coalesce (xs @ (p, sz, True) # ys) = us @ coalesce ((q, t + 16 + sz, True) # ys)"
    using coalesce_append [OF c, of "(q, t, True) # (p, sz, True) # ys"] by (simp add: us)
  also have "coalesce ((q, t + 16 + sz, True) # ys) = absorb q (t + 16 + sz) ys"
    using coalesce_free_first [OF ys] by (simp add: absorb_def)
  also have "\<dots> = (q, t + 16 + blk_size (hd (absorb p sz ys)), True) # tl (absorb p sz ys)"
    by (auto simp: absorb_def algebra_simps split: list.splits bool.splits)
  finally show ?thesis by (simp add: us)
qed

lemma absorb_coalesced:
  assumes "coalesced ys"
  shows "\<exists>n zs. absorb p sz ys = (p, n, True) # zs \<and> coalesced ((p, n, True) # zs)"
proof (cases ys)
  case (Cons b zs)
  obtain y t g where b: "b = (y, t, g)" by (cases b)
  show ?thesis
  proof (cases g)
    case True
    then have "absorb p sz ys = (p, sz + 16 + t, True) # zs" by (simp add: absorb_def Cons b)
    moreover have "coalesced ((p, sz + 16 + t, True) # zs)"
      using assms True by (cases zs) (auto simp: Cons b)
    ultimately show ?thesis by blast
  next
    case False
    then show ?thesis using assms by (simp add: absorb_def Cons b)
  qed
qed (simp add: absorb_def)

lemma coalesced_coalesce_middle:
  assumes xs: "coalesced xs" and ys: "coalesced ys"
  shows "coalesced (coalesce (xs @ (p, sz, True) # ys))"
proof -
  obtain n zs where a: "absorb p sz ys = (p, n, True) # zs" "coalesced ((p, n, True) # zs)"
    using absorb_coalesced [OF ys] by blast
  have zs: "coalesced ((q, t, True) # zs)" for q t using a(2) by (cases zs) auto
  show ?thesis
  proof (cases "xs \<noteq> [] \<and> blk_free (last xs)")
    case False
    then show ?thesis using xs zs unfolding coalesce_middle [OF xs ys] a(1)
      by (auto simp: coalesced_append)
  next
    case True
    obtain us q t where us: "xs = us @ [(q, t, True)]"
      using True by (metis append_butlast_last_id prod.collapse)
    show ?thesis using xs zs unfolding coalesce_middle [OF xs ys] a(1)
      by (auto simp: us coalesced_append)
  qed
qed

lemma next_is_free:
  assumes bl: "blocks m prv a (xs @ (p, sz, f) # ys)" and a: "place a"
  shows "b_free (read_block m (p_next (read_block m p))) \<noteq> 0 \<longleftrightarrow> ys \<noteq> [] \<and> blk_free (hd ys)"
proof (cases ys)
  case Nil
  then show ?thesis using blocks_split(5,6) [OF bl a] by (simp add: link_def)
next
  case (Cons b zs)
  obtain y t g where b: "b = (y, t, g)" by (cases b)
  have bl2: "blocks m prv a ((xs @ [(p, sz, f)]) @ (y, t, g) # zs)" using bl by (simp add: Cons b)
  note T = blocks_split [OF bl2 a]
  have "y = p + 16 + sz" using blocks_split(6) [OF bl a] by (simp add: Cons b)
  then show ?thesis
    using blocks_split(5) [OF bl a] T(5) fits_hdr(3) [OF T(3,4)] by (simp add: Cons b)
qed

lemma absorb_addrs:
  "blk_addr ` set (absorb p sz ys) \<subseteq> insert p (blk_addr ` set ys)"
  by (auto simp: absorb_def split: list.splits bool.splits)

lemma link_in: "blocks m prv a bs \<Longrightarrow> link a \<in> insert TAIL (blk_addr ` set bs)"
  by (cases bs) (auto simp: link_def)

lemma absorb_blocks:
  assumes bl: "blocks m HEAD FIRST (xs @ (p, sz, True) # ys)"
  defines "m' \<equiv> (if b_free (read_block m (p_next (read_block m p))) \<noteq> 0 then heap_block_join p m else m)"
  shows "blocks m' HEAD FIRST (xs @ absorb p sz ys)"
    and "only_headers (insert TAIL (insert p (blk_addr ` set ys))) m m'"
proof -
  let ?A = "insert TAIL (insert p (blk_addr ` set ys))"
  have "blocks m' HEAD FIRST (xs @ absorb p sz ys) \<and> only_headers ?A m m'"
  proof (cases "ys \<noteq> [] \<and> blk_free (hd ys)")
    case False
    then have "m' = m" using next_is_free [OF bl place_simps(1)] by (auto simp: m'_def)
    moreover have "absorb p sz ys = (p, sz, True) # ys"
      using False by (auto simp: absorb_def split: list.splits bool.splits)
    ultimately show ?thesis using bl by simp
  next
    case True
    then obtain y t zs where ys: "ys = (y, t, True) # zs" by (cases ys) auto
    have m': "m' = heap_block_join p m"
      using True next_is_free [OF bl place_simps(1)] by (simp add: m'_def)
    note J = join_blocks [OF bl [unfolded ys] place_simps(1)]
    have bl2: "blocks m HEAD FIRST ((xs @ [(p, sz, True)]) @ (y, t, True) # zs)"
      using bl by (simp add: ys)
    have "link (y + 16 + t) \<in> insert TAIL (blk_addr ` set ys)"
      using link_in [OF blocks_split(6) [OF bl2 place_simps(1)]] by (auto simp: ys)
    then have "{p, link (y + 16 + t)} \<subseteq> ?A" by auto
    then show ?thesis
      using J m' only_headers_trans [OF J(2) only_headers_refl, of ?A "{}"]
      by (simp add: absorb_def ys)
  qed
  then show "blocks m' HEAD FIRST (xs @ absorb p sz ys)" "only_headers ?A m m'" by simp_all
qed

lemma blocks_headers:
  assumes "blocks m HEAD FIRST bs" "a \<in> insert TAIL (blk_addr ` set bs)"
  shows "hdr a" "unat FIRST \<le> unat a"
  using assms blocks_bounds(1,2) [OF assms(1) place_simps(1)] by auto

lemma release_block_blocks:
  assumes bl: "blocks m HEAD FIRST (xs @ (p, sz, f) # ys)" and co: "coalesced xs" "coalesced ys"
    and head: "b_free (read_block m HEAD) = 0"
  shows "\<exists>m'. release_block p m = Inr m' \<and> blocks m' HEAD FIRST (coalesce (xs @ (p, sz, True) # ys)) \<and>
    only_headers (insert TAIL (blk_addr ` set (xs @ (p, sz, f) # ys))) m m'"
proof -
  let ?A = "insert TAIL (blk_addr ` set (xs @ (p, sz, f) # ys))"
  define m1 where "m1 = set_free p BLOCK_FREE m"
  define m2 where "m2 = (if b_free (read_block m1 (p_next (read_block m1 p))) \<noteq> 0
    then heap_block_join p m1 else m1)"
  have m1: "blocks m1 HEAD FIRST (xs @ (p, sz, True) # ys)" "only_headers {p} m m1"
    using set_free_blocks [OF bl place_simps(1), of True] by (simp_all add: m1_def BLOCK_FREE_def)
  have m2: "blocks m2 HEAD FIRST (xs @ absorb p sz ys)"
    "only_headers (insert TAIL (insert p (blk_addr ` set ys))) m1 m2"
    using absorb_blocks [OF m1(1)] by (simp_all add: m2_def)
  have o2: "only_headers ?A m m2" by (rule only_headers_trans [OF m1(2) m2(2)]) auto
  obtain n zs where ab: "absorb p sz ys = (p, n, True) # zs"
    using absorb_coalesced [OF co(2)] by blast
  note B = m2(1) [unfolded ab]
  note S = blocks_split [OF B place_simps(1)]
  define prv where "prv = last_of HEAD xs"
  have prv: "p_prev (read_block m2 p) = prv" using S(5) by (simp add: prv_def)
  have rel: "release_block p m = (if prv = 0 then Inl Stuck
    else Inr (if b_free (read_block m2 prv) \<noteq> 0 then heap_block_join prv m2 else m2))"
    by (simp add: release_block_def Let_def m1_def [symmetric] m2_def [symmetric] prv)
  show ?thesis
  proof (cases "xs \<noteq> [] \<and> blk_free (last xs)")
    case True
    obtain us q t where us: "xs = us @ [(q, t, True)]"
      using True by (metis append_butlast_last_id prod.collapse)
    have B': "blocks m2 HEAD FIRST (us @ (q, t, True) # (p, n, True) # zs)" using B by (simp add: us)
    note U = blocks_split [OF B' place_simps(1)]
    note J = join_blocks [OF B' place_simps(1)]
    have q: "prv = q" "q \<noteq> 0" "b_free (read_block m2 q) = 1"
      using U(5) hdr_nonzero [OF fits_hdr(1) [OF U(3,4)]] by (simp_all add: prv_def us)
    have "link (p + 16 + n) \<in> insert TAIL (blk_addr ` set zs)" by (rule link_in [OF S(6)])
    then have "{q, link (p + 16 + n)} \<subseteq> ?A" using absorb_addrs [of p sz ys] by (auto simp: us ab)
    then have "only_headers ?A m (heap_block_join q m2)"
      by (intro only_headers_trans [OF o2 J(2)]) simp_all
    moreover have "coalesce (xs @ (p, sz, True) # ys) = us @ (q, t + 16 + n, True) # zs"
      using coalesce_middle [OF co, of p sz] by (simp add: us ab)
    ultimately show ?thesis using J(1) q by (simp add: rel)
  next
    case False
    have "prv \<noteq> 0 \<and> b_free (read_block m2 prv) = 0"
    proof (cases "xs = []")
      case True
      have "read_block m2 HEAD = read_block m HEAD"
      proof (rule read_block_only [OF o2 hdr_sentinels(1)])
        show "apart a HEAD" if "a \<in> ?A" for a
          using blocks_headers(2) [OF bl that] by (simp add: apart_def)
      qed
      then show ?thesis using True head hdr_nonzero [OF hdr_sentinels(1)] by (simp add: prv_def)
    next
      case xs: False
      obtain us q t where us: "xs = us @ [(q, t, False)]"
        using xs False by (metis append_butlast_last_id prod.collapse)
      have B': "blocks m2 HEAD FIRST (us @ (q, t, False) # (p, n, True) # zs)" using B by (simp add: us)
      note U = blocks_split [OF B' place_simps(1)]
      show ?thesis using U(5) hdr_nonzero [OF fits_hdr(1) [OF U(3,4)]] by (simp add: prv_def us)
    qed
    moreover have "coalesce (xs @ (p, sz, True) # ys) = xs @ absorb p sz ys"
      using False coalesce_middle [OF co, of p sz] by auto
    ultimately show ?thesis using m2(1) o2 by (simp add: rel)
  qed
qed

text \<open>No header of the list lies in the contents of a block.\<close>

lemma payload_not_header:
  assumes "blocks m HEAD FIRST bs" "b \<in> set bs" "a \<in> insert TAIL (blk_addr ` set bs)" "in_payload b z"
  shows "\<not> in_hdr a z"
proof (cases "a = TAIL")
  case False
  then obtain c where c: "c \<in> set bs" "a = blk_addr c" using assms(3) by auto
  have "b = c \<or> before b c \<or> before c b"
    using blocks_sorted [OF assms(1) place_simps(1)] assms(2) c(1)
    by (metis in_set_conv_nth linorder_neqE_nat sorted_wrt_nth_less)
  then show ?thesis using assms(4) c(2) by (auto simp: before_def in_payload_def in_hdr_def)
qed (use assms(4) in \<open>simp add: in_payload_def in_hdr_def\<close>)

lemma coalesce_Nil [simp]: "coalesce bs = [] \<longleftrightarrow> bs = []"
  by (induction bs rule: coalesce.induct) auto

lemma coalesce_last_free: "bs \<noteq> [] \<Longrightarrow> blk_free (last bs) \<Longrightarrow> blk_free (last (coalesce bs))"
  by (induction bs rule: coalesce.induct) (auto split: if_splits)

lemma heap_free_blocks:
  assumes inv: "heap_inv bs s" and bs: "bs = xs @ (p, sz, f) # ys"
  shows "\<exists>m. heap_free (p + 16) s = Inr (s\<lparr>ram := m\<rparr>) \<and>
    heap_inv (coalesce (xs @ (p, sz, True) # ys)) (s\<lparr>ram := m\<rparr>) \<and>
    (\<forall>b \<in> set bs. \<forall>z. in_payload b z \<longrightarrow> m z = ram s z)"
proof -
  note P = heap_inv_parts [OF inv]
  note bl = P(8) [unfolded bs]
  have co: "coalesced xs" "coalesced ys"
    using P(9) unfolding bs by (simp add: coalesced_append, cases ys) (auto simp: coalesced_append)
  obtain m where m: "release_block p (ram s) = Inr m"
    "blocks m HEAD FIRST (coalesce (xs @ (p, sz, True) # ys))"
    "only_headers (insert TAIL (blk_addr ` set bs)) (ram s) m"
    using release_block_blocks [OF bl co P(6)] unfolding bs by blast
  have ptr: "p + 16 \<noteq> 0"
  proof -
    have "unat (p + 16) = unat p + 16"
      using fits_hdr(2) [OF blocks_split(3,4) [OF bl place_simps(1)]] by (simp add: u32_add_nowrap)
    then show ?thesis by auto
  qed
  have "p \<in> blk_addr ` set bs" by (force simp: bs)
  then have "heap_free (p + 16) s = Inr (s\<lparr>ram := m\<rparr>)"
    using P(1) free_search_heap [OF inv, of p] m(1) ptr by (simp add: heap_free_def sizeof_block_t_def)
  moreover have "heap_inv (coalesce (xs @ (p, sz, True) # ys)) (s\<lparr>ram := m\<rparr>)"
  proof (rule heap_inv_only [OF inv m(3) _ m(2)])
    show "hdr a \<and> unat FIRST \<le> unat a" if "a \<in> insert TAIL (blk_addr ` set bs)" for a
      using blocks_headers [OF P(8) that] by simp
    show "coalesced (coalesce (xs @ (p, sz, True) # ys))"
      by (rule coalesced_coalesce_middle [OF co])
    show "coalesce (xs @ (p, sz, True) # ys) \<noteq> []"
      by (simp add: coalesce_Nil)
    show "blk_free (last (coalesce (xs @ (p, sz, True) # ys)))"
      using P(11) by (intro coalesce_last_free) (auto simp: bs)
  qed
  moreover have "\<forall>b \<in> set bs. \<forall>z. in_payload b z \<longrightarrow> m z = ram s z"
    using m(3) payload_not_header [OF P(8)] unfolding only_headers_def by blast
  ultimately show ?thesis by blast
qed

end
