(* ===== verification/Heap_Contract.thy ===== *)
theory Heap_Contract
  imports Heap_Spec
begin

text \<open>
  The heap as the rest of the kernel uses it. The locale \<open>allocator\<close> is the contract of
  \<^verbatim>\<open>malloc\<close> and \<^verbatim>\<open>free\<close>: live regions do not overlap, a request returns a new one or nothing, a
  release ends one, and a client may write inside its regions. It is interpreted on the
  model's \<open>malloc\<close> and \<open>heap_free\<close>; \<^verbatim>\<open>calloc\<close> is its first client.
\<close>

section \<open>Regions\<close>

type_synonym region = "u32 \<times> u32" \<comment> \<open>address and size\<close>

definition in_region :: "region \<Rightarrow> u32 \<Rightarrow> bool" where
  "in_region r z \<longleftrightarrow> unat (fst r) \<le> unat z \<and> unat z < unat (fst r) + unat (snd r)"

definition blk_region :: "blk \<Rightarrow> region" where
  "blk_region b = (blk_addr b + 16, blk_size b)"

definition heap_ok :: "kmem \<Rightarrow> bool" where
  "heap_ok s \<longleftrightarrow> (\<exists>bs. heap_inv bs s)"

definition heap_safe :: "u32 \<Rightarrow> kmem \<Rightarrow> bool" where
  "heap_safe n s \<longleftrightarrow> (\<exists>bs. heap_inv bs s \<and> safe_request n bs)"

definition live :: "kmem \<Rightarrow> region set" where
  "live s = {blk_region b | bs b. heap_inv bs s \<and> b \<in> set bs \<and> \<not> blk_free b}"

lemma live_eq: "heap_inv bs s \<Longrightarrow> live s = blk_region ` {b \<in> set bs. \<not> blk_free b}"
  using heap_inv_unique unfolding live_def by blast

definition poke :: "u32 \<Rightarrow> u8 \<Rightarrow> kmem \<Rightarrow> kmem" where
  "poke z c s = s\<lparr>ram := (ram s)(z := c)\<rparr>"

lemma blk_region_addr:
  assumes "heap_inv bs s" "b \<in> set bs"
  shows "unat (fst (blk_region b)) = unat (blk_addr b) + 16"
proof -
  have "(blk_addr b, blk_size b, blk_free b) \<in> set bs" using assms(2) by simp
  note B = blocks_bounds [OF heap_inv_parts(8) [OF assms(1)] place_simps(1) this]
  show ?thesis using B(4) by (simp add: blk_region_def u32_add_nowrap)
qed

text \<open>The last block is free, so an allocated block ends below the right sentinel.\<close>

lemma allocated_end:
  assumes "heap_inv bs s" "b \<in> set bs" "\<not> blk_free b"
  shows "unat (blk_addr b) + 16 + unat (blk_size b) + 16 \<le> unat TAIL"
proof -
  obtain p sz where b: "b = (p, sz, False)" using assms(3) by (metis prod.collapse)
  obtain xs ys where bs: "bs = xs @ (p, sz, False) # ys" using assms(2) b by (meson split_list)
  note P = heap_inv_parts [OF assms(1)]
  note S = blocks_split [OF P(8) [unfolded bs] place_simps(1)]
  have "ys \<noteq> []" using P(11) by (auto simp: bs)
  then obtain c zs where "ys = c # zs" by (cases ys) auto
  then have "p + 16 + sz \<noteq> END" using S(6) fits_not_END by (cases c) auto
  then have "unat p + 16 + unat sz \<noteq> unat END"
    using next_place(2) [OF S(3,4)] by (metis unsigned_word_eqI)
  then show ?thesis using S(4) by (auto simp: fits_def b)
qed

lemma in_region_payload:
  assumes "heap_inv bs s" "b \<in> set bs" "\<not> blk_free b"
  shows "in_region (blk_region b) z = in_payload b z"
  using blk_region_addr [OF assms(1,2)] allocated_end [OF assms]
  by (simp add: in_region_def in_payload_def) (auto simp: blk_region_def)

lemma blocks_differ:
  assumes "heap_inv bs s" "b \<in> set bs" "c \<in> set bs" "b \<noteq> c"
  shows "before b c \<or> before c b"
  using blocks_sorted [OF heap_inv_parts(8) [OF assms(1)] place_simps(1)] assms(2-4)
  by (metis in_set_conv_nth linorder_neqE_nat sorted_wrt_nth_less)

lemma blk_region_inject:
  assumes "heap_inv bs s" "b \<in> set bs" "c \<in> set bs" "blk_addr b = blk_addr c"
  shows "b = c"
  using blocks_differ [OF assms(1-3)] assms(4) by (auto simp: before_def)

lemma heap_inv_poke:
  assumes inv: "heap_inv bs s" and b: "b \<in> set bs" and z: "in_payload b z"
  shows "heap_inv bs (poke z c s)"
proof -
  let ?m = "(ram s)(z := c)"
  note P = heap_inv_parts [OF inv]
  have h: "read_block ?m a = read_block (ram s) a" if "a \<in> insert TAIL (blk_addr ` set bs)" for a
    using read_block_byte [OF blocks_headers(1) [OF P(8) that] payload_not_header [OF P(8) b that z]] .
  have zb: "unat FIRST + 16 \<le> unat z"
    using blocks_headers(2) [OF P(8), of "blk_addr b"] b z by (auto simp: in_payload_def)
  have "blocks ?m HEAD FIRST bs = blocks (ram s) HEAD FIRST bs"
  proof (rule blocks_cong)
    show "read_block ?m x = read_block (ram s) x" if "(x, sz, f) \<in> set bs" for x sz f
      by (rule h) (use that in force)
  qed (simp add: h)
  moreover have "read_block ?m HEAD = read_block (ram s) HEAD"
    by (rule read_block_byte) (use zb in \<open>simp_all add: in_hdr_def\<close>)
  moreover have low: "?m y = ram s y" if "unat y < 0xE800000C" for y
    using that zb by auto
  then have "heap_head ?m HEAP_SPACE = heap_head (ram s) HEAP_SPACE"
    "heap_tail ?m HEAP_SPACE = heap_tail (ram s) HEAP_SPACE"
    unfolding heap_head_def heap_tail_def
    by (rule load32_cong; auto simp: HEAP_SPACE_def low simp del: fun_upd_apply)+
  ultimately show ?thesis using inv by (simp add: heap_inv_def poke_def)
qed

section \<open>The contract\<close>

locale allocator =
  fixes ok :: "'s \<Rightarrow> bool"
    and regions :: "'s \<Rightarrow> region set"
    and safe :: "u32 \<Rightarrow> 's \<Rightarrow> bool"
    and bytes :: "'s \<Rightarrow> mem"
    and put :: "u32 \<Rightarrow> u8 \<Rightarrow> 's \<Rightarrow> 's"
    and alloc :: "u32 \<Rightarrow> 's \<Rightarrow> (u32 \<times> 's) res"
    and release :: "u32 \<Rightarrow> 's \<Rightarrow> 's res"
  assumes regions_apart: "ok s \<Longrightarrow> r \<in> regions s \<Longrightarrow> r' \<in> regions s \<Longrightarrow> r \<noteq> r' \<Longrightarrow> in_region r z
      \<Longrightarrow> \<not> in_region r' z"
    and write_ok: "ok s \<Longrightarrow> r \<in> regions s \<Longrightarrow> in_region r z
      \<Longrightarrow> ok (put z c s) \<and> regions (put z c s) = regions s"
    and write_bytes: "bytes (put z c s) = (bytes s)(z := c)"
    and alloc_returns: "ok s \<Longrightarrow> safe n s \<Longrightarrow> \<exists>p t. alloc n s = Inr (p, t)"
    and alloc_null: "ok s \<Longrightarrow> safe n s \<Longrightarrow> alloc n s = Inr (0, t) \<Longrightarrow> t = s"
    and alloc_region: "ok s \<Longrightarrow> safe n s \<Longrightarrow> alloc n s = Inr (p, t) \<Longrightarrow> p \<noteq> 0 \<Longrightarrow>
      ok t \<and> (\<exists>k. ALIGN_SIZE n \<le> k \<and> (p, k) \<notin> regions s \<and> regions t = insert (p, k) (regions s)) \<and>
      (\<forall>r \<in> regions s. \<forall>z. in_region r z \<longrightarrow> bytes t z = bytes s z)"
    and release_region: "ok s \<Longrightarrow> (p, k) \<in> regions s \<Longrightarrow>
      \<exists>t. release p s = Inr t \<and> ok t \<and> regions t = regions s - {(p, k)} \<and>
        (\<forall>r \<in> regions s. \<forall>z. in_region r z \<longrightarrow> bytes t z = bytes s z)"
begin

text \<open>Filling the first bytes of a region.\<close>

lemma fill_ok:
  assumes "ok s" "(p, k) \<in> regions s" "n \<le> unat k" "unat p + unat k \<le> 4294967295"
  shows "ok (fold (\<lambda>i. put (p + word_of_nat i) c) [0..<n] s) \<and>
    regions (fold (\<lambda>i. put (p + word_of_nat i) c) [0..<n] s) = regions s"
  using assms(3)
proof (induction n)
  case (Suc n)
  have "unat (word_of_nat n :: u32) = n" using Suc.prems assms(4) by (intro u32_of_nat) linarith
  then have "unat (p + word_of_nat n) = unat p + n"
    using Suc.prems assms(4) by (simp add: u32_add_nowrap)
  then have "in_region (p, k) (p + word_of_nat n)" using Suc.prems by (simp add: in_region_def)
  then show ?case using Suc assms(2) write_ok by simp
qed (use assms in simp)

text \<open>A second request does not touch, or overlap, the first region.\<close>

lemma alloc_twice:
  assumes "ok s" "safe n s" "alloc n s = Inr (p, t)" "p \<noteq> 0"
    and "safe n' t" "alloc n' t = Inr (q, u)" "q \<noteq> 0"
  shows "\<exists>k k'. (p, k) \<in> regions u \<and> (q, k') \<in> regions u \<and> ALIGN_SIZE n \<le> k \<and> ALIGN_SIZE n' \<le> k' \<and>
    (\<forall>z. in_region (p, k) z \<longrightarrow> \<not> in_region (q, k') z)"
proof -
  obtain k where t: "ok t" "ALIGN_SIZE n \<le> k" "regions t = insert (p, k) (regions s)"
    using alloc_region [OF assms(1-4)] by blast
  obtain k' where u: "ok u" "ALIGN_SIZE n' \<le> k'" "(q, k') \<notin> regions t" "regions u = insert (q, k') (regions t)"
    using alloc_region [OF t(1) assms(5-7)] by blast
  have "(p, k) \<noteq> (q, k')" using t(3) u(3) by auto
  then show ?thesis using regions_apart [OF u(1)] t u by blast
qed

lemma alloc_release:
  assumes "ok s" "safe n s" "alloc n s = Inr (p, t)" "p \<noteq> 0"
  shows "\<exists>u. release p t = Inr u \<and> ok u \<and> regions u = regions s"
proof -
  obtain k where t: "ok t" "(p, k) \<notin> regions s" "regions t = insert (p, k) (regions s)"
    using alloc_region [OF assms(1-4)] by blast
  then obtain u where "release p t = Inr u" "ok u" "regions u = regions t - {(p, k)}"
    using release_region [OF t(1), of p k] by blast
  then show ?thesis using t by auto
qed

end

section \<open>The kernel heap keeps the contract\<close>

lemma coalesce_allocated:
  "{b \<in> set (coalesce bs). \<not> blk_free b} = {b \<in> set bs. \<not> blk_free b}"
proof -
  have "filter (\<lambda>b. \<not> blk_free b) (coalesce bs) = filter (\<lambda>b. \<not> blk_free b) bs"
    by (induction bs rule: coalesce.induct) auto
  then have "set (filter (\<lambda>b. \<not> blk_free b) (coalesce bs)) = set (filter (\<lambda>b. \<not> blk_free b) bs)"
    by (rule arg_cong)
  then show ?thesis by (simp only: set_filter)
qed

lemma carve_allocated:
  "{b \<in> set (carve p req sz). \<not> blk_free b} = {(p, if req + 16 \<le> sz then req else sz, False)}"
  by (auto simp: carve_def)

lemma malloc_cases [consumes 2, case_names none some]:
  assumes inv: "heap_inv bs s" and safe: "safe_request n bs"
  obtains (none) p sz f where "worst_pick (hd bs) (tl bs) = (p, sz, f)" "\<not> f \<or> sz < ALIGN_SIZE n"
      "malloc n s = Inr (0, s)"
  | (some) xs p sz ys m where "worst_pick (hd bs) (tl bs) = (p, sz, True)" "ALIGN_SIZE n \<le> sz"
      "bs = xs @ (p, sz, True) # ys" "p + 16 \<noteq> 0"
      "malloc n s = Inr (p + 16, s\<lparr>ram := m\<rparr>)" "heap_inv (xs @ carve p (ALIGN_SIZE n) sz @ ys) (s\<lparr>ram := m\<rparr>)"
      "\<forall>b \<in> set xs \<union> set ys. \<forall>z. in_payload b z \<longrightarrow> m z = ram s z"
      "\<forall>z. unat z < 0xE8000000 \<longrightarrow> m z = ram s z"
proof -
  obtain p sz f where pick: "worst_pick (hd bs) (tl bs) = (p, sz, f)" by (metis prod.collapse)
  show ?thesis
  proof (cases "\<not> f \<or> sz < ALIGN_SIZE n")
    case True
    then show ?thesis using none malloc_blocks(1) [OF inv pick] pick by blast
  next
    case False
    then have f: "f" "ALIGN_SIZE n \<le> sz" by auto
    from malloc_blocks(2) [OF inv pick f safe] obtain xs ys m where
      m: "bs = xs @ (p, sz, True) # ys" "malloc n s = Inr (p + 16, s\<lparr>ram := m\<rparr>)"
        "heap_inv (xs @ carve p (ALIGN_SIZE n) sz @ ys) (s\<lparr>ram := m\<rparr>)"
        "\<forall>b \<in> set xs \<union> set ys. \<forall>z. in_payload b z \<longrightarrow> m z = ram s z"
        "\<forall>z. unat z < 0xE8000000 \<longrightarrow> m z = ram s z"
      by blast
    have b: "(p, sz, True) \<in> set bs" by (simp add: m(1))
    have "p + 16 \<noteq> 0"
      using blk_region_addr(1) [OF inv b] by (auto simp: blk_region_def)
    moreover have "worst_pick (hd bs) (tl bs) = (p, sz, True)" using pick f(1) by simp
    ultimately show ?thesis by (rule some [OF _ f(2) m(1) _ m(2-5), rotated])
  qed
qed

lemma malloc_live:
  assumes safe: "heap_safe n s" and mal: "malloc n s = Inr (q, t)" and q: "q \<noteq> 0"
  shows "heap_ok t \<and> (\<exists>k. ALIGN_SIZE n \<le> k \<and> (q, k) \<notin> live s \<and> live t = insert (q, k) (live s)) \<and>
    (\<forall>r \<in> live s. \<forall>z. in_region r z \<longrightarrow> ram t z = ram s z)"
proof -
  from safe obtain bs where inv: "heap_inv bs s" "safe_request n bs" by (auto simp: heap_safe_def)
  from inv show ?thesis
  proof (cases rule: malloc_cases)
    case none
    then show ?thesis using mal q by simp
  next
    case (some xs p sz ys m)
    define k where "k = (if ALIGN_SIZE n + 16 \<le> sz then ALIGN_SIZE n else sz)"
    have q: "q = p + 16" "t = s\<lparr>ram := m\<rparr>" using mal some(5) by simp_all
    have alloc: "{b \<in> set (xs @ carve p (ALIGN_SIZE n) sz @ ys). \<not> blk_free b}
      = insert (p, k, False) {b \<in> set bs. \<not> blk_free b}"
    proof -
      have u: "{b \<in> set (as @ cs). \<not> blk_free b} = {b \<in> set as. \<not> blk_free b} \<union> {b \<in> set cs. \<not> blk_free b}"
        for as cs :: "blk list" by auto
      have "{b \<in> set ((p, sz, True) # ys). \<not> blk_free b} = {b \<in> set ys. \<not> blk_free b}" by auto
      then show ?thesis unfolding some(3) u carve_allocated k_def by simp
    qed
    have live: "live t = insert (q, k) (live s)"
      unfolding live_eq [OF some(6), folded q(2)] live_eq [OF inv(1)] alloc by (simp add: blk_region_def q(1))
    have fresh: "(q, k) \<notin> live s"
    proof
      assume "(q, k) \<in> live s"
      then obtain b where b: "b \<in> set bs" "\<not> blk_free b" "blk_addr b = p"
        by (auto simp: live_eq [OF inv(1)] blk_region_def q(1))
      then show False
        using blk_region_inject [OF inv(1) b(1), of "(p, sz, True)"] some(3) by auto
    qed
    have "ram t z = ram s z" if r: "r \<in> live s" "in_region r z" for r z
    proof -
      obtain b where b: "b \<in> set bs" "\<not> blk_free b" "r = blk_region b"
        using r(1) by (auto simp: live_eq [OF inv(1)])
      then have "b \<in> set xs \<union> set ys" by (auto simp: some(3))
      then show ?thesis using some(7) r(2) in_region_payload [OF inv(1) b(1,2)] by (simp add: b(3) q(2))
    qed
    moreover have "ALIGN_SIZE n \<le> k" using some(2) by (simp add: k_def)
    moreover have "heap_ok t" using some(6) by (auto simp: heap_ok_def q(2))
    ultimately show ?thesis using live fresh by blast
  qed
qed

lemma free_live:
  assumes ok: "heap_ok s" and r: "(q, k) \<in> live s"
  shows "\<exists>t. heap_free q s = Inr t \<and> heap_ok t \<and> live t = live s - {(q, k)} \<and>
    (\<forall>r \<in> live s. \<forall>z. in_region r z \<longrightarrow> ram t z = ram s z)"
proof -
  from ok obtain bs where inv: "heap_inv bs s" by (auto simp: heap_ok_def)
  obtain p where p: "(p, k, False) \<in> set bs" "q = p + 16"
    using r by (auto simp: live_eq [OF inv] blk_region_def)
  then obtain xs ys where bs: "bs = xs @ (p, k, False) # ys" by (meson split_list)
  from heap_free_blocks [OF inv bs] obtain m where
    m: "heap_free (p + 16) s = Inr (s\<lparr>ram := m\<rparr>)"
      "heap_inv (coalesce (xs @ (p, k, True) # ys)) (s\<lparr>ram := m\<rparr>)"
      "\<forall>b \<in> set bs. \<forall>z. in_payload b z \<longrightarrow> m z = ram s z"
    by blast
  have others: "b \<noteq> (p, k, False)" if "b \<in> set xs \<union> set ys" for b
  proof -
    have "sorted_wrt before (xs @ (p, k, False) # ys)"
      using blocks_sorted [OF heap_inv_parts(8) [OF inv] place_simps(1)] by (simp add: bs)
    then show ?thesis using that by (auto simp: sorted_wrt_append before_def)
  qed
  have alloc: "{b \<in> set (coalesce (xs @ (p, k, True) # ys)). \<not> blk_free b}
      = {b \<in> set bs. \<not> blk_free b} - {(p, k, False)}"
    unfolding coalesce_allocated using others by (auto simp: bs)
  have inj: "inj_on blk_region {b \<in> set bs. \<not> blk_free b}"
    by (rule inj_onI) (use blk_region_inject [OF inv] in \<open>auto simp: blk_region_def\<close>)
  have "live (s\<lparr>ram := m\<rparr>) = live s - {(q, k)}"
  proof -
    have "blk_region ` ({b \<in> set bs. \<not> blk_free b} - {(p, k, False)})
        = blk_region ` {b \<in> set bs. \<not> blk_free b} - blk_region ` {(p, k, False)}"
      using p(1) by (intro inj_on_image_set_diff [OF inj]) auto
    then show ?thesis unfolding live_eq [OF m(2)] live_eq [OF inv] alloc
      by (simp add: blk_region_def p(2))
  qed
  moreover have "\<forall>r \<in> live s. \<forall>z. in_region r z \<longrightarrow> m z = ram s z"
    using m(3) in_region_payload [OF inv] by (auto simp: live_eq [OF inv])
  ultimately show ?thesis using m(1,2) p(2) by (auto simp: heap_ok_def)
qed

interpretation kheap: allocator heap_ok live heap_safe ram poke malloc heap_free
proof
  show "\<not> in_region r' z"
    if ok: "heap_ok s" and r: "r \<in> live s" "r' \<in> live s" "r \<noteq> r'" "in_region r z" for s r r' z
  proof -
    from ok obtain bs where inv: "heap_inv bs s" by (auto simp: heap_ok_def)
    obtain b c where b: "b \<in> set bs" "r = blk_region b" "c \<in> set bs" "r' = blk_region c"
      "\<not> blk_free b" "\<not> blk_free c"
      using r(1,2) by (auto simp: live_eq [OF inv])
    then have "b \<noteq> c" using r(3) by auto
    from blocks_differ [OF inv b(1,3) this] show ?thesis
      using r(4) in_region_payload [OF inv b(1,5)] in_region_payload [OF inv b(3,6)]
      by (auto simp: b(2,4) before_def in_payload_def)
  qed
  show "heap_ok (poke z c s) \<and> live (poke z c s) = live s"
    if ok: "heap_ok s" and r: "r \<in> live s" "in_region r z" for s r z c
  proof -
    from ok obtain bs where inv: "heap_inv bs s" by (auto simp: heap_ok_def)
    obtain b where b: "b \<in> set bs" "r = blk_region b" "\<not> blk_free b" using r(1) by (auto simp: live_eq [OF inv])
    then have "heap_inv bs (poke z c s)"
      using heap_inv_poke [OF inv b(1)] in_region_payload [OF inv b(1,3)] r(2) by simp
    then show ?thesis using live_eq [OF inv] live_eq by (auto simp: heap_ok_def)
  qed
  show "ram (poke z c s) = (ram s)(z := c)" for z c s by (simp add: poke_def)
  show "\<exists>p t. malloc n s = Inr (p, t)" if "heap_safe n s" for s n
    using that malloc_cases unfolding heap_safe_def by metis
  show "t = s" if safe: "heap_safe n s" and mal: "malloc n s = Inr (0, t)" for s n t
  proof -
    from safe obtain bs where inv: "heap_inv bs s" "safe_request n bs" by (auto simp: heap_safe_def)
    then show ?thesis by (cases rule: malloc_cases) (use mal in auto)
  qed
qed (use malloc_live free_live in blast)+

end
