(* ===== verification/Heap_Theorems.thy ===== *)
theory Heap_Theorems
  imports Heap_Contract
begin

text \<open>
  The properties of the kernel heap: the first blocks, the results of \<^verbatim>\<open>malloc\<close>, \<^verbatim>\<open>calloc\<close> and
  \<^verbatim>\<open>free\<close> on a consistent heap, and what holds in every run of these calls and of writes of
  the clients into their regions.
\<close>

section \<open>The first blocks\<close>

definition first_size :: u32 where "first_size = TAIL - HEAD - sizeof_block_t"

lemma first_block [simp]:
  "FIRST + 16 + first_size = END" "unat first_size = 0x7FFFFD4"
  by (simp_all add: first_size_def FIRST_def TAIL_def END_def HEAD_def HEAP_SPACE_def HEAP_SIZE_def
      sizeof_heap_t_def sizeof_block_t_def)

lemma heap_fields_write:
  assumes "hdr a"
  shows "heap_head (write_block a b m) HEAP_SPACE = heap_head m HEAP_SPACE"
    and "heap_tail (write_block a b m) HEAP_SPACE = heap_tail m HEAP_SPACE"
  using heap_fields_only [of "{a}" m "write_block a b m"] assms only_headers_step(5) [of "{a}" m m a b]
  by simp_all

lemma init_heap_blocks_inv: "heap_inv [(FIRST, first_size, True)] (init_heap_blocks s)"
proof -
  define m1 where "m1 = store32 (store32 (store32 (ram s) HEAP_SPACE HEAP_SPACE) (HEAP_SPACE + 4) HEAD)
    (HEAP_SPACE + 8) TAIL"
  define m2 where "m2 = write_block HEAD \<lparr>p_prev = 0, b_size = 0, b_free = 0, p_next = FIRST\<rparr> m1"
  define m3 where "m3 = write_block FIRST \<lparr>p_prev = HEAD, b_size = first_size, b_free = 1, p_next = TAIL\<rparr> m2"
  define m4 where "m4 = write_block TAIL \<lparr>p_prev = FIRST, b_size = 0, b_free = 0, p_next = 0\<rparr> m3"
  have s: "init_heap_blocks s = s\<lparr>heap_ptr := HEAP_SPACE, ram := m4\<rparr>"
    by (simp add: init_heap_blocks_def Let_def m4_def m3_def m2_def m1_def first_size_def
        HEAD_def [symmetric] FIRST_def [symmetric] TAIL_def [symmetric] BLOCK_FREE_def BLOCK_ALLOCATED_def)
  have al: "aligned4 HEAP_SPACE" "aligned4 (HEAP_SPACE + 4)" "aligned4 (HEAP_SPACE + 8)"
    by (simp_all add: aligned4_def HEAP_SPACE_def)
  have h: "heap_head m1 HEAP_SPACE = HEAD" "heap_tail m1 HEAP_SPACE = TAIL"
    using al by (simp_all add: heap_head_def heap_tail_def m1_def)
  have ap: "apart HEAD FIRST" "apart HEAD TAIL" "apart FIRST TAIL" "apart FIRST HEAD"
    "apart TAIL HEAD" "apart TAIL FIRST" by (simp_all add: apart_def)
  have r: "read_block m4 HEAD = \<lparr>p_prev = 0, b_size = 0, b_free = 0, p_next = FIRST\<rparr>"
    "read_block m4 FIRST = \<lparr>p_prev = HEAD, b_size = first_size, b_free = 1, p_next = TAIL\<rparr>"
    "read_block m4 TAIL = \<lparr>p_prev = FIRST, b_size = 0, b_free = 0, p_next = 0\<rparr>"
    unfolding m4_def m3_def m2_def by (simp_all only: read_write_block hdr_sentinels ap)
  have "heap_head m4 HEAP_SPACE = HEAD" "heap_tail m4 HEAP_SPACE = TAIL"
    by (simp_all add: m4_def m3_def m2_def heap_fields_write h)
  then show ?thesis by (simp add: s heap_inv_def r fits_def link_def)
qed

lemma first_pick: "worst_pick (hd [b]) (tl [b]) = b"
  by simp

lemma ALIGN_SIZE_no_carry: "unat (ALIGN_SIZE n) \<le> 4294967288"
  using ALIGN_SIZE_mod [of n] unat_u32_less [of "ALIGN_SIZE n"] by presburger

text \<open>C12: On a consistent heap malloc returns. Either it returns NULL and changes nothing, and
  every free block is too small or the first block is allocated and larger than every free
  one; or it returns the contents of a largest free block of at least the aligned size, that
  block is split or taken whole, the heap stays consistent, and the contents of all other
  blocks stay. The request must not fall within 32 bytes of the size of the last block.\<close>
theorem malloc_spec:
  assumes "heap_inv bs s" and "safe_request n bs"
  shows "\<exists>q t. malloc n s = Inr (q, t) \<and>
    (q = 0 \<and> t = s \<and>
      ((\<forall>b \<in> set bs. blk_free b \<longrightarrow> blk_size b < ALIGN_SIZE n) \<or>
       \<not> blk_free (hd bs) \<and> (\<forall>b \<in> set bs. blk_free b \<longrightarrow> blk_size b < blk_size (hd bs)))
    \<or> (\<exists>xs p sz ys. bs = xs @ (p, sz, True) # ys \<and> q = p + 16 \<and> q \<noteq> 0 \<and> ALIGN_SIZE n \<le> sz \<and>
        (\<forall>b \<in> set bs. blk_free b \<longrightarrow> blk_size b \<le> sz) \<and>
        heap_inv (xs @ carve p (ALIGN_SIZE n) sz @ ys) t \<and>
        (\<forall>b \<in> set xs \<union> set ys. \<forall>z. in_payload b z \<longrightarrow> ram t z = ram s z)))"
proof -
  obtain b0 cs where bs: "bs = b0 # cs" using assms by (cases bs) (auto simp: heap_inv_def)
  note W = worst_pick_spec [of b0 cs]
  from assms show ?thesis
  proof (cases rule: malloc_cases)
    case (none p sz f)
    then have "(\<forall>b \<in> set bs. blk_free b \<longrightarrow> blk_size b < ALIGN_SIZE n) \<or>
       \<not> blk_free b0 \<and> (\<forall>b \<in> set bs. blk_free b \<longrightarrow> blk_size b < blk_size b0)"
    proof (cases f)
      case True
      then have "sz < ALIGN_SIZE n" using none(2) by simp
      then have "\<forall>b \<in> set bs. blk_free b \<longrightarrow> blk_size b < ALIGN_SIZE n"
        using W none(1) by (simp add: bs) (meson le_less_trans)
      then show ?thesis by (rule disjI1)
    next
      case False
      then have "\<not> blk_free (worst_pick b0 cs)" using none(1) by (simp add: bs)
      from worst_pick_not_free [OF this] show ?thesis by (simp add: bs)
    qed
    then show ?thesis using none(3) by (auto simp: bs)
  next
    case (some xs p sz ys m)
    have "\<forall>b \<in> set bs. blk_free b \<longrightarrow> blk_size b \<le> sz"
      using W some(1) by (auto simp: bs)
    then show ?thesis
      by (intro exI [of _ "p + 16"] exI [of _ "s\<lparr>ram := m\<rparr>"] conjI some(5) disjI2
          exI [of _ xs] exI [of _ p] exI [of _ sz] exI [of _ ys]) (use some in auto)
  qed
qed

theorem malloc_spec_witness:
  "\<exists>q t. malloc 100 (init_heap_blocks zero_kmem) = Inr (q, t) \<and> q \<noteq> 0"
proof -
  have "safe_request 100 [(FIRST, first_size, True)]"
    by (simp add: safe_request_def ALIGN_SIZE_def)
  from malloc_spec [OF init_heap_blocks_inv this, of zero_kmem] show ?thesis
    by (auto simp: ALIGN_SIZE_def word_less_nat_alt)
qed

text \<open>When the first block of the heap is allocated and larger than every free block,
  malloc returns NULL for every request, also for one that a free block could serve.\<close>
theorem malloc_starves:
  assumes "heap_inv ((p, sz, False) # bs) s" and "\<forall>b \<in> set bs. blk_free b \<longrightarrow> blk_size b < sz"
  shows "malloc n s = Inr (0, s)"
proof -
  have "worst_pick (p, sz, False) bs = (p, sz, False)"
    by (rule worst_pick_alloc) (use assms(2) in simp)
  then show ?thesis using malloc_blocks(1) [OF assms(1), of p sz False n] by simp
qed

text \<open>Sixty-four MiB from the fresh heap: what is left is smaller than the first block.\<close>

lemma big_request:
  obtains t where "malloc 0x4000000 (init_heap_blocks s) = Inr (FIRST + 16, t)"
    "heap_inv [(FIRST, 0x4000000, False), (FIRST + 16 + 0x4000000, first_size - 0x4000000 - 16, True)] t"
proof -
  have al: "ALIGN_SIZE 0x4000000 = 0x4000000" by (simp add: ALIGN_SIZE_def)
  have "safe_request 0x4000000 [(FIRST, first_size, True)]" by (simp add: safe_request_def al)
  from malloc_blocks(2) [OF init_heap_blocks_inv first_pick _ _ this, of s]
  obtain m where m: "malloc 0x4000000 (init_heap_blocks s) = Inr (FIRST + 16, (init_heap_blocks s)\<lparr>ram := m\<rparr>)"
    "heap_inv (carve FIRST (ALIGN_SIZE 0x4000000) first_size) ((init_heap_blocks s)\<lparr>ram := m\<rparr>)"
    by (auto simp: al word_le_nat_alt Cons_eq_append_conv)
  have "carve FIRST (ALIGN_SIZE 0x4000000) first_size
      = [(FIRST, 0x4000000, False), (FIRST + 16 + 0x4000000, first_size - 0x4000000 - 16, True)]"
    by (simp add: carve_def al word_le_nat_alt)
  then show thesis using that m by simp
qed

theorem malloc_starves_witness:
  "\<exists>q t. malloc 0x4000000 (init_heap_blocks zero_kmem) = Inr (q, t) \<and> q \<noteq> 0 \<and> malloc 8 t = Inr (0, t)"
proof -
  obtain t where t: "malloc 0x4000000 (init_heap_blocks zero_kmem) = Inr (FIRST + 16, t)"
    "heap_inv [(FIRST, 0x4000000, False), (FIRST + 16 + 0x4000000, first_size - 0x4000000 - 16, True)] t"
    by (rule big_request)
  have "malloc 8 t = Inr (0, t)"
    by (rule malloc_starves [OF t(2)])
      (simp add: word_less_nat_alt first_size_def TAIL_def HEAD_def HEAP_SPACE_def HEAP_SIZE_def
        sizeof_heap_t_def sizeof_block_t_def)
  moreover have "FIRST + 16 \<noteq> 0"
    by (simp add: FIRST_def HEAD_def HEAP_SPACE_def sizeof_heap_t_def sizeof_block_t_def)
  ultimately show ?thesis using t(1) by blast
qed

text \<open>On the fresh heap a request of 0x7FFFFD0 bytes succeeds, and the returned region
  contains the header of the right sentinel.\<close>
theorem malloc_overruns_heap:
  "\<exists>t. malloc 0x7FFFFD0 (init_heap_blocks s) = Inr (FIRST + 16, t) \<and>
    in_region (FIRST + 16, 0x7FFFFD0) (heap_tail (ram (init_heap_blocks s)) HEAP_SPACE)"
proof -
  note P = heap_inv_parts [OF init_heap_blocks_inv [of s]]
  have al: "ALIGN_SIZE 0x7FFFFD0 = 0x7FFFFD0" by (simp add: ALIGN_SIZE_def)
  have fs: "first_size = 0x7FFFFD4"
    by (simp add: first_size_def TAIL_def HEAD_def HEAP_SPACE_def HEAP_SIZE_def sizeof_heap_t_def
        sizeof_block_t_def)
  have "find_worst_fit (ram (init_heap_blocks s)) HEAP_SPACE 0x7FFFFD0 = Some FIRST"
    using find_worst_fit_blocks [OF init_heap_blocks_inv [of s], of "0x7FFFFD0"] by (simp add: fs)
  moreover have "FIRST \<noteq> 0" by (rule hdr_nonzero) simp
  moreover have "unat (FIRST + 16) = 0xE800002C" by (simp add: u32_add_nowrap)
  ultimately show ?thesis
    using P(1,2,4) by (auto simp: malloc_def al Let_def sizeof_block_t_def in_region_def)
qed

lemma low_bits_cleared: "take_bit 3 (w :: u32) AND NOT (mask 3) = 0"
  by (rule bit_eqI) (auto simp: bit_simps)

lemma ALIGN_SIZE_wraps:
  assumes "4294967288 < unat n"
  shows "ALIGN_SIZE n = 0"
proof -
  have u: "unat (n + 7) = (unat n + 7) mod 4294967296" by (simp add: unat_word_ariths)
  have "(unat n + 7) mod 4294967296 = unat n + 7 - 4294967296"
    using assms unat_u32_less [of n] by (subst le_mod_geq) (simp_all del: unat_u32_less)
  then have "unat (n + 7) < 8" unfolding u using unat_u32_less [of n] by linarith
  then have "take_bit 3 (unat (n + 7)) = unat (n + 7)" by (intro take_bit_nat_eq_self) simp
  then have "unat (take_bit 3 (n + 7)) = unat (n + 7)" by (simp only: unsigned_take_bit_eq)
  then have t: "take_bit 3 (n + 7) = n + 7" by (rule u32_eqI)
  have m: "(7 :: u32) = mask 3" by (simp add: mask_eq_exp_minus_1)
  have s: "n + 8 - 1 = n + 7" by simp
  have "(n + 7) AND NOT (mask 3) = 0" using low_bits_cleared [of "n + 7"] unfolding t .
  then have "(n + 7) AND NOT 7 = 0" by (simp only: m [symmetric])
  then show ?thesis unfolding ALIGN_SIZE_def s .
qed

text \<open>A request above 0xFFFFFFF8 bytes wraps to size zero: malloc behaves as for 0 bytes,
  and on the fresh heap returns a region of no bytes.\<close>
theorem malloc_size_wraps:
  assumes "0xFFFFFFF8 < n"
  shows "malloc n s = malloc 0 s \<and>
    (\<exists>t. malloc n (init_heap_blocks s) = Inr (FIRST + 16, t) \<and> live t = {(FIRST + 16, 0)})"
proof -
  have n: "ALIGN_SIZE n = 0" using assms by (intro ALIGN_SIZE_wraps) (simp add: word_less_nat_alt)
  have n0: "ALIGN_SIZE 0 = 0" by (simp add: ALIGN_SIZE_def)
  have eq: "malloc n u = malloc 0 u" for u unfolding malloc_def n n0 by (rule refl)
  have "safe_request 0 [(FIRST, first_size, True)]" by (simp add: safe_request_def n0)
  from malloc_blocks(2) [OF init_heap_blocks_inv first_pick _ _ this, of s]
  obtain m where m: "malloc 0 (init_heap_blocks s) = Inr (FIRST + 16, (init_heap_blocks s)\<lparr>ram := m\<rparr>)"
    "heap_inv (carve FIRST 0 first_size) ((init_heap_blocks s)\<lparr>ram := m\<rparr>)"
    by (auto simp: n0 Cons_eq_append_conv)
  have "16 \<le> first_size" by (simp add: word_le_nat_alt)
  then have "carve FIRST 0 first_size = [(FIRST, 0, False), (FIRST + 16, first_size - 16, True)]"
    by (simp add: carve_def)
  then have "{b \<in> set (carve FIRST 0 first_size). \<not> blk_free b} = {(FIRST, 0, False)}" by auto
  then have "live ((init_heap_blocks s)\<lparr>ram := m\<rparr>) = {(FIRST + 16, 0)}"
    using live_eq [OF m(2)] by (simp add: blk_region_def)
  then show ?thesis using eq m(1) by auto
qed

theorem malloc_size_wraps_witness:
  "\<exists>t. malloc 0xFFFFFFFF (init_heap_blocks zero_kmem) = Inr (FIRST + 16, t) \<and> live t = {(FIRST + 16, 0)}"
  using malloc_size_wraps [of "0xFFFFFFFF" zero_kmem] by simp

section \<open>free\<close>

text \<open>C13: free of a pointer to the contents of a block marks the block free and merges it with
  free neighbours, keeps the heap consistent and the contents of all other blocks; for a
  block that is free already nothing changes in the block list; a pointer that belongs to no
  block is ignored.\<close>
theorem heap_free_spec:
  assumes "heap_inv (xs @ (p, sz, f) # ys) s"
  shows "\<exists>t. heap_free (p + 16) s = Inr t \<and> heap_inv (coalesce (xs @ (p, sz, True) # ys)) t \<and>
    (f \<longrightarrow> heap_inv (xs @ (p, sz, f) # ys) t) \<and>
    (\<forall>b \<in> set xs \<union> set ys. \<forall>z. in_payload b z \<longrightarrow> ram t z = ram s z) \<and>
    (\<forall>q. q - 16 \<noteq> HEAD \<and> q - 16 \<notin> blk_addr ` set (xs @ (p, sz, f) # ys) \<longrightarrow> heap_free q s = Inr s)"
proof -
  note P = heap_inv_parts [OF assms]
  obtain m where m: "heap_free (p + 16) s = Inr (s\<lparr>ram := m\<rparr>)"
    "heap_inv (coalesce (xs @ (p, sz, True) # ys)) (s\<lparr>ram := m\<rparr>)"
    "\<forall>b \<in> set (xs @ (p, sz, f) # ys). \<forall>z. in_payload b z \<longrightarrow> m z = ram s z"
    using heap_free_blocks [OF assms refl] by blast
  have "heap_free q s = Inr s"
    if "q - 16 \<noteq> HEAD" "q - 16 \<notin> blk_addr ` set (xs @ (p, sz, f) # ys)" for q
  proof -
    have "free_search (ram s) HEAP_SPACE (q - 16) (heap_head (ram s) HEAP_SPACE) = Some False"
      using free_search_heap [OF assms, of "q - 16"] that by (simp del: set_append)
    then show ?thesis using P(1) by (simp add: heap_free_def sizeof_block_t_def)
  qed
  moreover have "heap_inv (xs @ (p, sz, f) # ys) (s\<lparr>ram := m\<rparr>)" if f
    using m(2) that coalesce_id [of "xs @ (p, sz, True) # ys"] P(9) by simp
  ultimately show ?thesis using m by (intro exI [of _ "s\<lparr>ram := m\<rparr>"]) auto
qed

theorem heap_free_spec_witness:
  "\<exists>s t. malloc 0x4000000 (init_heap_blocks zero_kmem) = Inr (FIRST + 16, s) \<and>
    heap_free (FIRST + 16) s = Inr t \<and> heap_inv [(FIRST, first_size, True)] t"
proof -
  obtain s where s: "malloc 0x4000000 (init_heap_blocks zero_kmem) = Inr (FIRST + 16, s)"
    "heap_inv ([] @ (FIRST, 0x4000000, False) # [(FIRST + 16 + 0x4000000, first_size - 0x4000000 - 16, True)]) s"
    using big_request [of zero_kmem] by auto
  from heap_free_spec [OF s(2)] show ?thesis using s(1) by auto
qed

text \<open>C14: Freeing what malloc returned restores the list of blocks as it was before the
  request, and the contents of all allocated blocks. The heap is consistent, malloc returned
  a pointer other than NULL, and the request does not take the last block of the heap with
  fewer than 32 bytes to spare, where malloc hands out the bytes of the right sentinel.\<close>
theorem malloc_free_roundtrip:
  assumes "heap_inv bs s" and "safe_request n bs" and "malloc n s = Inr (q, t)" and "q \<noteq> 0"
  shows "\<exists>u. heap_free q t = Inr u \<and> heap_inv bs u \<and>
    (\<forall>b \<in> set bs. \<not> blk_free b \<longrightarrow> (\<forall>z. in_payload b z \<longrightarrow> ram u z = ram s z))"
  using assms(1,2)
proof (cases rule: malloc_cases)
  case none
  then show ?thesis using assms(3,4) by simp
next
  case (some xs p sz ys m)
  have t: "q = p + 16" "t = s\<lparr>ram := m\<rparr>" using some(5) assms(3) by simp_all
  define k rest where "k = (if ALIGN_SIZE n + 16 \<le> sz then ALIGN_SIZE n else sz)"
    and "rest = tl (carve p (ALIGN_SIZE n) sz)"
  have carve: "carve p (ALIGN_SIZE n) sz = (p, k, False) # rest"
    by (simp add: carve_def k_def rest_def)
  have inv: "heap_inv (xs @ (p, k, False) # (rest @ ys)) t"
    using some(6) by (simp add: carve t(2))
  from heap_free_blocks [OF inv refl] obtain m' where m':
    "heap_free (p + 16) t = Inr (t\<lparr>ram := m'\<rparr>)"
    "heap_inv (coalesce (xs @ (p, k, True) # rest @ ys)) (t\<lparr>ram := m'\<rparr>)"
    "\<forall>b \<in> set (xs @ (p, k, False) # rest @ ys). \<forall>z. in_payload b z \<longrightarrow> m' z = ram t z"
    by auto
  have "coalesce (xs @ (map (\<lambda>(x, s, f). (x, s, f \<or> x = p)) (carve p (ALIGN_SIZE n) sz)) @ ys) = bs"
    unfolding some(3) by (rule coalesce_carve) (use heap_inv_parts(9) [OF assms(1)] some(3) in simp)
  moreover have "map (\<lambda>(x, s, f). (x, s, f \<or> x = p)) (carve p (ALIGN_SIZE n) sz) = (p, k, True) # rest"
    by (simp add: carve_def k_def rest_def)
  ultimately have "heap_inv bs (t\<lparr>ram := m'\<rparr>)" using m'(2) by simp
  moreover have "m' z = ram s z" if "b \<in> set bs" "\<not> blk_free b" "in_payload b z" for b z
  proof -
    have b: "b \<in> set xs \<union> set ys" using that(1,2) by (auto simp: some(3))
    then have "m' z = ram t z" using m'(3) that(3) by auto
    also have "\<dots> = ram s z" using some(7) b that(3) by (simp add: t(2))
    finally show ?thesis .
  qed
  ultimately show ?thesis using m'(1) t(1) by (intro exI [of _ "t\<lparr>ram := m'\<rparr>"]) simp
qed

theorem malloc_free_roundtrip_witness:
  "\<exists>q t u. malloc 0x4000000 (init_heap_blocks zero_kmem) = Inr (q, t) \<and>
    heap_free q t = Inr u \<and> heap_inv [(FIRST, first_size, True)] u"
proof -
  obtain t where t: "malloc 0x4000000 (init_heap_blocks zero_kmem) = Inr (FIRST + 16, t)"
    by (rule big_request)
  have "safe_request 0x4000000 [(FIRST, first_size, True)]"
    by (simp add: safe_request_def ALIGN_SIZE_def)
  moreover have "FIRST + 16 \<noteq> 0"
    by (simp add: FIRST_def HEAD_def HEAP_SPACE_def sizeof_heap_t_def sizeof_block_t_def)
  ultimately show ?thesis
    using malloc_free_roundtrip [OF init_heap_blocks_inv _ t] t by blast
qed

section \<open>calloc\<close>

lemma fill_bytes_pokes:
  "fold (\<lambda>i. poke (p + word_of_nat i) c) [k..<k + n] s
    = s\<lparr>ram := fill_bytes (p + word_of_nat k) c n (ram s)\<rparr>"
proof (induction n arbitrary: k s)
  case (Suc n)
  have "[k..<k + Suc n] = k # [Suc k..<Suc k + n]" by (simp add: upt_conv_Cons del: upt_Suc)
  then have "fold (\<lambda>i. poke (p + word_of_nat i) c) [k..<k + Suc n] s
      = fold (\<lambda>i. poke (p + word_of_nat i) c) [Suc k..<Suc k + n] (poke (p + word_of_nat k) c s)"
    by (simp only: fold_simps)
  also have "\<dots> = s\<lparr>ram := fill_bytes (p + word_of_nat (Suc k)) c n ((ram s)(p + word_of_nat k := c))\<rparr>"
    unfolding Suc.IH by (simp add: poke_def)
  also have "p + word_of_nat (Suc k) = p + word_of_nat k + 1" by (simp add: algebra_simps)
  finally show ?case by (simp only: fill_bytes.simps)
qed simp

text \<open>A live region ends below the right sentinel, so its addresses do not wrap.\<close>

lemma live_bound:
  assumes "heap_ok s" "(q, k) \<in> live s"
  shows "unat q + unat k < unat TAIL" and "16 \<le> unat q"
proof -
  from assms(1) obtain bs where inv: "heap_inv bs s" by (auto simp: heap_ok_def)
  obtain b where b: "b \<in> set bs" "\<not> blk_free b" "(q, k) = blk_region b"
    using assms(2) by (auto simp: live_eq [OF inv])
  have "unat q = unat (blk_addr b) + 16" "k = blk_size b"
    using blk_region_addr [OF inv b(1)] b(3) by (auto simp: blk_region_def)
  then show "unat q + unat k < unat TAIL" "16 \<le> unat q"
    using allocated_end [OF inv b(1,2)] by simp_all
qed

lemma calloc_live:
  assumes "heap_safe (num * sz) s" and "unat (num * sz) \<le> 4294967288"
  shows "\<exists>q t. calloc num sz s = Inr (q, t) \<and>
    (q = 0 \<and> t = s \<or>
     q \<noteq> 0 \<and> heap_ok t \<and> (\<exists>k. num * sz \<le> k \<and> (q, k) \<notin> live s \<and> live t = insert (q, k) (live s)) \<and>
     (\<forall>i < unat (num * sz). ram t (q + word_of_nat i) = 0) \<and>
     (\<forall>r \<in> live s. \<forall>z. in_region r z \<longrightarrow> ram t z = ram s z))"
proof -
  define n where "n = num * sz"
  have ok: "heap_ok s" using assms(1) by (auto simp: heap_safe_def heap_ok_def)
  obtain q u where mal: "malloc n s = Inr (q, u)"
    using kheap.alloc_returns [OF ok assms(1)] by (auto simp: n_def)
  show ?thesis
  proof (cases "q = 0")
    case True
    then have "u = s" using kheap.alloc_null [OF ok] assms(1) mal by (simp add: n_def)
    then show ?thesis using True mal by (simp add: calloc_def n_def)
  next
    case False
    from kheap.alloc_region [OF ok _ mal False] assms(1) obtain k where
      u: "heap_ok u" "ALIGN_SIZE n \<le> k" "(q, k) \<notin> live s" "live u = insert (q, k) (live s)"
      and kept: "\<forall>r \<in> live s. \<forall>z. in_region r z \<longrightarrow> ram u z = ram s z"
      by (auto simp: n_def)
    have nk: "unat n \<le> unat k"
      using ALIGN_SIZE_bounds(1) [of n] assms(2) u(2) by (simp add: n_def word_le_nat_alt)
    have qk: "(q, k) \<in> live u" using u(4) by simp
    have end_q: "unat q + unat k \<le> 4294967295" using live_bound(1) [OF u(1) qk] by simp
    define t where "t = u\<lparr>ram := fill_bytes q 0 (unat n) (ram u)\<rparr>"
    have t: "fold (\<lambda>i. poke (q + word_of_nat i) 0) [0..<unat n] u = t"
      using fill_bytes_pokes [of q 0 0 "unat n" u] by (simp add: t_def)
    have ok_t: "heap_ok t \<and> live t = live u"
      using kheap.fill_ok [OF u(1) qk nk end_q, of 0] unfolding t .
    have byte: "ram t z = (if unat (z - q) < unat n then 0 else ram u z)" for z
      using fill_bytes_value [of "unat n" q 0 "ram u" z] by (simp add: t_def)
    have "ram t (q + word_of_nat i) = 0" if "i < unat n" for i
    proof -
      have "i < 4294967296" using that unat_u32_less [of n] by linarith
      then have "unat (word_of_nat i :: u32) = i" by (rule u32_of_nat)
      then show ?thesis using that by (simp add: byte)
    qed
    moreover have "ram t z = ram s z" if r: "r \<in> live s" "in_region r z" for r z
    proof -
      have "\<not> in_region (q, k) z"
        using kheap.regions_apart [OF u(1), of r "(q, k)" z] r u(3,4) by auto
      then have "\<not> unat (z - q) < unat n"
      proof (rule contrapos_nn)
        assume lt: "unat (z - q) < unat n"
        have "unat (q + (z - q)) = unat q + unat (z - q)"
          using lt nk end_q by (intro u32_add_nowrap) simp
        then show "in_region (q, k) z" using lt nk by (simp add: in_region_def)
      qed
      then show ?thesis using kept r by (simp add: byte)
    qed
    moreover have "calloc num sz s = Inr (q, t)"
      using mal False by (simp add: calloc_def n_def t_def)
    ultimately show ?thesis using ok_t u(3,4) nk False by (auto simp: n_def word_le_nat_alt)
  qed
qed

text \<open>C16: Let total be num * size as the code computes it, modulo 2^32. For a total of at most
  0xFFFFFFF8 that is a safe request on a consistent heap (it does not take the last block
  with fewer than 32 bytes to spare) calloc returns NULL and changes nothing, or a new
  region of at least total bytes, all of them zero, and leaves every live region unchanged.
  When the product wraps, the region is smaller than num * size.\<close>
theorem calloc_spec:
  assumes "heap_safe (num * sz) s" and "unat (num * sz) \<le> 4294967288"
  shows "\<exists>q t. calloc num sz s = Inr (q, t) \<and>
    (q = 0 \<and> t = s \<or>
     q \<noteq> 0 \<and> heap_ok t \<and> (\<exists>k. num * sz \<le> k \<and> (q, k) \<notin> live s \<and> live t = insert (q, k) (live s)) \<and>
     (\<forall>i < unat (num * sz). ram t (q + word_of_nat i) = 0) \<and>
     (\<forall>r \<in> live s. \<forall>z. in_region r z \<longrightarrow> ram t z = ram s z))"
  by (rule calloc_live [OF assms])

theorem calloc_spec_witness:
  "\<exists>q t. calloc 10 4 (init_heap_blocks zero_kmem) = Inr (q, t) \<and> (q \<noteq> 0 \<longrightarrow> ram t q = 0)"
proof -
  have "safe_request 40 [(FIRST, first_size, True)]"
    by (simp add: safe_request_def ALIGN_SIZE_def)
  then have "heap_safe (10 * 4) (init_heap_blocks zero_kmem)"
    using init_heap_blocks_inv by (auto simp: heap_safe_def)
  from calloc_spec [OF this] obtain q t where c: "calloc 10 4 (init_heap_blocks zero_kmem) = Inr (q, t)"
    "q = 0 \<and> t = init_heap_blocks zero_kmem \<or> (\<forall>i < 40. ram t (q + word_of_nat i) = 0)"
    by auto
  have "q \<noteq> 0 \<longrightarrow> ram t q = 0" using c(2) spec [where P = "\<lambda>i. i < 40 \<longrightarrow> ram t (q + word_of_nat i) = 0" and x = 0] by auto
  then show ?thesis using c(1) by blast
qed

section \<open>Runs\<close>

text \<open>
  The callers of the heap: requests, releases of live regions, and stores into live regions;
  \<open>w\<close> collects the regions a run has stored into or released.
\<close>

inductive heap_run :: "kmem \<Rightarrow> region set \<Rightarrow> kmem \<Rightarrow> bool" for s where
  start: "heap_run s {} s"
| request: "heap_run s w t \<Longrightarrow> heap_safe n t \<Longrightarrow> malloc n t = Inr (q, u) \<Longrightarrow> heap_run s w u"
| give_back: "heap_run s w t \<Longrightarrow> (q, k) \<in> live t \<Longrightarrow> heap_free q t = Inr u
    \<Longrightarrow> heap_run s (insert (q, k) w) u"
| store: "heap_run s w t \<Longrightarrow> r \<in> live t \<Longrightarrow> in_region r z \<Longrightarrow> heap_run s (insert r w) (poke z c t)"

definition kept :: "region set \<Rightarrow> kmem \<Rightarrow> kmem \<Rightarrow> bool" where
  "kept R s t \<longleftrightarrow> (\<forall>r \<in> R. r \<in> live t \<and> (\<forall>z. in_region r z \<longrightarrow> ram t z = ram s z))"

lemma kept_trans: "kept R s t \<Longrightarrow> kept R' t u \<Longrightarrow> R'' \<subseteq> R \<Longrightarrow> R'' \<subseteq> R' \<Longrightarrow> kept R'' s u"
  unfolding kept_def by (metis subsetD)

lemma kept_live: "kept R s t \<Longrightarrow> R \<subseteq> live t"
  unfolding kept_def by blast

lemma heap_run_ok:
  assumes "heap_run s w t" "heap_ok s"
  shows "heap_ok t \<and> kept (live s - w) s t"
  using assms
proof (induction rule: heap_run.induct)
  case start
  then show ?case by (simp add: kept_def)
next
  case (request w t n q u)
  then have t: "heap_ok t" "kept (live s - w) s t" by simp_all
  show ?case
  proof (cases "q = 0")
    case True
    then show ?thesis using kheap.alloc_null [OF t(1) request(2)] request(3) t by auto
  next
    case False
    note A = kheap.alloc_region [OF t(1) request(2,3) False]
    have "kept (live t) t u" using A by (auto simp: kept_def)
    then have "kept (live s - w) s u"
      by (rule kept_trans [OF t(2)]) (use kept_live [OF t(2)] in auto)
    then show ?thesis using A by simp
  qed
next
  case (give_back w t q k u)
  then have t: "heap_ok t" "kept (live s - w) s t" by simp_all
  note A = kheap.release_region [OF t(1) give_back(2)]
  have u: "heap_ok u" "kept (live t - {(q, k)}) t u"
    using A give_back(3) by (auto simp: kept_def)
  have "kept (live s - insert (q, k) w) s u"
    by (rule kept_trans [OF t(2) u(2)]) (use kept_live [OF t(2)] in auto)
  then show ?case using u(1) by simp
next
  case (store w t r z c)
  then have t: "heap_ok t" "kept (live s - w) s t" by simp_all
  have "\<not> in_region r' z" if "r' \<in> live t" "r' \<noteq> r" for r'
    using kheap.regions_apart [OF t(1) store(2) that(1), of z] that(2) store(3) by auto
  then have "kept (live t - {r}) t (poke z c t)"
    using kheap.write_ok [OF t(1) store(2,3), of c] by (auto simp: kept_def kheap.write_bytes)
  then have "kept (live s - insert r w) s (poke z c t)"
    by (rule kept_trans [OF t(2)]) (use kept_live [OF t(2)] in auto)
  then show ?case using kheap.write_ok [OF t(1) store(2,3), of c] by simp
qed

text \<open>C15: In every run of malloc, free and stores of callers into live regions whose requests
  are safe, a live region that the run neither freed nor stored into is still live with its
  contents; and a further safe request that does not return NULL gives a region of at least
  the aligned size that overlaps no live one and changes none of them. Callers free only
  live regions and store only into them. A request is safe when it does not take the last
  block of the heap with fewer than 32 bytes to spare: there malloc hands out the bytes of
  the right sentinel, and nothing is claimed.\<close>
theorem heap_run_isolates:
  assumes "heap_run s w t" and "heap_ok s" and "heap_safe n t" and "malloc n t = Inr (q, u)" and "q \<noteq> 0"
  shows "(\<forall>r \<in> live s - w. r \<in> live t \<and> (\<forall>z. in_region r z \<longrightarrow> ram t z = ram s z)) \<and>
    (\<exists>k. (q, k) \<in> live u \<and> ALIGN_SIZE n \<le> k \<and>
      (\<forall>r \<in> live t. r \<in> live u \<and> (\<forall>z. in_region r z \<longrightarrow> \<not> in_region (q, k) z \<and> ram u z = ram t z)))"
proof -
  have run: "heap_ok t" "\<forall>r \<in> live s - w. r \<in> live t \<and> (\<forall>z. in_region r z \<longrightarrow> ram t z = ram s z)"
    using heap_run_ok [OF assms(1,2)] unfolding kept_def by blast+
  from kheap.alloc_region [OF run(1) assms(3-5)] obtain k where
    u: "heap_ok u" "ALIGN_SIZE n \<le> k" "(q, k) \<notin> live t" "live u = insert (q, k) (live t)"
      "\<forall>r \<in> live t. \<forall>z. in_region r z \<longrightarrow> ram u z = ram t z"
    by blast
  have "\<not> in_region (q, k) z" if "r \<in> live t" "in_region r z" for r z
    using kheap.regions_apart [OF u(1), of r "(q, k)" z] that u(3,4) by auto
  then show ?thesis using run(2) u by auto
qed

theorem heap_run_isolates_witness:
  "\<exists>t q u. heap_run (init_heap_blocks zero_kmem) {} t \<and> malloc 8 t = Inr (q, u) \<and> q \<noteq> 0 \<and>
    (\<exists>k. (q, k) \<in> live u)"
proof -
  let ?s = "init_heap_blocks zero_kmem"
  have al: "ALIGN_SIZE 8 = 8" by (simp add: ALIGN_SIZE_def)
  have "safe_request 8 [(FIRST, first_size, True)]" by (simp add: safe_request_def al)
  then have safe: "heap_safe 8 ?s" "heap_ok ?s"
    using init_heap_blocks_inv by (auto simp: heap_safe_def heap_ok_def)
  have sr: "safe_request 8 [(FIRST, first_size, True)]" by (simp add: safe_request_def al)
  from malloc_blocks(2) [OF init_heap_blocks_inv first_pick _ _ sr, of zero_kmem]
  obtain u where u: "malloc 8 ?s = Inr (FIRST + 16, u)"
    by (auto simp: al word_le_nat_alt)
  have q: "FIRST + 16 \<noteq> 0"
    by (simp add: FIRST_def HEAD_def HEAP_SPACE_def sizeof_heap_t_def sizeof_block_t_def)
  show ?thesis
    using heap_run_isolates [OF heap_run.start safe(2,1) u q] heap_run.start [of ?s] u q by blast
qed

end
