(* ===== verification/Heap_Init.thy ===== *)
theory Heap_Init
  imports Heap_Theorems Page_Pool
begin

text \<open>
  \<^verbatim>\<open>init_heap\<close> (\<^verbatim>\<open>src/src/memory/kernel_heap.c\<close>) as the composition of the page allocator, the
  virtual memory manager and the heap: the three share one memory, and each keeps the
  invariants of the others because their structures lie apart.
\<close>

section \<open>Where the structures lie\<close>

text \<open>
  The boot code places the page bitmap and the page stack behind the window of the page
  tables. Below the heap and the window nothing of the pool is stored.
\<close>

definition pool_above :: "kmem \<Rightarrow> bool" where
  "pool_above s \<longleftrightarrow> 0xF8401000 \<le> unat (bitmap_address s) \<and> 0xF8401000 \<le> unat (stack_start s)"

lemma below_pool:
  assumes "pool_above s" "aligned4 a" "unat a < 0xF8401000"
  shows "clear_of N C s a"
  using assms by (simp add: pool_above_def clear_of_def)

definition same_words :: "(nat \<Rightarrow> bool) \<Rightarrow> kmem \<Rightarrow> kmem \<Rightarrow> bool" where
  "same_words P s t \<longleftrightarrow> (\<forall>a. aligned4 a \<and> P (unat a) \<longrightarrow> load32 (ram t) a = load32 (ram s) a)"

lemma same_wordsD: "same_words P s t \<Longrightarrow> aligned4 a \<Longrightarrow> P (unat a) \<Longrightarrow> load32 (ram t) a = load32 (ram s) a"
  by (simp add: same_words_def)

section \<open>Memory that a component does not read\<close>

lemma paging_frame:
  assumes "same_words (\<lambda>n. 0xF8000000 \<le> n \<and> n < 0xF8401000) s t"
  shows "paging_wf t = paging_wf s" and "va_ok v \<Longrightarrow> getPhysicalAddress v t = getPhysicalAddress v s"
proof -
  have w: "load32 (ram t) (word_at directory n) = load32 (ram s) (word_at directory n)" if "n < 1049600" for n
    using window_addr [OF that] by (intro same_wordsD [OF assms]) (simp_all add: in_window_def)
  have "page_word (ram t) n = page_word (ram s) n" if "n < 1048576" for n
    using w that by (simp add: page_word_def)
  moreover have "dir_word (ram t) p = dir_word (ram s) p" if "p < 1024" for p
    using w that by (simp add: dir_word_def)
  ultimately show "paging_wf t = paging_wf s"
    "va_ok v \<Longrightarrow> getPhysicalAddress v t = getPhysicalAddress v s"
    by (simp_all add: paging_wf_def getPhysicalAddress_word page_no_less page_no_dir less_mult_imp_div_less)
qed

lemma pool_frame:
  assumes inv: "pool_inv N C s" and above: "pool_above s"
    and eq: "bitmap_address t = bitmap_address s" "stack_start t = stack_start s"
      "stackpointer t = stackpointer s"
    and words: "same_words (\<lambda>n. 0xF8401000 \<le> n) s t"
  shows "ms_list t = ms_list s" and "pool_inv N C t"
    and "unat n < N \<Longrightarrow> bitmap_get t n = bitmap_get s n"
proof -
  have area: "page_area N C s" using inv by (simp add: pool_inv_def)
  then have wf: "aligned4 (bitmap_address s)" "aligned4 (stack_start s)" "ms_depth s \<le> C"
    by (simp_all add: page_area_def bitmap_wf_def ms_wf_def)
  have d: "ms_depth t = ms_depth s" by (simp add: ms_depth_def eq)
  have "ms_slot t j = ms_slot s j" if "j < ms_depth s" for j
  proof -
    have "unat (word_at (stack_start s) (Suc j)) = unat (stack_start s) + 4 * Suc j"
      using that wf(3) by (intro page_area_slot [OF area]) simp
    then show ?thesis
      using wf above same_wordsD [OF words, of "word_at (stack_start s) (Suc j)"]
      by (simp add: ms_slot_def eq pool_above_def)
  qed
  then show list: "ms_list t = ms_list s" using d by (simp add: ms_list_def)
  have get: "bitmap_get t n = bitmap_get s n" if "unat n < N" for n
    using wf above page_area_index(1) [OF area that] same_wordsD [OF words, of "word_at (bitmap_address s) (unat n div 16)"]
    by (simp add: bitmap_get_def Let_def bitmap_index eq pool_above_def)
  then show "unat n < N \<Longrightarrow> bitmap_get t n = bitmap_get s n" .
  have "page_area N C t" using area d by (simp add: page_area_def bitmap_wf_def ms_wf_def eq)
  then show "pool_inv N C t" using inv get by (auto simp: pool_inv_def list pool_page_def)
qed

section \<open>One page of the heap\<close>

text \<open>What the memory modules agree on while the heap is mapped.\<close>

definition modules_inv :: "nat \<Rightarrow> nat \<Rightarrow> kmem \<Rightarrow> bool" where
  "modules_inv N C s \<longleftrightarrow> pool_inv N C s \<and> pool_above s \<and> paging_wf s"

lemma init_heap_page_nil:
  assumes "modules_inv N C s" "ms_list s = []"
  shows "init_heap_page i s = Inl (KPanic ''src/memory/physical_memory_stack.c'' 20)"
proof -
  have "ms_wf s" using assms by (simp add: modules_inv_def pool_inv_def page_area_def)
  with assms show ?thesis by (simp add: init_heap_page_def k_alloc_def ms_pop_empty)
qed

lemma k_alloc_fields:
  assumes "bitmap_wf s" "k_alloc st s = Inr (x, t)"
  shows "bitmap_address t = bitmap_address s" and "stack_start t = stack_start s"
proof -
  from assms(2) obtain u where u: "ms_pop s = Inr (x, u)" "bitmap_set (PAGE x) st u = Inr t"
    by (auto simp: k_alloc_def res_bind_eq_Inr)
  then have f: "bitmap_address u = bitmap_address s" "stack_start u = stack_start s"
    by (auto simp: ms_pop_def split: if_splits)
  then have "bitmap_wf u" using assms(1) by (simp add: bitmap_wf_def)
  from bitmap_set_frame(1,2) [OF this u(2)] f
  show "bitmap_address t = bitmap_address s" "stack_start t = stack_start s" by simp_all
qed

lemma heap_page_ok:
  assumes "va_ok i"
  shows "va_ok (HEAP_SPACE + i)"
proof -
  have "unat (HEAP_SPACE + i) mod 4096 = (unat HEAP_SPACE + unat i) mod 4096"
    by (simp add: unat_word_ariths mod_mod_cancel)
  moreover have "unat i mod 4096 = 0" "unat HEAP_SPACE mod 4096 = 0"
    using assms by (simp_all add: va_ok_def page_aligned_nat HEAP_SPACE_def)
  ultimately show ?thesis by (simp add: va_ok_def page_aligned_nat mod_add_eq [symmetric])
qed

lemma init_heap_page_cons:
  assumes inv: "modules_inv N C s" and list: "ms_list s = x # xs" and i: "va_ok i"
  shows "\<exists>t. init_heap_page i s = Inr t \<and> modules_inv N C t \<and> ms_list t = xs \<and>
    (\<forall>n. unat n < N \<longrightarrow> bitmap_get t n = (if n = PAGE x then SYSTEM else bitmap_get s n)) \<and>
    (\<forall>v. va_ok v \<longrightarrow> getPhysicalAddress v t = (if v = HEAP_SPACE + i then Inr x else getPhysicalAddress v s)) \<and>
    same_words (\<lambda>n. n < 0xE8000000) s t"
proof -
  have parts: "pool_inv N C s" "pool_above s" "paging_wf s" using inv by (simp_all add: modules_inv_def)
  have x: "va_ok x" using parts(1) list by (simp add: pool_inv_def pool_page_def va_ok_def)
  from k_alloc_cons [OF parts(1) list, of SYSTEM] obtain u where
    u: "k_alloc SYSTEM s = Inr (x, u)" "pool_inv N C u" "ms_list u = xs"
      "\<forall>n. bitmap_get u n = (if n = PAGE x then SYSTEM else bitmap_get s n)"
      "\<forall>a. clear_of N C s a \<longrightarrow> load32 (ram u) a = load32 (ram s) a" by auto
  have "bitmap_wf s" using parts(1) by (simp add: pool_inv_def page_area_def)
  from k_alloc_fields [OF this u(1)] have above: "pool_above u" using parts(2) by (simp add: pool_above_def)
  have "same_words (\<lambda>n. 0xF8000000 \<le> n \<and> n < 0xF8401000) s u"
    using u(5) below_pool [OF parts(2)] by (simp add: same_words_def)
  note pg = paging_frame [OF this]
  let ?t = "u\<lparr>ram := write_entry x (HEAP_SPACE + i) (ram u)\<rparr>"
  have t: "init_heap_page i s = Inr ?t"
    using u(1) map_page_write [OF x heap_page_ok [OF i]] by (simp add: init_heap_page_def)
  have "same_words (\<lambda>n. 0xF8401000 \<le> n) u ?t"
    by (auto simp: same_words_def in_window_def intro: write_entry_outside)
  note pool = pool_frame [OF u(2) above _ _ _ this, simplified]
  have "paging_wf ?t" using pg(1) parts(3) by (simp add: write_entry_wf)
  moreover have "pool_above ?t" using above by (simp add: pool_above_def)
  ultimately have "modules_inv N C ?t" using pool(2) by (simp add: modules_inv_def)
  moreover have "getPhysicalAddress v ?t = (if v = HEAP_SPACE + i then Inr x else getPhysicalAddress v s)"
    if "va_ok v" for v
    using write_entry_translate [OF _ x heap_page_ok [OF i] that, of u] pg that parts(3) by simp
  moreover have "\<forall>n. unat n < N \<longrightarrow> bitmap_get ?t n = (if n = PAGE x then SYSTEM else bitmap_get s n)"
    using pool(3) u(4) by simp
  moreover have "same_words (\<lambda>n. n < 0xE8000000) s ?t"
    using u(5) below_pool [OF parts(2)] write_entry_outside by (simp add: same_words_def in_window_def)
  ultimately show ?thesis using t pool(1) u(3) by (intro exI [of _ ?t] conjI) simp_all
qed

section \<open>All pages of the heap\<close>

lemma init_heap_pages_short:
  assumes "modules_inv N C s" "length (ms_list s) < length is" "\<forall>i \<in> set is. va_ok i"
  shows "fold_res init_heap_page is s = Inl (KPanic ''src/memory/physical_memory_stack.c'' 20)"
  using assms
proof (induction "is" arbitrary: s)
  case (Cons i "is")
  show ?case
  proof (cases "ms_list s")
    case Nil
    then show ?thesis using Cons.prems(1) by (simp add: init_heap_page_nil)
  next
    case (Cons x xs)
    have "va_ok i" using Cons.prems(3) by simp
    from init_heap_page_cons [OF Cons.prems(1) Cons this] obtain u where
      "init_heap_page i s = Inr u" "modules_inv N C u" "ms_list u = xs" by blast
    with Cons.IH [of u] Cons.prems Cons show ?thesis by simp
  qed
qed simp

lemma init_heap_pages_enough:
  assumes "modules_inv N C s" "ms_list s = xs @ ys" "length xs = length is"
    and "\<forall>i \<in> set is. va_ok i" "distinct is"
  shows "\<exists>t. fold_res init_heap_page is s = Inr t \<and> modules_inv N C t \<and> ms_list t = ys \<and>
    (\<forall>k < length is. getPhysicalAddress (HEAP_SPACE + is ! k) t = Inr (xs ! k)) \<and>
    (\<forall>v. va_ok v \<and> v - HEAP_SPACE \<notin> set is \<longrightarrow> getPhysicalAddress v t = getPhysicalAddress v s) \<and>
    (\<forall>n. unat n < N \<longrightarrow> bitmap_get t n = (if n \<in> PAGE ` set xs then SYSTEM else bitmap_get s n)) \<and>
    same_words (\<lambda>n. n < 0xE8000000) s t"
  using assms
proof (induction "is" arbitrary: s xs)
  case (Cons i "is")
  then obtain x xs' where xs: "xs = x # xs'" by (cases xs) auto
  have list: "ms_list s = x # (xs' @ ys)" and i: "va_ok i" using Cons.prems(2,4) xs by simp_all
  from init_heap_page_cons [OF Cons.prems(1) list i] obtain u where
    u: "init_heap_page i s = Inr u" "modules_inv N C u" "ms_list u = xs' @ ys"
      "\<forall>n. unat n < N \<longrightarrow> bitmap_get u n = (if n = PAGE x then SYSTEM else bitmap_get s n)"
      "\<forall>v. va_ok v \<longrightarrow> getPhysicalAddress v u = (if v = HEAP_SPACE + i then Inr x else getPhysicalAddress v s)"
      "same_words (\<lambda>n. n < 0xE8000000) s u"
    by blast
  from Cons.IH [OF u(2,3)] Cons.prems xs obtain t where
    t: "fold_res init_heap_page is u = Inr t" "modules_inv N C t" "ms_list t = ys"
      "\<forall>k < length is. getPhysicalAddress (HEAP_SPACE + is ! k) t = Inr (xs' ! k)"
      "\<forall>v. va_ok v \<and> v - HEAP_SPACE \<notin> set is \<longrightarrow> getPhysicalAddress v t = getPhysicalAddress v u"
      "\<forall>n. unat n < N \<longrightarrow> bitmap_get t n = (if n \<in> PAGE ` set xs' then SYSTEM else bitmap_get u n)"
      "same_words (\<lambda>n. n < 0xE8000000) u t"
    by auto
  have first: "getPhysicalAddress (HEAP_SPACE + i) t = Inr x"
    using t(5) u(5) Cons.prems(4,5) heap_page_ok by simp
  have "getPhysicalAddress (HEAP_SPACE + (i # is) ! k) t = Inr (xs ! k)" if "k < length (i # is)" for k
    using t(4) first that by (cases k) (simp_all add: xs)
  moreover have "getPhysicalAddress v t = getPhysicalAddress v s"
    if "va_ok v" "v - HEAP_SPACE \<notin> set (i # is)" for v
    using that t(5) u(5) by auto
  moreover have "same_words (\<lambda>n. n < 0xE8000000) s t" using u(6) t(7) by (simp add: same_words_def)
  ultimately show ?case using u(1,4) t(1-3,6) xs by auto
qed (simp add: same_words_def)

section \<open>The heap as a whole\<close>

lemma heap_offsets:
  shows "length (page_offsets 0 HEAP_SIZE) = 32768"
    and "k < 32768 \<Longrightarrow> page_offsets 0 HEAP_SIZE ! k = word_of_nat (4096 * k)"
    and "i \<in> set (page_offsets 0 HEAP_SIZE) \<Longrightarrow> va_ok i \<and> i < HEAP_SIZE"
    and "distinct (page_offsets 0 HEAP_SIZE)"
proof -
  have steps: "page_steps 0 HEAP_SIZE = 32768" by (simp add: page_steps_def HEAP_SIZE_def)
  have v: "unat (word_of_nat (4096 * k) :: u32) = 4096 * k" if "k < 32768" for k
    using that by (simp add: u32_of_nat del: of_nat_mult)
  show "length (page_offsets 0 HEAP_SIZE) = 32768"
    "k < 32768 \<Longrightarrow> page_offsets 0 HEAP_SIZE ! k = word_of_nat (4096 * k)"
    by (simp_all add: page_offsets_def steps)
  show "va_ok i \<and> i < HEAP_SIZE" if "i \<in> set (page_offsets 0 HEAP_SIZE)"
  proof -
    from that obtain k where "k < 32768" "i = word_of_nat (4096 * k)"
      by (auto simp: page_offsets_def steps simp del: of_nat_mult)
    then show ?thesis using v [of k] by (simp add: va_ok_def page_aligned_nat word_less_nat_alt HEAP_SIZE_def)
  qed
  have "inj_on (\<lambda>k. 0 + word_of_nat (4096 * k) :: u32) {0..<32768}"
  proof (rule inj_onI)
    fix j k :: nat assume jk: "j \<in> {0..<32768}" "k \<in> {0..<32768}"
      and eq: "0 + word_of_nat (4096 * j) = (0 + word_of_nat (4096 * k) :: u32)"
    then have "unat (word_of_nat (4096 * j) :: u32) = unat (word_of_nat (4096 * k) :: u32)" by simp
    then show "j = k" using v jk by simp
  qed
  then show "distinct (page_offsets 0 HEAP_SIZE)"
    unfolding page_offsets_def steps by (simp only: distinct_map) simp
qed

lemma outside_heap:
  assumes "v < HEAP_SPACE \<or> END \<le> v"
  shows "\<not> v - HEAP_SPACE < HEAP_SIZE"
proof (cases "v < HEAP_SPACE")
  case True
  have eq: "v - HEAP_SPACE = v + 0x18000000" by (simp add: HEAP_SPACE_def)
  have "unat (v + 0x18000000) = unat v + 0x18000000"
    using True by (intro u32_add_nowrap [THEN trans]) (simp_all add: HEAP_SPACE_def word_less_nat_alt)
  then show ?thesis unfolding eq by (simp add: HEAP_SIZE_def word_less_nat_alt)
next
  case False
  then have "0xF0000000 \<le> unat v" using assms by (simp add: word_le_nat_alt)
  then have "unat (v - HEAP_SPACE) = unat v - 0xE8000000" "0xF0000000 \<le> unat v"
    by (simp_all add: HEAP_SPACE_def u32_sub_nowrap)
  then show ?thesis by (simp add: HEAP_SIZE_def word_less_nat_alt)
qed

lemma write_block_high:
  assumes "hdr a" "aligned4 b" "0xF0000000 \<le> unat b \<or> unat b < 0xE8000000"
  shows "load32 (write_block a r m) b = load32 m b"
proof -
  have "a + k \<noteq> b \<and> aligned4 (a + k)" if "k \<in> {0, 4, 8, 12}" for k
    using hdr_field [OF assms(1) that] that assms by (auto simp: hdr_def)
  from this [of 0] this [of 4] this [of 8] this [of 12] show ?thesis
    using assms(2) by (simp add: write_block_def)
qed

lemma init_heap_blocks_high: "same_words (\<lambda>n. 0xF0000000 \<le> n \<or> n < 0xE8000000) s (init_heap_blocks s)"
proof -
  have "load32 (ram (init_heap_blocks s)) a = load32 (ram s) a"
    if "aligned4 a" and out: "0xF0000000 \<le> unat a \<or> unat a < 0xE8000000" for a
  proof -
    have h: "a \<noteq> HEAP_SPACE + k" "aligned4 (HEAP_SPACE + k)" if "k \<in> {0, 4, 8}" for k
      using that out by (auto simp: HEAP_SPACE_def aligned4_def)
    show ?thesis
      using that h [of 0] h [of 4] h [of 8]
      by (simp add: init_heap_blocks_def Let_def HEAD_def [symmetric] FIRST_def [symmetric] TAIL_def [symmetric]
          write_block_high)
  qed
  then show ?thesis by (simp add: same_words_def)
qed

lemma same_words_mono: "same_words P s t \<Longrightarrow> (\<And>n. Q n \<Longrightarrow> P n) \<Longrightarrow> same_words Q s t"
  by (auto simp: same_words_def)

section \<open>A pool large enough\<close>

lemma push_pool:
  assumes inv: "pool_inv N C s" and x: "pool_page N x" "x \<notin> set (ms_list s)" "bitmap_get s (PAGE x) = FREE"
  shows "pool_inv N C (ms_push x s)" and "ms_list (ms_push x s) = x # ms_list s"
proof -
  have area: "page_area N C s" using inv by (simp add: pool_inv_def)
  have room: "ms_depth s < C" by (rule pool_inv_room [OF inv x(1,2)])
  show list: "ms_list (ms_push x s) = x # ms_list s"
    using ms_push_list [of s x] page_area_room [OF area room] area by (simp add: page_area_def)
  have "bitmap_get (ms_push x s) (PAGE y) = FREE" if "y \<in> set (x # ms_list s)" for y
    using that inv x push_bitmap_get [OF area room, of "PAGE y"] by (auto simp: pool_inv_def pool_page_def)
  then show "pool_inv N C (ms_push x s)"
    using push_area [OF area room] inv x by (auto simp: pool_inv_def list)
qed

lemma push_pages:
  assumes "modules_inv N C s" "distinct xs" "\<forall>x \<in> set xs. pool_page N x \<and> x \<notin> set (ms_list s)"
    and "\<forall>x. unat x < N \<longrightarrow> bitmap_get s x = FREE"
  shows "modules_inv N C (fold ms_push xs s) \<and> ms_list (fold ms_push xs s) = rev xs @ ms_list s"
  using assms
proof (induction xs arbitrary: s)
  case (Cons x xs)
  then have x: "pool_page N x" "x \<notin> set (ms_list s)" "bitmap_get s (PAGE x) = FREE"
    by (simp_all add: pool_page_def)
  have parts: "pool_inv N C s" "pool_above s" "paging_wf s"
    using Cons.prems(1) by (simp_all add: modules_inv_def)
  then have area: "page_area N C s" by (simp add: pool_inv_def)
  have room: "ms_depth s < C" by (rule pool_inv_room [OF parts(1) x(1,2)])
  note push = push_pool [OF parts(1) x]
  have "same_words (\<lambda>n. 0xF8000000 \<le> n \<and> n < 0xF8401000) s (ms_push x s)"
    unfolding same_words_def using push_clear [OF area room below_pool [OF parts(2)]] by blast
  from paging_frame(1) [OF this] parts(3) have "paging_wf (ms_push x s)" by simp
  with push(1) parts(2) have "modules_inv N C (ms_push x s)" by (simp add: modules_inv_def pool_above_def)
  moreover have "\<forall>n. unat n < N \<longrightarrow> bitmap_get (ms_push x s) n = FREE"
    using push_bitmap_get [OF area room] Cons.prems(4) by simp
  ultimately show ?case using Cons.IH [of "ms_push x s"] Cons.prems(2,3) push(2) by auto
qed simp

text \<open>\<open>large_pool\<close>: 40000 free pages, the bitmap and the stack behind the window.\<close>

definition bare_pool :: kmem where
  "bare_pool = setMStackAdress 0xF8501000 (setBitmapAddress 0xF8401000 zero_kmem)"

definition pages_upto :: "nat \<Rightarrow> u32 list" where
  "pages_upto n = map (\<lambda>k. word_of_nat (4096 * k)) [0..<n]"

definition large_pool :: kmem where
  "large_pool = fold ms_push (pages_upto 40000) bare_pool"

lemma bare_pool_simps [simp]:
  "ram bare_pool = (\<lambda>_. 0)" "bitmap_address bare_pool = 0xF8401000"
  "stack_start bare_pool = 0xF8501000" "stackpointer bare_pool = 0xF8501000" "ms_depth bare_pool = 0"
  by (simp_all add: bare_pool_def setMStackAdress_def setBitmapAddress_def zero_kmem_def ms_depth_def)

lemma bare_pool_inv: "modules_inv 40000 40000 bare_pool"
proof -
  have "page_area 40000 40000 bare_pool"
    by (simp add: page_area_def bitmap_wf_def ms_wf_def aligned4_def word_at_def bitmap_words_def)
  then have "pool_inv 40000 40000 bare_pool" by (simp add: pool_inv_def ms_list_def)
  moreover have "paging_wf bare_pool" by (simp add: paging_wf_def page_word_def entry_present_def)
  ultimately show ?thesis by (simp add: modules_inv_def pool_above_def)
qed

lemma large_pool_inv: "modules_inv 40000 40000 large_pool" and large_pool_size: "ms_depth large_pool = 40000"
proof -
  have v: "unat (word_of_nat (4096 * k) :: u32) = 4096 * k" if "k < 40000" for k
    using that by (simp add: u32_of_nat del: of_nat_mult)
  have "inj_on (\<lambda>k. word_of_nat (4096 * k) :: u32) {0..<40000}"
  proof (rule inj_onI)
    fix j k :: nat assume jk: "j \<in> {0..<40000}" "k \<in> {0..<40000}"
      and eq: "word_of_nat (4096 * j) = (word_of_nat (4096 * k) :: u32)"
    then have "unat (word_of_nat (4096 * j) :: u32) = unat (word_of_nat (4096 * k) :: u32)" by simp
    then show "j = k" using v jk by simp
  qed
  then have d: "distinct (pages_upto 40000)" unfolding pages_upto_def by (simp only: distinct_map) simp
  have p: "\<forall>x \<in> set (pages_upto 40000). pool_page 40000 x \<and> x \<notin> set (ms_list bare_pool)"
    using v by (auto simp: pages_upto_def pool_page_def PAGE_nat page_aligned_nat ms_list_def simp del: of_nat_mult)
  have "\<forall>x. unat x < 40000 \<longrightarrow> bitmap_get bare_pool x = FREE" by (simp add: bitmap_get_zero)
  note P = push_pages [OF bare_pool_inv d p this]
  then show "modules_inv 40000 40000 large_pool" by (simp add: large_pool_def)
  have "length (ms_list large_pool) = 40000" using P by (simp add: large_pool_def ms_list_def pages_upto_def)
  then show "ms_depth large_pool = 40000" by simp
qed

section \<open>The heap as a whole, mapped and initialised\<close>

lemma init_heap_loop:
  "init_heap s = res_bind (fold_res init_heap_page (page_offsets 0 HEAP_SIZE) s) (\<lambda>s. Inr (init_heap_blocks s))"
proof -
  have "unat HEAP_SIZE \<le> 4294963200" by (simp add: HEAP_SIZE_def)
  then show ?thesis by (simp add: init_heap_def page_loop_eq)
qed

lemma init_heap_enough:
  assumes inv: "modules_inv N C s" and enough: "32768 \<le> length (ms_list s)"
  obtains u where "init_heap s = Inr (init_heap_blocks u)" "modules_inv N C (init_heap_blocks u)"
    "ms_list (init_heap_blocks u) = drop 32768 (ms_list s)"
    "\<And>k. k < 32768 \<Longrightarrow> getPhysicalAddress (HEAP_SPACE + word_of_nat (4096 * k)) (init_heap_blocks u) = Inr (ms_list s ! k)"
    "\<And>k. k < 32768 \<Longrightarrow> bitmap_get (init_heap_blocks u) (PAGE (ms_list s ! k)) = SYSTEM"
    "\<And>v. va_ok v \<Longrightarrow> v < HEAP_SPACE \<or> END \<le> v \<Longrightarrow>
      getPhysicalAddress v (init_heap_blocks u) = getPhysicalAddress v s"
    "same_words (\<lambda>n. n < 0xE8000000) s (init_heap_blocks u)"
proof -
  let ?is = "page_offsets 0 HEAP_SIZE" and ?xs = "take 32768 (ms_list s)"
  have ok: "\<forall>i \<in> set ?is. va_ok i" using heap_offsets(3) by blast
  from init_heap_pages_enough [OF inv append_take_drop_id [symmetric] _ ok heap_offsets(4), of 32768] enough
  obtain u where u: "fold_res init_heap_page ?is s = Inr u" "modules_inv N C u"
    "ms_list u = drop 32768 (ms_list s)"
    "\<forall>k < 32768. getPhysicalAddress (HEAP_SPACE + ?is ! k) u = Inr (?xs ! k)"
    "\<forall>v. va_ok v \<and> v - HEAP_SPACE \<notin> set ?is \<longrightarrow> getPhysicalAddress v u = getPhysicalAddress v s"
    "\<forall>n. unat n < N \<longrightarrow> bitmap_get u n = (if n \<in> PAGE ` set ?xs then SYSTEM else bitmap_get s n)"
    "same_words (\<lambda>n. n < 0xE8000000) s u"
    by (auto simp: heap_offsets(1))
  have parts: "pool_inv N C u" "pool_above u" "paging_wf u" using u(2) by (simp_all add: modules_inv_def)
  let ?t = "init_heap_blocks u"
  have fields: "bitmap_address ?t = bitmap_address u" "stack_start ?t = stack_start u"
    "stackpointer ?t = stackpointer u" by (simp_all add: init_heap_blocks_def Let_def)
  note pool = pool_frame [OF parts(1,2) fields same_words_mono [OF init_heap_blocks_high]]
  note pg = paging_frame [OF same_words_mono [OF init_heap_blocks_high [of u]]]
  show thesis
  proof (rule that)
    show "init_heap s = Inr ?t" by (simp only: init_heap_loop u(1) res_bind_simps)
    have "pool_inv N C ?t" by (rule pool(2)) simp
    then show "modules_inv N C ?t" using parts(2,3) pg(1) fields by (simp add: modules_inv_def pool_above_def)
    show "ms_list ?t = drop 32768 (ms_list s)" using pool(1) u(3) by simp
    show "getPhysicalAddress (HEAP_SPACE + word_of_nat (4096 * k)) ?t = Inr (ms_list s ! k)" if k: "k < 32768" for k
    proof -
      have "va_ok (HEAP_SPACE + ?is ! k)" using k heap_offsets(1,3) by (intro heap_page_ok) auto
      then show ?thesis using u(4) k pg(2) heap_offsets(2) [OF k] by auto
    qed
    show "bitmap_get ?t (PAGE (ms_list s ! k)) = SYSTEM" if k: "k < 32768" for k
    proof -
      have "ms_list s ! k \<in> set ?xs" using k enough by (auto simp: in_set_conv_nth intro!: exI [of _ k])
      moreover from this have "unat (PAGE (ms_list s ! k)) < N"
        using inv by (auto simp: modules_inv_def pool_inv_def pool_page_def dest: in_set_takeD)
      ultimately show ?thesis using u(6) pool(3) by auto
    qed
    show "getPhysicalAddress v ?t = getPhysicalAddress v s" if v: "va_ok v" "v < HEAP_SPACE \<or> END \<le> v" for v
      using outside_heap [OF v(2)] u(5) v(1) pg(2) heap_offsets(3) by auto
    show "same_words (\<lambda>n. n < 0xE8000000) s ?t"
      using u(7) same_words_mono [OF init_heap_blocks_high [of u], of "\<lambda>n. n < 0xE8000000"]
      by (simp add: same_words_def)
  qed
qed

text \<open>C17: init_heap on a consistent page pool: with fewer than 32768 free pages it panics;
  otherwise it takes the first 32768 pages of the free stack, marks them SYSTEM, maps them
  in order over the 128 MiB of the heap, keeps every other translation and the invariants of
  the pool and of the tables, and leaves a consistent heap that is one free block.\<close>
theorem init_heap_spec:
  assumes "pool_inv N C s" and "pool_above s" and "paging_wf s"
  shows "if length (ms_list s) < 32768
    then init_heap s = Inl (KPanic ''src/memory/physical_memory_stack.c'' 20)
    else \<exists>t. init_heap s = Inr t \<and> heap_inv [(FIRST, first_size, True)] t \<and>
      paging_wf t \<and> pool_inv N C t \<and> ms_list t = drop 32768 (ms_list s) \<and>
      (\<forall>k < 32768. getPhysicalAddress (HEAP_SPACE + word_of_nat (4096 * k)) t = Inr (ms_list s ! k) \<and>
        bitmap_get t (PAGE (ms_list s ! k)) = SYSTEM) \<and>
      (\<forall>v. va_ok v \<and> (v < HEAP_SPACE \<or> END \<le> v) \<longrightarrow> getPhysicalAddress v t = getPhysicalAddress v s)"
proof (cases "length (ms_list s) < 32768")
  case True
  have "\<forall>i \<in> set (page_offsets 0 HEAP_SIZE). va_ok i" using heap_offsets(3) by blast
  with init_heap_pages_short [of N C s] True assms heap_offsets(1) show ?thesis
    by (simp add: init_heap_loop modules_inv_def)
next
  case False
  have inv: "modules_inv N C s" using assms by (simp add: modules_inv_def)
  have "32768 \<le> length (ms_list s)" using False by simp
  then obtain u where u: "init_heap s = Inr (init_heap_blocks u)" "modules_inv N C (init_heap_blocks u)"
    "ms_list (init_heap_blocks u) = drop 32768 (ms_list s)"
    "\<And>k. k < 32768 \<Longrightarrow> getPhysicalAddress (HEAP_SPACE + word_of_nat (4096 * k)) (init_heap_blocks u) = Inr (ms_list s ! k)"
    "\<And>k. k < 32768 \<Longrightarrow> bitmap_get (init_heap_blocks u) (PAGE (ms_list s ! k)) = SYSTEM"
    "\<And>v. va_ok v \<Longrightarrow> v < HEAP_SPACE \<or> END \<le> v \<Longrightarrow>
      getPhysicalAddress v (init_heap_blocks u) = getPhysicalAddress v s"
    using init_heap_enough [OF inv] by metis
  have "pool_inv N C (init_heap_blocks u)" "paging_wf (init_heap_blocks u)" using u(2) by (simp_all add: modules_inv_def)
  then show ?thesis unfolding if_not_P [OF False] using u(1,3-6) init_heap_blocks_inv by blast
qed

theorem init_heap_spec_witness:
  "\<exists>t. init_heap large_pool = Inr t \<and> heap_inv [(FIRST, first_size, True)] t \<and>
    init_heap bare_pool = Inl (KPanic ''src/memory/physical_memory_stack.c'' 20)"
proof -
  have parts: "pool_inv 40000 40000 s" "pool_above s" "paging_wf s"
    if "s = large_pool \<or> s = bare_pool" for s
    using that large_pool_inv bare_pool_inv by (auto simp: modules_inv_def)
  have "\<not> length (ms_list large_pool) < 32768" "length (ms_list bare_pool) < 32768"
    by (simp_all add: large_pool_size)
  with init_heap_spec [OF parts, of large_pool] init_heap_spec [OF parts, of bare_pool]
  show ?thesis by auto
qed

end
