(* ===== verification/Lib.thy ===== *)
theory Lib
  imports Kernel_Memory
begin

text \<open>
  \<^verbatim>\<open>src/src/std/lib.c\<close>: the memory, string and number routines of the kernel, on the bytes of
  its memory. \<^verbatim>\<open>char\<close> is signed on the target; a loop that has no bound of its own is a partial
  function whose \<open>None\<close> means that it never ends.
\<close>

section \<open>Memory\<close>

fun memcmp_loop :: "mem \<Rightarrow> u32 \<Rightarrow> u32 \<Rightarrow> nat \<Rightarrow> int" where
  "memcmp_loop m p1 p2 0 = 0"
| "memcmp_loop m p1 p2 (Suc n) =
     (if m p1 \<noteq> m p2 then (if m p1 < m p2 then - 1 else 1) else memcmp_loop m (p1 + 1) (p2 + 1) n)"

definition memcmp :: "mem \<Rightarrow> u32 \<Rightarrow> u32 \<Rightarrow> u32 \<Rightarrow> int" where
  "memcmp m p1 p2 n = memcmp_loop m p1 p2 (unat n)"

fun memcpy_loop :: "u32 \<Rightarrow> u32 \<Rightarrow> nat \<Rightarrow> mem \<Rightarrow> mem" where
  "memcpy_loop d s 0 m = m"
| "memcpy_loop d s (Suc n) m = memcpy_loop (d + 1) (s + 1) n (m(d := m s))"

definition memcpy :: "u32 \<Rightarrow> u32 \<Rightarrow> u32 \<Rightarrow> mem \<Rightarrow> u32 \<times> mem" where
  "memcpy dest src n m = (dest, memcpy_loop dest src (unat n) m)"

text \<open>The pointer returned is the one the loop has advanced.\<close>

definition memset :: "u32 \<Rightarrow> i32 \<Rightarrow> u32 \<Rightarrow> mem \<Rightarrow> u32 \<times> mem" where
  "memset ptr c n m = (ptr + n, fill_bytes ptr (ucast c) (unat n) m)"

section \<open>Strings\<close>

text \<open>\<^verbatim>\<open>return (char*)c\<close>: the character itself, converted to a pointer.\<close>

partial_function (option) strchr :: "mem \<Rightarrow> u32 \<Rightarrow> i32 \<Rightarrow> u32 option" where
  "strchr m str c =
     (if sint (m str) = sint c then Some c
      else if m str \<noteq> 0 then strchr m (str + 1) c else Some 0)"

partial_function (option) strcmp :: "mem \<Rightarrow> u32 \<Rightarrow> u32 \<Rightarrow> int option" where
  "strcmp m s1 s2 =
     (if m s1 \<noteq> 0 \<and> m s2 \<noteq> 0 \<and> m s1 = m s2 then strcmp m (s1 + 1) (s2 + 1)
      else Some (sint (m s1) - sint (m s2)))"

partial_function (option) strcpy_loop :: "u32 \<Rightarrow> u32 \<Rightarrow> u32 \<Rightarrow> mem \<Rightarrow> mem option" where
  "strcpy_loop dest src i m =
     (if m (src + i) \<noteq> 0 then strcpy_loop dest src (i + 1) (m(dest + i := m (src + i)))
      else Some (m(dest + i := 0)))"

definition strcpy :: "u32 \<Rightarrow> u32 \<Rightarrow> mem \<Rightarrow> (u32 \<times> mem) option" where
  "strcpy dest src m = (case strcpy_loop dest src 0 m of None \<Rightarrow> None | Some m \<Rightarrow> Some (dest, m))"

definition strdup :: "u32 \<Rightarrow> u32" where
  "strdup str = str"

partial_function (option) strlen_loop :: "mem \<Rightarrow> u32 \<Rightarrow> u32 \<Rightarrow> u32 option" where
  "strlen_loop m ptr len = (if m ptr \<noteq> 0 then strlen_loop m (ptr + 1) (len + 1) else Some len)"

definition strlen :: "mem \<Rightarrow> u32 \<Rightarrow> u32 option" where
  "strlen m str = strlen_loop m str 0"

declare strchr.simps [code] strcmp.simps [code] strcpy_loop.simps [code] strlen_loop.simps [code]

section \<open>Numbers\<close>

text \<open>\<^verbatim>\<open>"0123456789ABCDEF"[r]\<close>\<close>

definition digit :: "u32 \<Rightarrow> u8" where
  "digit r = (if r < 10 then ucast r + 48 else ucast r + 55)"

partial_function (option) utoa_digits :: "u32 \<Rightarrow> u32 \<Rightarrow> u32 \<Rightarrow> u32 \<Rightarrow> mem \<Rightarrow> (u32 \<times> mem) option" where
  "utoa_digits base str value i m =
     (let m = m(str + i := digit (value mod base)); value = value div base
      in if value \<noteq> 0 then utoa_digits base str value (i + 1) m else Some (i + 1, m))"

declare utoa_digits.simps [code]

function utoa_reverse :: "u32 \<Rightarrow> nat \<Rightarrow> nat \<Rightarrow> mem \<Rightarrow> mem" where
  "utoa_reverse str j i m =
     (if j < i
      then utoa_reverse str (Suc j) (i - 1)
        (m(str + word_of_nat j := m (str + word_of_nat i), str + word_of_nat i := m (str + word_of_nat j)))
      else m)"
  by auto
termination by (relation "measure (\<lambda>(str, j, i, m). i - j)") auto

declare utoa_reverse.simps [simp del]

definition utoa :: "u32 \<Rightarrow> u32 \<Rightarrow> i32 \<Rightarrow> mem \<Rightarrow> (u32 \<times> mem) option" where
  "utoa value str base m =
     (if sint base < 2 \<or> sint base > 16 then Some (0, m(str := 0))
      else case utoa_digits base str value 0 m of
        None \<Rightarrow> None
      | Some (i, m) \<Rightarrow> Some (str, utoa_reverse str 0 (unat i - 1) (m(str + i := 0))))"

text \<open>The sign is written before the digits, and the pointer to the digits is returned.\<close>

definition itoa :: "i32 \<Rightarrow> u32 \<Rightarrow> i32 \<Rightarrow> mem \<Rightarrow> (u32 \<times> mem) option" where
  "itoa value str base m =
     (if str = 0 then Some (0, m)
      else if sint base < 2 \<or> sint base > 16 then Some (0, m)
      else if sint base = 10 \<and> sint value < 0 then utoa (- value) (str + 1) base (m(str := 45))
      else utoa value str base m)"

section \<open>Properties of the memory routines\<close>

definition bytes_at :: "mem \<Rightarrow> u32 \<Rightarrow> nat \<Rightarrow> u8 list" where
  "bytes_at m p n = map (\<lambda>i. m (p + word_of_nat i)) [0..<n]"

lemma bytes_at_0 [simp]: "bytes_at m p 0 = []"
  by (simp add: bytes_at_def)

lemma bytes_at_Suc [simp]: "bytes_at m p (Suc n) = m p # bytes_at m (p + 1) n"
proof -
  have "[0..<Suc n] = 0 # map Suc [0..<n]" by (simp add: map_Suc_upt upt_conv_Cons del: upt_Suc)
  then show ?thesis by (simp add: bytes_at_def algebra_simps del: upt_Suc)
qed

lemma length_bytes_at [simp]: "length (bytes_at m p n) = n"
  by (simp add: bytes_at_def)

theorem memcmp_spec:
  "memcmp m p q n = (let xs = bytes_at m p (unat n); ys = bytes_at m q (unat n)
     in if xs = ys then 0 else if ord_class.lexordp xs ys then - 1 else 1)"
proof -
  have "memcmp_loop m p q k = (if bytes_at m p k = bytes_at m q k then 0
      else if ord_class.lexordp (bytes_at m p k) (bytes_at m q k) then - 1 else 1)" for k
  proof (induction k arbitrary: p q)
    case (Suc k)
    then show ?case by (cases "m p < m q"; cases "m q < m p") auto
  qed simp
  then show ?thesis by (simp add: memcmp_def Let_def)
qed

lemma minus_plus_one:
  assumes "(x :: u32) \<noteq> d"
  shows "unat (x - (d + 1)) = unat (x - d) - 1" "unat (x - d) \<noteq> 0"
proof -
  have "x - d \<noteq> 0" using assms by simp
  then have "unat (x - d - 1) = unat (x - d) - 1" "unat (x - d) \<noteq> 0"
    by (simp_all add: unat_minus_one unat_eq_0)
  moreover have eq: "x - (d + 1) = x - d - 1" by (rule diff_diff_eq [symmetric])
  ultimately show "unat (x - (d + 1)) = unat (x - d) - 1" "unat (x - d) \<noteq> 0" unfolding eq by simp_all
qed

text \<open>Copying forwards is right unless the destination starts inside the source.\<close>

lemma memcpy_loop_value:
  "n \<le> unat (d - s) \<or> d = s \<Longrightarrow> n \<le> 4294967295 \<Longrightarrow>
    memcpy_loop d s n m x = (if unat (x - d) < n then m (s + (x - d)) else m x)"
proof (induction n arbitrary: d s m)
  case (Suc n)
  have "n \<le> unat (d + 1 - (s + 1)) \<or> d + 1 = s + 1" using Suc.prems by auto
  then have IH: "memcpy_loop d s (Suc n) m x
      = (if unat (x - (d + 1)) < n then (m(d := m s)) (s + 1 + (x - (d + 1))) else (m(d := m s)) x)"
    using Suc by simp
  show ?case
  proof (cases "x = d")
    case True
    then have "x - (d + 1) = - 1" by simp
    then have "unat (x - (d + 1)) = 4294967295"
      by (simp add: unsigned_minus_1_eq_mask mask_eq_exp_minus_1 del: diff_add_eq_diff_diff_swap)
    then have "\<not> unat (x - (d + 1)) < n" using Suc.prems(2) by simp
    with IH have "memcpy_loop d s (Suc n) m x = (m(d := m s)) x" by (simp only: if_False)
    then show ?thesis using True by (simp del: memcpy_loop.simps)
  next
    case False
    note u = minus_plus_one [OF False]
    have eq: "s + 1 + (x - (d + 1)) = s + (x - d)" by (simp add: algebra_simps)
    have "s + (x - d) \<noteq> d" if lt: "unat (x - d) < Suc n"
    proof
      assume e: "s + (x - d) = d"
      then have "x - d = d - s" by (simp add: algebra_simps)
      then have "Suc n \<le> unat (x - d) \<or> x - d = 0" using Suc.prems(1) by auto
      then show False using lt u(2) by auto
    qed
    then show ?thesis using IH u False by (auto simp: eq)
  qed
qed simp

theorem memcpy_spec:
  assumes "unat n \<le> unat (dest - src) \<or> dest = src"
  shows "fst (memcpy dest src n m) = dest \<and>
    bytes_at (snd (memcpy dest src n m)) dest (unat n) = bytes_at m src (unat n) \<and>
    (\<forall>x. unat n \<le> unat (x - dest) \<longrightarrow> snd (memcpy dest src n m) x = m x)"
proof -
  have v: "memcpy_loop dest src (unat n) m x
      = (if unat (x - dest) < unat n then m (src + (x - dest)) else m x)" for x
    using assms by (intro memcpy_loop_value) simp_all
  have "unat (word_of_nat i :: u32) = i" if "i < unat n" for i
    using that unat_u32_less [of n] by (intro u32_of_nat) linarith
  then show ?thesis by (auto simp: memcpy_def v bytes_at_def)
qed

theorem memcpy_spec_witness:
  "bytes_at (snd (memcpy 100 200 3 (\<lambda>a. ucast a))) 100 3 = [200, 201, 202]"
proof -
  have "unat (3 :: u32) \<le> unat (100 - 200 :: u32) \<or> (100 :: u32) = 200" by simp
  from memcpy_spec [OF this, of "\<lambda>a. ucast a"]
  have "bytes_at (snd (memcpy 100 200 3 (\<lambda>a. ucast a))) 100 (unat (3 :: u32))
    = bytes_at (\<lambda>a. ucast a) 200 (unat (3 :: u32))" by blast
  moreover have "unat (3 :: u32) = Suc (Suc (Suc 0))" "(3 :: nat) = Suc (Suc (Suc 0))" by simp_all
  ultimately show ?thesis by (simp only: bytes_at_Suc bytes_at_0) simp
qed

section \<open>Properties of the string routines\<close>

fun cstr :: "mem \<Rightarrow> u32 \<Rightarrow> u8 list \<Rightarrow> bool" where
  "cstr m p [] \<longleftrightarrow> m p = 0"
| "cstr m p (c # cs) \<longleftrightarrow> m p = c \<and> c \<noteq> 0 \<and> cstr m (p + 1) cs"

lemma strlen_loop_cstr: "cstr m p s \<Longrightarrow> strlen_loop m p k = Some (k + word_of_nat (length s))"
proof (induction s arbitrary: p k)
  case Nil
  then show ?case by (subst strlen_loop.simps) simp
next
  case (Cons c s)
  then show ?case by (subst strlen_loop.simps) (simp add: algebra_simps)
qed

lemma sint_u8_eq_0 [simp]: "sint (x :: u8) = 0 \<longleftrightarrow> x = 0"
  using signed_word_eqI [of x 0] by auto

lemma sint_u8_eq [simp]: "sint (x :: u8) = sint y \<longleftrightarrow> x = y"
  using signed_word_eqI [of x y] by auto

lemma strcmp_cstr:
  "cstr m p s \<Longrightarrow> cstr m q t \<Longrightarrow> \<exists>r. strcmp m p q = Some r \<and> (r = 0 \<longleftrightarrow> s = t)"
proof (induction s arbitrary: p q t)
  case Nil
  then show ?case by (subst strcmp.simps) (cases t; auto simp: sint_u8_eq_0)
next
  case (Cons c s)
  note IH = Cons.IH
  show ?case
  proof (cases t)
    case Nil
    then show ?thesis using Cons.prems by (subst strcmp.simps) auto
  next
    case (Cons d t')
    then have "cstr m (p + 1) s" "cstr m (q + 1) t'" using Cons.prems by simp_all
    note IH = IH [OF this]
    show ?thesis using Cons.prems Cons IH by (subst strcmp.simps) auto
  qed
qed

lemma cstr_other:
  "length s < 4294967296 \<Longrightarrow> length s < unat (x - p) \<Longrightarrow> cstr (m(x := b)) p s = cstr m p s"
proof (induction s arbitrary: p)
  case Nil
  then show ?case by auto
next
  case (Cons c s)
  then have "x \<noteq> p" by auto
  moreover have "length s < unat (x - (p + 1))" using minus_plus_one [OF calculation] Cons.prems by simp
  ultimately show ?case using Cons by simp
qed

text \<open>Bytes written one after the other.\<close>

fun write_bytes :: "mem \<Rightarrow> u32 \<Rightarrow> u8 list \<Rightarrow> mem" where
  "write_bytes m p [] = m"
| "write_bytes m p (c # cs) = write_bytes (m(p := c)) (p + 1) cs"

lemma word_of_nat_u32_inject:
  "i < 4294967296 \<Longrightarrow> j < 4294967296 \<Longrightarrow> (word_of_nat i :: u32) = word_of_nat j \<longleftrightarrow> i = j"
  by (metis u32_of_nat)

lemma write_bytes_value:
  "length cs \<le> 4294967295 \<Longrightarrow>
    write_bytes m p cs x = (if unat (x - p) < length cs then cs ! unat (x - p) else m x)"
proof (induction cs arbitrary: m p)
  case (Cons c cs)
  have IH: "write_bytes m p (c # cs) x = (if unat (x - (p + 1)) < length cs then cs ! unat (x - (p + 1))
      else (m(p := c)) x)"
    using Cons by simp
  show ?case
  proof (cases "x = p")
    case True
    then have "x - (p + 1) = - 1" by simp
    then have "unat (x - (p + 1)) = 4294967295"
      by (simp add: unsigned_minus_1_eq_mask mask_eq_exp_minus_1 del: diff_add_eq_diff_diff_swap)
    then have "\<not> unat (x - (p + 1)) < length cs" using Cons.prems by simp
    with IH have "write_bytes m p (c # cs) x = (m(p := c)) x" by (simp only: if_False)
    then show ?thesis using True by (simp del: write_bytes.simps)
  next
    case False
    note u = minus_plus_one [OF False]
    then show ?thesis using IH False by (auto simp: nth_Cons' simp del: write_bytes.simps)
  qed
qed simp

lemma cstr_iff_bytes:
  "cstr m p s \<longleftrightarrow> bytes_at m p (length s) = s \<and> 0 \<notin> set s \<and> m (p + word_of_nat (length s)) = 0"
  by (induction s arbitrary: p) (auto simp: algebra_simps)

lemma cstr_cong:
  assumes "cstr m p s" and "\<And>k. k \<le> length s \<Longrightarrow> m' (p + word_of_nat k) = m (p + word_of_nat k)"
  shows "cstr m' p s"
proof -
  have "bytes_at m' p (length s) = bytes_at m p (length s)" using assms(2) by (simp add: bytes_at_def)
  then show ?thesis using assms by (simp add: cstr_iff_bytes)
qed

section \<open>Numbers\<close>

text \<open>The digits of a number, the lowest first.\<close>

function digits :: "nat \<Rightarrow> nat \<Rightarrow> nat list" where
  "digits b n = (if b < 2 \<or> n < b then [n] else n mod b # digits b (n div b))"
  by auto
termination by (relation "measure snd") auto

declare digits.simps [simp del]

definition of_digits :: "nat \<Rightarrow> nat list \<Rightarrow> nat" where
  "of_digits b ds = foldr (\<lambda>d n. n * b + d) ds 0"

lemma of_digits_digits: "of_digits b (digits b n) = n"
proof (induction b n rule: digits.induct)
  case (1 b n)
  show ?case
  proof (cases "b < 2 \<or> n < b")
    case True
    then show ?thesis by (subst digits.simps) (simp add: of_digits_def)
  next
    case False
    then have "digits b n = n mod b # digits b (n div b)" by (subst digits.simps) simp
    then show ?thesis using 1 False by (simp add: of_digits_def)
  qed
qed

lemma digits_less: "2 \<le> b \<Longrightarrow> d \<in> set (digits b n) \<Longrightarrow> d < b"
proof (induction b n rule: digits.induct)
  case (1 b n)
  then show ?case by (subst (asm) (2) digits.simps) (auto split: if_splits)
qed

lemma digits_not_Nil [simp]: "digits b n \<noteq> []"
  by (subst digits.simps) simp

lemma length_digits: "2 \<le> b \<Longrightarrow> n < b ^ Suc k \<Longrightarrow> length (digits b n) \<le> Suc k"
proof (induction k arbitrary: n)
  case 0
  then show ?case by (subst digits.simps) simp
next
  case (Suc k)
  show ?case
  proof (cases "n < b")
    case True
    then show ?thesis by (subst digits.simps) simp
  next
    case False
    have "n div b < b ^ Suc k" using Suc.prems by (intro less_mult_imp_div_less) (simp add: mult.commute)
    then show ?thesis using Suc.IH [OF Suc.prems(1)] Suc.prems False by (subst digits.simps) simp
  qed
qed

lemma length_digits_u32:
  assumes "2 \<le> b"
  shows "length (digits b (unat (v :: u32))) \<le> 32"
proof -
  have "(2 :: nat) ^ 32 \<le> b ^ 32" using assms by (rule power_mono) simp
  then have "4294967296 \<le> b ^ 32" by simp
  then have "unat v < b ^ 32" using unat_u32_less [of v] by linarith
  then have "unat v < b ^ Suc 31" by (simp only: Suc_numeral arith_simps)
  then show ?thesis using length_digits [OF assms, of "unat v" 31] by simp
qed

lemma length_digits_10: "length (digits 10 (unat (v :: u32))) \<le> 10"
  using length_digits [of 10 "unat v" 9] unat_u32_less [of v] by simp

lemma length_digits_16: "length (digits 16 (unat (v :: u32))) \<le> 8"
  using length_digits [of 16 "unat v" 7] unat_u32_less [of v] by simp

lemma length_digits_ge: "2 \<le> b \<Longrightarrow> b ^ k \<le> n \<Longrightarrow> k < length (digits b n)"
proof (induction k arbitrary: n)
  case (Suc k)
  have nb: "\<not> n < b"
  proof -
    have "b \<le> b ^ Suc k" using Suc.prems(1) by (intro self_le_power) simp_all
    then show ?thesis using Suc.prems(2) by linarith
  qed
  have "b ^ k \<le> n div b"
    using Suc.prems by (simp add: less_eq_div_iff_mult_less_eq mult.commute)
  then show ?case using Suc.IH [OF Suc.prems(1)] Suc.prems(1) nb by (subst digits.simps) simp
qed simp

definition digit_char :: "nat \<Rightarrow> u8" where
  "digit_char d = (if d < 10 then word_of_nat (d + 48) else word_of_nat (d + 55))"

lemma below_16: "d < (16 :: nat) \<Longrightarrow> d = 0 \<or> d = 1 \<or> d = 2 \<or> d = 3 \<or> d = 4 \<or> d = 5 \<or> d = 6 \<or> d = 7 \<or>
    d = 8 \<or> d = 9 \<or> d = 10 \<or> d = 11 \<or> d = 12 \<or> d = 13 \<or> d = 14 \<or> d = 15"
  by presburger

lemma digit_word: "d < 16 \<Longrightarrow> digit (word_of_nat d) = digit_char d"
  by (drule below_16, elim disjE) (simp_all add: digit_def digit_char_def)

lemma digit_char_nonzero: "d < 16 \<Longrightarrow> digit_char d \<noteq> 0"
  by (drule below_16, elim disjE) (simp_all add: digit_char_def)

lemma utoa_digits_eq:
  assumes "2 \<le> unat base" "unat base \<le> 16"
  shows "utoa_digits base str v i m = Some (i + word_of_nat (length (digits (unat base) (unat v))),
    write_bytes m (str + i) (map digit_char (digits (unat base) (unat v))))"
proof (induction "unat v" arbitrary: v i m rule: less_induct)
  case less
  let ?m = "m(str + i := digit (v mod base))"
  have mod: "unat (v mod base) = unat v mod unat base" by (rule unat_mod)
  have div: "unat (v div base) = unat v div unat base" by (rule unat_div)
  have small: "unat v mod unat base < 16"
    using assms mod_less_divisor [of "unat base" "unat v"] by linarith
  have d: "digit (v mod base) = digit_char (unat v mod unat base)"
  proof -
    have "v mod base = word_of_nat (unat v mod unat base)"
      using small by (intro u32_eqI) (simp add: mod u32_of_nat del: of_nat_mod)
    then show ?thesis using digit_word [OF small] by simp
  qed
  show ?case
  proof (cases "unat v < unat base")
    case True
    then have "v div base = 0" using div by (simp add: unat_eq_0 [symmetric])
    then show ?thesis using True d by (subst utoa_digits.simps) (simp add: Let_def digits.simps)
  next
    case False
    have pos: "0 < unat v" "unat v div unat base \<noteq> 0"
      using False assms(1) by (simp_all add: div_eq_0_iff)
    then have nz: "v div base \<noteq> 0" using div by auto
    have lt: "unat (v div base) < unat v"
      using pos(1) assms(1) unfolding div by (intro div_less_dividend) simp_all
    have ds: "digits (unat base) (unat v) = unat v mod unat base # digits (unat base) (unat (v div base))"
      using False assms(1) div by (subst digits.simps) simp
    have "utoa_digits base str (v div base) (i + 1) ?m = Some (i + 1 + word_of_nat (length (digits (unat base) (unat (v div base)))),
      write_bytes ?m (str + (i + 1)) (map digit_char (digits (unat base) (unat (v div base)))))"
      by (rule less.hyps [OF lt])
    then show ?thesis using nz ds d by (subst utoa_digits.simps) (simp add: Let_def algebra_simps)
  qed
qed

lemma offset_eq:
  "k < 4294967296 \<Longrightarrow> x = str + word_of_nat k \<longleftrightarrow> unat (x - str :: u32) = k"
proof
  assume k: "k < 4294967296" and "x = str + word_of_nat k"
  then show "unat (x - str) = k" by (simp add: u32_of_nat)
next
  assume "unat (x - str) = k"
  then have "word_of_nat k = x - str" by (simp add: u32_eqI u32_of_nat flip: \<open>unat (x - str) = k\<close>)
  then show "x = str + word_of_nat k" by simp
qed

lemma utoa_reverse_value:
  "i < 4294967296 \<Longrightarrow> utoa_reverse str j i m x =
    (if j \<le> unat (x - str) \<and> unat (x - str) \<le> i then m (str + word_of_nat (i + j - unat (x - str))) else m x)"
proof (induction str j i m rule: utoa_reverse.induct)
  case (1 str j i m)
  define k where "k = unat (x - str)"
  have xk: "x = str + word_of_nat k" using offset_eq [of k x str] by (simp add: k_def)
  show ?case
  proof (cases "j < i")
    case False
    then have "utoa_reverse str j i m = m" by (subst utoa_reverse.simps) simp
    moreover have "m (str + word_of_nat (i + j - k)) = m x" if "j \<le> k" "k \<le> i"
    proof -
      have "i + j - k = k" using that False by simp
      then have "str + word_of_nat (i + j - k) = x" by (simp only: xk [symmetric])
      then show ?thesis by (rule arg_cong)
    qed
    ultimately show ?thesis unfolding k_def [symmetric] by metis
  next
    case True
    define m2 where "m2 = m(str + word_of_nat j := m (str + word_of_nat i), str + word_of_nat i := m (str + word_of_nat j))"
    have rec: "utoa_reverse str j i m = utoa_reverse str (Suc j) (i - 1) m2"
      using True by (subst utoa_reverse.simps) (simp add: m2_def)
    have IH: "utoa_reverse str (Suc j) (i - 1) m2 x =
      (if Suc j \<le> k \<and> k \<le> i - 1 then m2 (str + word_of_nat (i - 1 + Suc j - k)) else m2 x)"
    proof -
      have "i - 1 < 4294967296" using "1.prems" by simp
      from "1.IH" [OF True this] show ?thesis unfolding m2_def k_def .
    qed
    have at: "m2 (str + word_of_nat l) = (if l = i then m (str + word_of_nat j)
        else if l = j then m (str + word_of_nat i) else m (str + word_of_nat l))" if "l < 4294967296" for l
      using that True "1.prems" word_of_nat_u32_inject [of l i] word_of_nat_u32_inject [of l j]
      by (simp add: m2_def)
    have kb: "k < 4294967296" by (simp add: k_def)
    have "m2 x = (if k = i then m (str + word_of_nat j) else if k = j then m (str + word_of_nat i) else m x)"
      using at [OF kb] xk by simp
    moreover have "m2 (str + word_of_nat (i - 1 + Suc j - k)) = m (str + word_of_nat (i + j - k))"
      if "Suc j \<le> k" "k \<le> i - 1"
    proof -
      have "i - 1 + Suc j - k = i + j - k" "i + j - k < 4294967296" "i + j - k \<noteq> i" "i + j - k \<noteq> j"
        using that True "1.prems" by auto
      then show ?thesis using at [of "i + j - k"] by simp
    qed
    ultimately show ?thesis unfolding rec IH k_def [symmetric] using True by auto
  qed
qed

lemma utoa_string:
  fixes v :: u32
  assumes b: "2 \<le> sint base" "sint base \<le> 16"
  defines "ds \<equiv> map digit_char (rev (digits (unat base) (unat v)))"
  shows "\<exists>m'. utoa v str base m = Some (str, m') \<and> cstr m' str ds \<and>
    (\<forall>x. length ds < unat (x - str) \<longrightarrow> m' x = m x)"
proof -
  have ub: "2 \<le> unat base" "unat base \<le> 16"
  proof -
    have "uint base = sint base" using b by (simp add: uint_sint take_bit_int_eq_self)
    then have "2 \<le> int (unat base)" "int (unat base) \<le> 16" using b by (simp_all only: uint_nat)
    then show "2 \<le> unat base" "unat base \<le> 16" by linarith+
  qed
  define n where "n = length ds"
  have n: "0 < n" "n \<le> 32" using length_digits_u32 [OF ub(1), of v] by (simp_all add: n_def ds_def)
  define m1 where "m1 = (write_bytes m str (rev ds))(str + word_of_nat n := 0)"
  define m' where "m' = utoa_reverse str 0 (n - 1) m1"
  have un: "unat (word_of_nat n :: u32) = n" using n by (intro u32_of_nat) simp
  have "utoa v str base m = Some (str, m')"
    using utoa_digits_eq [OF ub, of str v 0 m] b un
    by (simp add: utoa_def m'_def m1_def n_def ds_def rev_map)
  moreover have val: "m' (str + word_of_nat k) = (if k < n then ds ! k else if k = n then 0 else m (str + word_of_nat k))"
    if k: "k < 4294967296" for k
  proof -
    have m1: "m1 (str + word_of_nat l) = (if l = n then 0 else if l < n then rev ds ! l else m (str + word_of_nat l))"
      if "l < 4294967296" for l
      using that n word_of_nat_u32_inject [of l n]
      by (simp add: m1_def write_bytes_value u32_of_nat n_def)
    show ?thesis
    proof (cases "k < n")
      case True
      have "m' (str + word_of_nat k) = m1 (str + word_of_nat (n - 1 - k))"
      proof -
        have n1: "n - 1 < 4294967296" and kn: "k \<le> n - 1" using n True by simp_all
        have uk: "unat (str + word_of_nat k - str) = k" using k by (simp add: u32_of_nat)
        show ?thesis
          by (simp only: m'_def utoa_reverse_value [OF n1] uk kn le0 simp_thms if_True add_0_right)
      qed
      also have "\<dots> = rev ds ! (n - 1 - k)" 
      proof -
        have l: "n - 1 - k < 4294967296" "n - 1 - k \<noteq> n" "n - 1 - k < n" using n True by simp_all
        show ?thesis by (simp only: m1 [OF l(1)] l(2,3) if_False if_True)
      qed
      also have "\<dots> = ds ! k" using True by (simp add: rev_nth n_def)
      finally show ?thesis using True by simp
    next
      case False
      then have "m' (str + word_of_nat k) = m1 (str + word_of_nat k)"
      proof -
        have n1: "n - 1 < 4294967296" and kn: "\<not> k \<le> n - 1" using n False by simp_all
        have uk: "unat (str + word_of_nat k - str) = k" using k by (simp add: u32_of_nat)
        show ?thesis by (simp only: m'_def utoa_reverse_value [OF n1] uk kn simp_thms if_False)
      qed
      then show ?thesis using m1 [OF k] False by simp
    qed
  qed
  have "cstr m' str ds"
  proof -
    have "bytes_at m' str (length ds) = ds"
      using val n by (intro nth_equalityI) (simp_all add: bytes_at_def n_def [symmetric])
    moreover have "0 \<notin> set ds"
      using digits_less [OF ub(1)] digit_char_nonzero ub(2) by (fastforce simp: ds_def)
    ultimately show ?thesis using val [of n] n by (simp add: cstr_iff_bytes n_def [symmetric])
  qed
  moreover have "m' x = m x" if "length ds < unat (x - str)" for x
  proof -
    have "x = str + word_of_nat (unat (x - str))" using offset_eq [of "unat (x - str)" x str] by simp
    then show ?thesis using val [of "unat (x - str)"] that by (simp add: n_def)
  qed
  ultimately show ?thesis by blast
qed

text \<open>Reading a numeral back.\<close>

definition read_digit :: "u8 \<Rightarrow> nat" where
  "read_digit c = (if unat c < 58 then unat c - 48 else unat c - 55)"

definition read_number :: "nat \<Rightarrow> u8 list \<Rightarrow> nat" where
  "read_number b s = foldl (\<lambda>n c. n * b + read_digit c) 0 s"

lemma read_digit_char: "d < 16 \<Longrightarrow> read_digit (digit_char d) = d"
  by (drule below_16, elim disjE) (simp_all add: digit_char_def read_digit_def)

lemma read_number_digits:
  assumes "\<forall>d \<in> set ds. d < 16"
  shows "read_number b (map digit_char (rev ds)) = of_digits b ds"
  using assms
proof (induction ds)
  case Nil
  then show ?case by (simp add: read_number_def of_digits_def)
next
  case (Cons d ds)
  then have "read_number b (map digit_char (rev ds)) = of_digits b ds" "read_digit (digit_char d) = d"
    by (simp_all add: read_digit_char)
  then show ?case by (simp add: read_number_def of_digits_def)
qed

text \<open>C18: utoa in a base from 2 to 16 returns the buffer and leaves in it a NUL-terminated
  string that, read as a number in that base, is the value; it writes at most the digits and
  the terminator.\<close>
theorem utoa_reads_back:
  fixes v :: u32
  assumes "2 \<le> sint base" and "sint base \<le> 16"
  shows "\<exists>m' s. utoa v str base m = Some (str, m') \<and> cstr m' str s \<and> length s \<le> 32 \<and>
    read_number (unat base) s = unat v \<and>
    (\<forall>x. length s < unat (x - str) \<longrightarrow> m' x = m x)"
proof -
  let ?s = "map digit_char (rev (digits (unat base) (unat v)))"
  have "uint base = sint base" using assms by (simp add: uint_sint take_bit_int_eq_self)
  then have "2 \<le> int (unat base)" "int (unat base) \<le> 16" using assms by (simp_all only: uint_nat)
  then have ub: "2 \<le> unat base" "unat base \<le> 16" by linarith+
  have "read_number (unat base) ?s = unat v"
    using digits_less [OF ub(1)] ub(2) by (subst read_number_digits) (fastforce simp: of_digits_digits)+
  moreover have "length ?s \<le> 32" using length_digits_u32 [OF ub(1)] by simp
  ultimately show ?thesis using utoa_string [OF assms, of v str m] by blast
qed

theorem utoa_reads_back_witness:
  "\<exists>m' s. utoa 255 0x1000 16 (\<lambda>_. 0) = Some (0x1000, m') \<and> cstr m' 0x1000 s \<and> read_number 16 s = 255"
  using utoa_reads_back [of 16 255 "0x1000" "\<lambda>_. 0"] by auto

lemma unat_uminus_negative: "sint (v :: i32) < 0 \<Longrightarrow> unat (- v) = nat (- sint v)"
proof -
  assume n: "sint v < 0"
  have r: "- 2147483648 \<le> sint v" using sint_ge [of v] by simp
  have w: "(word_of_int (- sint v) :: u32) = - v" by simp
  have "uint (word_of_int (- sint v) :: u32) = take_bit LENGTH(32) (- sint v)"
    by (rule uint_word_of_int_eq)
  then have "uint (- v) = take_bit 32 (- sint v)" unfolding w by simp
  also have "\<dots> = - sint v" using n r by (intro take_bit_int_eq_self) simp_all
  finally show ?thesis by (simp add: unat_eq_nat_uint)
qed

text \<open>C19: For a negative number in base 10 itoa stores a minus sign, but returns the pointer
  behind it: the string returned is the absolute value.\<close>
theorem itoa_drops_sign:
  fixes v :: i32
  assumes "sint v < 0" and "str \<noteq> 0"
  shows "\<exists>m' s. itoa v str 10 m = Some (str + 1, m') \<and> m' str = 45 \<and> cstr m' (str + 1) s \<and>
    int (read_number 10 s) = - sint v \<and> cstr m' str (45 # s)"
proof -
  let ?s = "map digit_char (rev (digits 10 (unat (- v))))"
  let ?m = "m(str := 45)"
  obtain m' where u: "utoa (- v) (str + 1) 10 ?m = Some (str + 1, m')" "cstr m' (str + 1) ?s"
    "\<forall>x. length ?s < unat (x - (str + 1)) \<longrightarrow> m' x = ?m x"
    using utoa_string [of "10 :: u32" "- v" "str + 1" ?m] by auto
  have "length ?s \<le> 32" using length_digits_u32 [of 10 "- v"] by simp
  moreover have "str - (str + 1) = - 1" by simp
  then have "unat (str - (str + 1)) = 4294967295"
    by (simp add: unsigned_minus_1_eq_mask mask_eq_exp_minus_1 del: diff_add_eq_diff_diff_swap)
  ultimately have "m' str = 45" using spec [OF u(3), of str] by simp
  moreover have "itoa v str 10 m = Some (str + 1, m')"
    using assms u(1) by (simp add: itoa_def)
  moreover have "read_number 10 ?s = unat (- v)"
  proof -
    have "\<forall>d \<in> set (digits 10 (unat (- v))). d < 16"
      using digits_less [of 10 _ "unat (- v)"] by fastforce
    from read_number_digits [OF this] show ?thesis by (simp add: of_digits_digits)
  qed
  ultimately show ?thesis using u(2) unat_uminus_negative [OF assms(1)] assms(1) by auto
qed

theorem itoa_drops_sign_witness:
  "\<exists>m' s. itoa (- 7) 0x1000 10 (\<lambda>_. 0) = Some (0x1001, m') \<and> cstr m' 0x1001 s \<and> read_number 10 s = 7"
proof -
  have "sint (- 7 :: i32) < 0" by simp
  from itoa_drops_sign [OF this, of "0x1000" "\<lambda>_. 0"] show ?thesis by auto
qed

lemma strcpy_loop_cstr:
  "cstr m (src + i) s \<Longrightarrow> length s < unat (dest - src) \<Longrightarrow>
    strcpy_loop dest src i m = Some (write_bytes m (dest + i) (s @ [0]))"
proof (induction s arbitrary: i m)
  case Nil
  then show ?case by (subst strcpy_loop.simps) simp
next
  case (Cons c s)
  let ?m = "m(dest + i := c)"
  have "dest - src \<noteq> 0" using Cons.prems(2) by auto
  then have ne: "dest + i \<noteq> src + i" by simp
  have "dest + i - (src + i) = dest - src" by simp
  then have "length s < unat (dest + i - (src + i + 1))"
    using minus_plus_one [OF ne] Cons.prems(2) by simp
  moreover have "Suc (length s) < unat (dest - src)" using Cons.prems(2) by simp
  then have "length s < 4294967296" using unat_u32_less [of "dest - src"] by linarith
  ultimately have "cstr ?m (src + (i + 1)) s"
    using cstr_other [of s "dest + i" "src + i + 1" m c] Cons.prems(1) by (simp add: add.assoc)
  then have "strcpy_loop dest src (i + 1) ?m = Some (write_bytes ?m (dest + (i + 1)) (s @ [0]))"
    using Cons by simp
  then show ?case using Cons.prems(1) by (subst strcpy_loop.simps) (simp add: add.assoc)
qed

text \<open>On NUL-terminated strings strlen returns the length, strcmp compares, and strcpy
  returns, copies the string with its terminator and changes nothing else.\<close>
theorem string_routines_spec:
  assumes "cstr m p s" and "cstr m q t" and "length s < unat (d - p)"
  shows "strlen m p = Some (word_of_nat (length s)) \<and>
    (\<exists>r. strcmp m p q = Some r \<and> (r = 0 \<longleftrightarrow> s = t)) \<and>
    (\<exists>m'. strcpy d p m = Some (d, m') \<and> cstr m' d s \<and>
      (\<forall>x. length s < unat (x - d) \<longrightarrow> m' x = m x))"
proof -
  let ?m = "write_bytes m d (s @ [0])"
  have n: "length s < 4294967295" using assms(3) unat_u32_le [of "d - p"] by linarith
  have val: "?m x = (if unat (x - d) < Suc (length s) then (s @ [0]) ! unat (x - d) else m x)" for x
    using write_bytes_value [of "s @ [0]" m d x] n by simp
  have idx: "unat (word_of_nat i :: u32) = i" if "i \<le> length s" for i
    using that n by (intro u32_of_nat) simp
  have "strcpy d p m = Some (d, ?m)"
    using strcpy_loop_cstr [of m p 0 s d] assms(1,3) by (simp add: strcpy_def)
  moreover have "bytes_at ?m d (length s) = s"
    by (intro nth_equalityI) (simp_all add: bytes_at_def val idx nth_append)
  moreover have "?m (d + word_of_nat (length s)) = 0" by (simp add: val idx)
  moreover have "0 \<notin> set s" using assms(1) by (simp add: cstr_iff_bytes)
  ultimately have "\<exists>m'. strcpy d p m = Some (d, m') \<and> cstr m' d s \<and>
      (\<forall>x. length s < unat (x - d) \<longrightarrow> m' x = m x)"
    using val by (intro exI [of _ ?m]) (simp add: cstr_iff_bytes)
  then show ?thesis
    using strlen_loop_cstr [OF assms(1), of 0] strcmp_cstr [OF assms(1,2)] by (simp add: strlen_def)
qed

theorem string_routines_spec_witness:
  "strlen (write_bytes (\<lambda>_. 0) 100 [72, 105]) 100 = Some 2 \<and>
    (\<exists>m'. strcpy 200 100 (write_bytes (\<lambda>_. 0) 100 [72, 105]) = Some (200, m') \<and> cstr m' 200 [72, 105])"
proof -
  have c: "cstr (write_bytes (\<lambda>_. 0) 100 [72, 105]) 100 [72, 105]" by simp
  from string_routines_spec [OF c c, of 200] show ?thesis by auto
qed

theorem strchr_returns_code:
  assumes "cstr m p s" and "c = 0 \<or> c \<in> set s"
  shows "strchr m p (scast c) = Some (scast c)"
  using assms
proof (induction s arbitrary: p)
  case Nil
  then show ?case by (subst strchr.simps) simp
next
  case (Cons d s)
  have "sint (scast c :: u32) = sint c" by (simp add: sint_up_scast is_up)
  then show ?case using Cons by (subst strchr.simps) auto
qed

theorem strchr_returns_code_witness:
  "strchr (write_bytes (\<lambda>_. 0) 100 [72, 105]) 100 (scast (105 :: u8)) = Some 105"
proof -
  have c: "cstr (write_bytes (\<lambda>_. 0) 100 [72, 105]) 100 [72, 105]" by simp
  have "(scast (105 :: u8) :: u32) = 105" by simp
  then show ?thesis using strchr_returns_code [OF c, of 105] by simp
qed

end
