(* ===== verification/Console.thy ===== *)
theory Console
  imports Lib Paging
begin

text \<open>
  The two output devices and the formatted output on them: \<^verbatim>\<open>src/src/drivers/vga.c\<close>,
  \<^verbatim>\<open>src/src/drivers/serial.c\<close> and \<^verbatim>\<open>src/src/std/print.c\<close>. The cells of the video memory are
  numbered from \<^verbatim>\<open>terminal_mem\<close>; what the serial port answers is the device of \<open>Port_IO\<close>. The
  address of the local array \<^verbatim>\<open>i_dec\<close> is the argument \<open>frame\<close>, the variadic arguments are the
  list \<open>va\<close> of their 32-bit values.
\<close>

section \<open>State\<close>

definition VGA_COMMAND_PORT :: u16 where "VGA_COMMAND_PORT = 0x3D4"
definition VGA_DATA_PORT :: u16 where "VGA_DATA_PORT = 0x3D5"
definition VGA_CURSOR_HIGH :: u8 where "VGA_CURSOR_HIGH = 14"
definition VGA_CURSOR_LOW :: u8 where "VGA_CURSOR_LOW = 15"
definition VGA_WIDTH :: u32 where "VGA_WIDTH = 80"
definition VGA_HEIGHT :: u32 where "VGA_HEIGHT = 25"
definition TERMINAL_VIDEO_MEMORY_ADDRESS :: u32 where "TERMINAL_VIDEO_MEMORY_ADDRESS = 0xF0000000"
definition TERMINAL_COLOR_DOS_DEFAULT :: u8 where "TERMINAL_COLOR_DOS_DEFAULT = 0x07"
definition PORT :: u16 where "PORT = 0x3f8"

record console =
  sys :: kmem
  io :: machine
  serial_initalized :: u8
  terminal_pos_row :: u32
  terminal_pos_col :: u32
  terminal_color :: u8
  terminal_mem :: u32
  video :: "u32 \<Rightarrow> u16"

definition con_out :: "u16 \<Rightarrow> u8 \<Rightarrow> console \<Rightarrow> console" where
  "con_out p v c = c\<lparr>io := out p v (io c)\<rparr>"

section \<open>Serial port (serial.c)\<close>

text \<open>\<^verbatim>\<open>while (is_transmit_empty() == 0);\<close>\<close>

definition is_transmit_empty :: "machine \<Rightarrow> u8 \<times> machine" where
  "is_transmit_empty m = (let (v, m) = in_port (PORT + 5) m in (v AND 0x20, m))"

definition serial_received :: "machine \<Rightarrow> u8 \<times> machine" where
  "serial_received m = (let (v, m) = in_port (PORT + 5) m in (v AND 1, m))"

partial_function (option) wait_transmit :: "machine \<Rightarrow> machine option" where
  "wait_transmit m = (let (v, m) = is_transmit_empty m in if v = 0 then wait_transmit m else Some m)"

partial_function (option) serial_read :: "machine \<Rightarrow> (u8 \<times> machine) option" where
  "serial_read m = (let (v, m) = serial_received m in if v = 0 then serial_read m else Some (in_port PORT m))"

definition serial_putc :: "u8 \<Rightarrow> console \<Rightarrow> console option" where
  "serial_putc ch c =
     (if serial_initalized c = 0 then Some c
      else case wait_transmit (io c) of None \<Rightarrow> None | Some m \<Rightarrow> Some (con_out PORT ch (c\<lparr>io := m\<rparr>)))"

partial_function (option) serial_write_loop :: "u32 \<Rightarrow> u32 \<Rightarrow> u32 \<Rightarrow> console \<Rightarrow> console option" where
  "serial_write_loop str n i c =
     (if i < n then
        (case serial_putc (ram (sys c) (str + i)) c of None \<Rightarrow> None
         | Some c \<Rightarrow> serial_write_loop str n (i + 1 + 1) c)
      else Some c)"

definition serial_write :: "u32 \<Rightarrow> u32 \<Rightarrow> console \<Rightarrow> console option" where
  "serial_write str n c = (if str = 0 then Some c else serial_write_loop str n 0 c)"

partial_function (option) serial_string_loop :: "u32 \<Rightarrow> u32 \<Rightarrow> console \<Rightarrow> console option" where
  "serial_string_loop str i c =
     (if ram (sys c) (str + i) \<noteq> 0 then
        (case serial_putc (ram (sys c) (str + i)) c of None \<Rightarrow> None
         | Some c \<Rightarrow> serial_string_loop str (i + 1) c)
      else Some c)"

definition serial_writestring :: "u32 \<Rightarrow> console \<Rightarrow> console option" where
  "serial_writestring str c = (if str = 0 then Some c else serial_string_loop str 0 c)"

text \<open>Literals of the source: their characters one after the other.\<close>

fun serial_puts :: "u8 list \<Rightarrow> console \<Rightarrow> console option" where
  "serial_puts [] c = Some c"
| "serial_puts (x # xs) c = (case serial_putc x c of None \<Rightarrow> None | Some c \<Rightarrow> serial_puts xs c)"

definition init_serial :: "u32 \<Rightarrow> console \<Rightarrow> console option" where
  "init_serial msg c =
     (let c = c\<lparr>io := out_all [(PORT + 1, 0x00), (PORT + 3, 0x80), (PORT + 0, 0x03), (PORT + 1, 0x00),
            (PORT + 3, 0x03), (PORT + 2, 0xC7), (PORT + 4, 0x0B)] (io c)\<rparr>
      in serial_writestring msg (c\<lparr>serial_initalized := 1\<rparr>))"

text \<open>
  \<^verbatim>\<open>itoa\<close> into \<^verbatim>\<open>char i_dec[32]\<close>: a numeral whose terminator lies past the end of the array is an
  access outside of it.
\<close>

definition format_number :: "string \<Rightarrow> nat \<Rightarrow> u32 \<Rightarrow> u32 \<Rightarrow> u32 \<Rightarrow> console \<Rightarrow> (u32 \<times> console) res" where
  "format_number file line frame d base c =
     res_bind (returned (itoa d frame base (ram (sys c)))) (\<lambda>(x, m).
       res_bind (returned (strlen m x)) (\<lambda>n.
         if x \<noteq> 0 \<and> unat (x - frame) + unat n \<ge> 32 then Inl (Undefined file line)
         else Inr (x, c\<lparr>sys := (sys c)\<lparr>ram := m\<rparr>\<rparr>)))"

definition serial_writebase :: "u32 \<Rightarrow> u32 \<Rightarrow> u32 \<Rightarrow> console \<Rightarrow> console res" where
  "serial_writebase frame d base c =
     (if base < 2 \<or> base > 16 then Inr c
      else res_bind (format_number ''src/drivers/serial.c'' 59 frame d base c)
        (\<lambda>(x, c). returned (serial_writestring x c)))"

section \<open>Terminal (vga.c)\<close>

definition vga_entry :: "u8 \<Rightarrow> u8 \<Rightarrow> u16" where
  "vga_entry asci color = ucast asci OR push_bit 8 (ucast color)"

definition vga_entry_color :: "u8 \<Rightarrow> u8 \<Rightarrow> u8" where
  "vga_entry_color fg bg = fg OR push_bit 4 bg"

definition terminal_pos :: "u32 \<Rightarrow> u32 \<Rightarrow> console \<Rightarrow> console" where
  "terminal_pos x y c = c\<lparr>terminal_pos_col := x, terminal_pos_row := y\<rparr>"

definition getX :: "console \<Rightarrow> u32" where "getX c = terminal_pos_col c"

definition getY :: "console \<Rightarrow> u32" where "getY c = terminal_pos_row c"

definition terminal_cursor_set :: "u8 \<Rightarrow> u8 \<Rightarrow> console \<Rightarrow> console" where
  "terminal_cursor_set row col c =
     (let pos = (ucast row :: u16) * 80 + ucast col
      in c\<lparr>io := out_all [(VGA_COMMAND_PORT, VGA_CURSOR_HIGH), (VGA_DATA_PORT, ucast (drop_bit 8 pos)),
           (VGA_COMMAND_PORT, VGA_CURSOR_LOW), (VGA_DATA_PORT, ucast pos)] (io c)\<rparr>)"

definition terminal_cursor_enable :: "u8 \<Rightarrow> u8 \<Rightarrow> console \<Rightarrow> console" where
  "terminal_cursor_enable cursor_start cursor_end c =
     (let m = out 0x3D4 0x0A (io c);
          (v, m) = in_port 0x3D5 m;
          m = out 0x3D5 ((v AND 0xC0) OR cursor_start) m;
          m = out 0x3D4 0x0B m;
          (v, m) = in_port 0x3D5 m;
          m = out 0x3D5 ((v AND 0xE0) OR cursor_end) m
      in c\<lparr>io := m\<rparr>)"

text \<open>The counting loops over cells, as folds over the indices they visit.\<close>

definition set_cell :: "u32 \<Rightarrow> u16 \<Rightarrow> console \<Rightarrow> console" where
  "set_cell i v c = c\<lparr>video := (video c)(i := v)\<rparr>"

definition cells :: "nat \<Rightarrow> nat \<Rightarrow> u32 list" where
  "cells a b = map word_of_nat [a..<b]"

definition terminal_clear :: "console \<Rightarrow> console" where
  "terminal_clear c = fold (\<lambda>i c. set_cell i (vga_entry 32 (terminal_color c)) c) (cells 0 2000) c"

definition terminal_scroll :: "console \<Rightarrow> console" where
  "terminal_scroll c =
     (let c = fold (\<lambda>i c. set_cell i (video c (i + VGA_WIDTH)) c) (cells 80 1920) c;
          empty = vga_entry 32 (terminal_color c);
          c = fold (\<lambda>i. set_cell i empty) (cells 1920 2000) c
      in c\<lparr>terminal_pos_col := 0, terminal_pos_row := terminal_pos_row c - 1\<rparr>)"

definition terminal_setcolor :: "u8 \<Rightarrow> console \<Rightarrow> console" where
  "terminal_setcolor color c =
     fold (\<lambda>i c. set_cell i (vga_entry (ucast (video c i)) (terminal_color c)) c) (cells 0 2000)
       (c\<lparr>terminal_color := color\<rparr>)"

definition entry_at :: "u8 \<Rightarrow> u8 \<Rightarrow> u8 \<Rightarrow> u8 \<Rightarrow> console \<Rightarrow> console" where
  "entry_at col row color ch c =
     (let c = set_cell (ucast row * VGA_WIDTH + ucast col) (vga_entry ch color) c
      in if (ucast col :: u32) \<ge> VGA_WIDTH then terminal_cursor_set (row + 1) 0 c
         else terminal_cursor_set row (col + 1) c)"

definition terminal_putc :: "u8 \<Rightarrow> console \<Rightarrow> console" where
  "terminal_putc ch c =
     (if ch = 10 then
        let c = c\<lparr>terminal_pos_col := 0, terminal_pos_row := terminal_pos_row c + 1\<rparr>;
            c = (if terminal_pos_row c \<ge> VGA_HEIGHT then terminal_scroll c else c)
        in terminal_cursor_set (ucast (terminal_pos_row c)) 0 c
      else
        let c = entry_at (ucast (terminal_pos_col c)) (ucast (terminal_pos_row c)) (terminal_color c) ch c;
            c = c\<lparr>terminal_pos_col := terminal_pos_col c + 1\<rparr>
        in if terminal_pos_col c \<ge> VGA_WIDTH then
             let c = c\<lparr>terminal_pos_col := 0, terminal_pos_row := terminal_pos_row c + 1\<rparr>
             in if terminal_pos_row c \<ge> VGA_HEIGHT then terminal_scroll c else c
           else c)"

definition terminal_write :: "u32 \<Rightarrow> u32 \<Rightarrow> console \<Rightarrow> console" where
  "terminal_write data sz c =
     (if data = 0 then c
      else fold (\<lambda>i c. terminal_putc (ram (sys c) (data + i)) c) (cells 0 (unat sz)) c)"

partial_function (option) terminal_string_loop :: "u32 \<Rightarrow> i32 \<Rightarrow> console \<Rightarrow> (i32 \<times> console) option" where
  "terminal_string_loop data i c =
     (if ram (sys c) (data + i) \<noteq> 0
      then terminal_string_loop data (i + 1) (terminal_putc (ram (sys c) (data + i)) c)
      else Some (i, c))"

definition terminal_writestring :: "u32 \<Rightarrow> console \<Rightarrow> (i32 \<times> console) option" where
  "terminal_writestring data c = terminal_string_loop data 0 c"

definition terminal_write_base :: "u32 \<Rightarrow> u32 \<Rightarrow> u32 \<Rightarrow> console \<Rightarrow> console res" where
  "terminal_write_base frame d base c =
     res_bind (format_number ''src/drivers/vga.c'' 136 frame d base c)
       (\<lambda>(x, c). res_bind (returned (terminal_writestring x c)) (\<lambda>(i, c). Inr c))"

declare wait_transmit.simps [code] serial_read.simps [code] serial_write_loop.simps [code]
  serial_string_loop.simps [code] terminal_string_loop.simps [code]

section \<open>Formatted output (print.c)\<close>

datatype STREAM = TERMINAL | SERIAL

definition put_char :: "STREAM \<Rightarrow> u8 \<Rightarrow> console \<Rightarrow> console res" where
  "put_char stream ch c =
     (case stream of TERMINAL \<Rightarrow> Inr (terminal_putc ch c) | SERIAL \<Rightarrow> returned (serial_putc ch c))"

definition put_string :: "STREAM \<Rightarrow> u32 \<Rightarrow> console \<Rightarrow> console res" where
  "put_string stream str c =
     (case stream of TERMINAL \<Rightarrow> res_bind (returned (terminal_writestring str c)) (\<lambda>(i, c). Inr c)
      | SERIAL \<Rightarrow> returned (serial_writestring str c))"

definition put_literal :: "STREAM \<Rightarrow> u8 list \<Rightarrow> console \<Rightarrow> console res" where
  "put_literal stream s c =
     (case stream of TERMINAL \<Rightarrow> Inr (fold terminal_putc s c) | SERIAL \<Rightarrow> returned (serial_puts s c))"

definition put_number :: "STREAM \<Rightarrow> u32 \<Rightarrow> u32 \<Rightarrow> u32 \<Rightarrow> console \<Rightarrow> console res" where
  "put_number stream frame num base c =
     (case stream of TERMINAL \<Rightarrow> terminal_write_base frame num base c
      | SERIAL \<Rightarrow> serial_writebase frame num base c)"

text \<open>
  The \<^verbatim>\<open>switch\<close> after a percent sign: \<open>c s d u b x p\<close> and the default, which takes no
  argument. Reading an argument that was not passed is undefined. Hexadecimal numbers go to
  the terminal whatever the stream.
\<close>

definition print_directive ::
  "u32 \<Rightarrow> STREAM \<Rightarrow> u8 \<Rightarrow> u32 list \<Rightarrow> console \<Rightarrow> (u32 list \<times> console) res" where
  "print_directive frame stream ch va c =
     (if ch \<notin> {99, 115, 100, 117, 98, 120, 112}
      then res_bind (put_literal stream [37] c) (\<lambda>c. Inr (va, c))
      else case va of
        [] \<Rightarrow> Inl (Undefined ''src/std/print.c'' 22)
      | x # va \<Rightarrow>
          res_bind
            (if ch = 99 then put_char stream (ucast x) c
             else if ch = 115 then put_string stream x c
             else if ch = 100 \<or> ch = 117 then put_number stream frame x 10 c
             else if ch = 98 then res_bind (put_number stream frame x 2 c) (put_char stream 98)
             else if ch = 120 then terminal_write_base frame x 16 c
             else res_bind (put_literal stream [48, 120] c) (put_number stream frame x 16))
            (\<lambda>c. Inr (va, c)))"

partial_function (option) print_loop ::
  "u32 \<Rightarrow> STREAM \<Rightarrow> u32 \<Rightarrow> u32 list \<Rightarrow> u32 \<Rightarrow> console \<Rightarrow> (u32 \<times> console) res option" where
  "print_loop frame stream format va i c =
     (let ch = ram (sys c) (format + i)
      in if ch = 0 then Some (Inr (i, c))
         else if ch = 37 then
           (case print_directive frame stream (ram (sys c) (format + (i + 1))) va c of
              Inl e \<Rightarrow> Some (Inl e)
            | Inr (va, c) \<Rightarrow> print_loop frame stream format va (i + 1 + 1) c)
         else
           (case put_char stream ch c of
              Inl e \<Rightarrow> Some (Inl e)
            | Inr c \<Rightarrow> print_loop frame stream format va (i + 1) c))"

declare print_loop.simps [code]

definition print :: "u32 \<Rightarrow> STREAM \<Rightarrow> u32 \<Rightarrow> u32 list \<Rightarrow> console \<Rightarrow> (u32 \<times> console) res" where
  "print frame stream format va c =
     (if format = 0 then Inr (0, c) else loop_res (print_loop frame stream format va 0 c))"

definition print_at ::
  "u32 \<Rightarrow> STREAM \<Rightarrow> u32 \<Rightarrow> u32 \<Rightarrow> u32 \<Rightarrow> u32 list \<Rightarrow> console \<Rightarrow> (u32 \<times> console) res" where
  "print_at frame stream x y format va c =
     (if format = 0 then Inr (0, c)
      else
        let x' = getX c; y' = getY c
        in res_bind (loop_res (print_loop frame stream format va 0 (terminal_pos x y c)))
          (\<lambda>(i, c). Inr (i, terminal_pos x' y' c)))"

definition init_terminal :: "u32 \<Rightarrow> u32 \<Rightarrow> console \<Rightarrow> console res" where
  "init_terminal frame msg c =
     res_bind (map_page 0xb8000 TERMINAL_VIDEO_MEMORY_ADDRESS (sys c)) (\<lambda>s.
       let c = c\<lparr>sys := s, terminal_pos_row := 0, terminal_pos_col := 0,
             terminal_color := TERMINAL_COLOR_DOS_DEFAULT, terminal_mem := TERMINAL_VIDEO_MEMORY_ADDRESS\<rparr>;
           c = terminal_clear c;
           c = terminal_cursor_enable 0 15 c
       in res_bind (print frame SERIAL msg [] c) (\<lambda>(i, c). Inr c))"

end
