(* ===== verification/Console_Theorems.thy ===== *)
theory Console_Theorems
  imports Console
begin

text \<open>
  Properties of the console: the cursor stays on the screen, what one character and a scroll
  do to the cells, and what formatted output writes, to which device.
\<close>

section \<open>Cells\<close>

lemma console_frames [simp]:
  "sys (set_cell i v c) = sys c" "io (set_cell i v c) = io c"
  "terminal_pos_row (set_cell i v c) = terminal_pos_row c"
  "terminal_pos_col (set_cell i v c) = terminal_pos_col c"
  "terminal_color (set_cell i v c) = terminal_color c"
  "serial_initalized (set_cell i v c) = serial_initalized c"
  "video (set_cell i v c) = (video c)(i := v)"
  "sys (terminal_cursor_set r k c) = sys c" "video (terminal_cursor_set r k c) = video c"
  "terminal_pos_row (terminal_cursor_set r k c) = terminal_pos_row c"
  "terminal_pos_col (terminal_cursor_set r k c) = terminal_pos_col c"
  "terminal_color (terminal_cursor_set r k c) = terminal_color c"
  "serial_initalized (terminal_cursor_set r k c) = serial_initalized c"
  by (simp_all add: set_cell_def terminal_cursor_set_def Let_def)

lemma fold_set_cell_frames [simp]:
  "sys (fold (\<lambda>i c. set_cell i (f i c) c) is c) = sys c"
  "io (fold (\<lambda>i c. set_cell i (f i c) c) is c) = io c"
  "terminal_pos_row (fold (\<lambda>i c. set_cell i (f i c) c) is c) = terminal_pos_row c"
  "terminal_pos_col (fold (\<lambda>i c. set_cell i (f i c) c) is c) = terminal_pos_col c"
  "terminal_color (fold (\<lambda>i c. set_cell i (f i c) c) is c) = terminal_color c"
  "serial_initalized (fold (\<lambda>i c. set_cell i (f i c) c) is c) = serial_initalized c"
  by (induction "is" arbitrary: c) simp_all

lemmas fold_set_const_frames [simp] = fold_set_cell_frames [where f = "\<lambda>i c. e" for e]

lemma cells_Suc: "a \<le> b \<Longrightarrow> cells a (Suc b) = cells a b @ [word_of_nat b]"
  by (simp add: cells_def)

lemma cell_index: "unat (i :: u32) = b \<longleftrightarrow> i = word_of_nat b" if "b < 4294967296"
  using that u32_of_nat [of b] by (metis u32_eqI)

lemma fold_set_const:
  "a \<le> b \<Longrightarrow> b \<le> 4294967295 \<Longrightarrow> video (fold (\<lambda>i. set_cell i e) (cells a b) c) i
    = (if a \<le> unat i \<and> unat i < b then e else video c i)"
proof (induction b rule: dec_induct)
  case base
  then show ?case by (auto simp: cells_def)
next
  case (step b)
  then show ?case using cell_index [of b i] by (auto simp: cells_Suc less_Suc_eq)
qed

text \<open>Copying towards lower cells reads each source before it is overwritten.\<close>

lemma fold_copy_down:
  "a \<le> b \<Longrightarrow> b \<le> 4294967215 \<Longrightarrow> video (fold (\<lambda>i c. set_cell i (video c (i + VGA_WIDTH)) c) (cells a b) c) i
    = (if a \<le> unat i \<and> unat i < b then video c (i + VGA_WIDTH) else video c i)"
proof (induction b arbitrary: i rule: dec_induct)
  case base
  then show ?case by (auto simp: cells_def)
next
  case (step b)
  have "unat (word_of_nat b + VGA_WIDTH :: u32) = b + 80"
    using step.prems by (simp add: VGA_WIDTH_def u32_add_nowrap u32_of_nat)
  then have "video (fold (\<lambda>i c. set_cell i (video c (i + VGA_WIDTH)) c) (cells a b) c) (word_of_nat b + VGA_WIDTH)
      = video c (word_of_nat b + VGA_WIDTH)"
    using step by simp
  then show ?case using step cell_index [of b i] by (auto simp: cells_Suc less_Suc_eq)
qed

lemma terminal_scroll_video:
  "video (terminal_scroll c) i =
    (if unat i < 80 then video c i
     else if unat i < 1920 then video c (i + 80)
     else if unat i < 2000 then vga_entry 32 (terminal_color c) else video c i)"
  by (simp add: terminal_scroll_def Let_def fold_set_const fold_copy_down)
    (simp add: VGA_WIDTH_def)

lemma terminal_scroll_frames [simp]:
  "terminal_pos_col (terminal_scroll c) = 0" "terminal_pos_row (terminal_scroll c) = terminal_pos_row c - 1"
  "terminal_color (terminal_scroll c) = terminal_color c" "sys (terminal_scroll c) = sys c"
  "io (terminal_scroll c) = io c" "serial_initalized (terminal_scroll c) = serial_initalized c"
  by (simp_all add: terminal_scroll_def Let_def)

lemma terminal_putc_frames [simp]:
  "sys (terminal_putc ch c) = sys c" "terminal_color (terminal_putc ch c) = terminal_color c"
  "serial_initalized (terminal_putc ch c) = serial_initalized c"
  by (simp_all add: terminal_putc_def entry_at_def Let_def)

lemma fold_putc_frames [simp]:
  "sys (fold terminal_putc s c) = sys c" "serial_initalized (fold terminal_putc s c) = serial_initalized c"
  by (induction s arbitrary: c) simp_all

section \<open>One character\<close>

definition on_screen :: "console \<Rightarrow> bool" where
  "on_screen c \<longleftrightarrow> unat (terminal_pos_row c) < 25 \<and> unat (terminal_pos_col c) < 80"

definition cell_of :: "console \<Rightarrow> nat" where
  "cell_of c = unat (terminal_pos_row c) * 80 + unat (terminal_pos_col c)"

lemma small_ucast: "unat (x :: u32) < 256 \<Longrightarrow> unat (ucast x :: u8) = unat x"
  by (simp add: unsigned_ucast_eq take_bit_nat_eq_self)

lemma unat_Suc_u32: "unat (x :: u32) < 1000 \<Longrightarrow> unat (x + 1) = unat x + 1"
  by (simp add: u32_add_nowrap)

lemma entry_at_frames [simp]:
  "sys (entry_at k r col ch c) = sys c" "terminal_pos_row (entry_at k r col ch c) = terminal_pos_row c"
  "terminal_pos_col (entry_at k r col ch c) = terminal_pos_col c"
  "terminal_color (entry_at k r col ch c) = terminal_color c"
  by (simp_all add: entry_at_def Let_def)

lemma entry_at_video:
  assumes "on_screen c"
  shows "video (entry_at (ucast (terminal_pos_col c)) (ucast (terminal_pos_row c)) col ch c)
    = (video c)(word_of_nat (cell_of c) := vga_entry ch col)"
proof -
  let ?r = "terminal_pos_row c" and ?k = "terminal_pos_col c"
  have b: "unat ?r < 25" "unat ?k < 80" using assms by (simp_all add: on_screen_def)
  define x y where "x = (ucast ?r :: u8)" and "y = (ucast ?k :: u8)"
  have u: "unat x = unat ?r" "unat y = unat ?k" using b by (simp_all add: x_def y_def small_ucast)
  have "unat (ucast x * VGA_WIDTH :: u32) = unat ?r * 80"
    using b u by (simp add: VGA_WIDTH_def u32_mult_nowrap)
  then have "unat (ucast x * VGA_WIDTH + ucast y :: u32) = cell_of c"
    using b u by (simp add: u32_add_nowrap cell_of_def)
  moreover have "cell_of c < 4294967296" using b by (simp add: cell_of_def)
  ultimately have "ucast x * VGA_WIDTH + ucast y = (word_of_nat (cell_of c) :: u32)"
    by (intro u32_eqI) (simp add: u32_of_nat)
  then show ?thesis by (simp add: entry_at_def Let_def x_def y_def)
qed

text \<open>C20: terminal_putc keeps the cursor on the 80 by 25 screen and writes no cell beyond it: a
  character goes to the cell of the cursor, which moves on by one, a newline moves to the
  next line, and past the last cell the screen scrolls by one line from the second line on.\<close>
theorem terminal_putc_spec:
  assumes "on_screen c"
  shows "on_screen (terminal_putc ch c) \<and>
    (\<forall>i. 2000 \<le> unat i \<longrightarrow> video (terminal_putc ch c) i = video c i) \<and>
    (if ch = 10 \<and> unat (terminal_pos_row c) < 24 then
       cell_of (terminal_putc ch c) = 80 * (unat (terminal_pos_row c) + 1) \<and> video (terminal_putc ch c) = video c
     else if ch \<noteq> 10 \<and> cell_of c < 1999 then
       cell_of (terminal_putc ch c) = cell_of c + 1 \<and>
       video (terminal_putc ch c) = (video c)(word_of_nat (cell_of c) := vga_entry ch (terminal_color c))
     else
       cell_of (terminal_putc ch c) = 1920 \<and>
       (\<forall>i. video (terminal_putc ch c) i =
         (if unat i < 80 then video c i
          else if ch \<noteq> 10 \<and> unat i = 1919 then vga_entry ch (terminal_color c)
          else if unat i < 1920 then video c (i + 80)
          else if unat i < 2000 then vga_entry 32 (terminal_color c) else video c i)))"
proof -
  let ?r = "terminal_pos_row c" and ?k = "terminal_pos_col c"
  have b: "unat ?r < 25" "unat ?k < 80" using assms by (simp_all add: on_screen_def)
  have r1: "unat (?r + 1) = unat ?r + 1" and k1: "unat (?k + 1) = unat ?k + 1"
    using b by (simp_all add: unat_Suc_u32)
  note video = entry_at_video [OF assms]
  have far: "\<not> 2000 \<le> unat (word_of_nat (cell_of c) :: u32)"
  proof -
    have "cell_of c < 2000" using b by (simp add: cell_of_def)
    then show ?thesis by (simp add: u32_of_nat)
  qed
  have rge: "VGA_HEIGHT \<le> ?r + 1 \<longleftrightarrow> unat ?r = 24"
    using r1 b by (auto simp: VGA_HEIGHT_def word_le_nat_alt)
  have kge: "VGA_WIDTH \<le> ?k + 1 \<longleftrightarrow> unat ?k = 79"
    using k1 b by (auto simp: VGA_WIDTH_def word_le_nat_alt)
  show ?thesis
  proof (cases "ch = 10")
    case True
    show ?thesis
    proof (cases "unat ?r = 24")
      case r24: True
      then show ?thesis using True b r1 rge
        by (auto simp: terminal_putc_def Let_def on_screen_def cell_of_def terminal_scroll_video)
    next
      case False
      then show ?thesis using True b r1 rge
        by (auto simp: terminal_putc_def Let_def on_screen_def cell_of_def)
    qed
  next
    case ch: False
    show ?thesis
    proof (cases "unat ?k = 79")
      case False
      then have "cell_of c < 1999" using b by (simp add: cell_of_def)
      then show ?thesis using ch False b k1 kge far
        by (auto simp: terminal_putc_def Let_def on_screen_def video) (simp_all add: cell_of_def)
    next
      case k79: True
      show ?thesis
      proof (cases "unat ?r = 24")
        case False
        then have "cell_of c < 1999" using b k79 by (simp add: cell_of_def)
        then show ?thesis using ch False k79 b r1 k1 kge rge far
          by (auto simp: terminal_putc_def Let_def on_screen_def video) (simp_all add: cell_of_def)
      next
        case True
        have cell: "cell_of c = 1999" using True k79 by (simp add: cell_of_def)
        have last: "i + 80 = 1999 \<longleftrightarrow> unat i = 1919" if "unat i < 1920" for i :: u32
        proof -
          have "unat (i + 80) = unat i + 80" using that by (simp add: u32_add_nowrap)
          then show ?thesis by (auto intro: u32_eqI)
        qed
        show ?thesis using ch True k79 b r1 k1 kge rge cell last
          by (auto simp: terminal_putc_def Let_def on_screen_def video terminal_scroll_video) (simp_all add: cell_of_def)
      qed
    qed
  qed
qed

section \<open>Strings and numbers\<close>

lemma terminal_string_loop_cstr:
  "cstr (ram (sys c)) (data + i) s \<Longrightarrow>
    terminal_string_loop data i c = Some (i + word_of_nat (length s), fold terminal_putc s c)"
proof (induction s arbitrary: i c)
  case Nil
  then show ?case by (subst terminal_string_loop.simps) simp
next
  case (Cons ch s)
  then have "cstr (ram (sys (terminal_putc ch c))) (data + (i + 1)) s" by (simp add: add.assoc)
  from Cons.IH [OF this] show ?case
    using Cons.prems by (subst terminal_string_loop.simps) (simp add: add.assoc add.commute)
qed

text \<open>A numeral of fewer than 32 characters, on the terminal.\<close>

lemma write_base_string:
  assumes "itoa d frame base (ram (sys c)) = Some (x, m)" and "cstr m x s"
    and "unat (x - frame) + length s < 32"
  shows "terminal_write_base frame d base c = Inr (fold terminal_putc s (c\<lparr>sys := (sys c)\<lparr>ram := m\<rparr>\<rparr>))"
proof -
  have "unat (word_of_nat (length s) :: u32) = length s" using assms(3) by (intro u32_of_nat) simp
  then have "format_number ''src/drivers/vga.c'' 136 frame d base c = Inr (x, c\<lparr>sys := (sys c)\<lparr>ram := m\<rparr>\<rparr>)"
    using assms by (simp add: format_number_def strlen_def strlen_loop_cstr)
  moreover have "terminal_writestring x (c\<lparr>sys := (sys c)\<lparr>ram := m\<rparr>\<rparr>)
      = Some (word_of_nat (length s), fold terminal_putc s (c\<lparr>sys := (sys c)\<lparr>ram := m\<rparr>\<rparr>))"
    using terminal_string_loop_cstr [of "c\<lparr>sys := (sys c)\<lparr>ram := m\<rparr>\<rparr>" x 0 s] assms(2)
    by (simp add: terminal_writestring_def)
  ultimately show ?thesis by (simp add: terminal_write_base_def)
qed

definition decimal_of :: "u32 \<Rightarrow> u8 list" where
  "decimal_of d = map digit_char (rev (digits 10 (nat \<bar>sint d\<bar>)))"

definition hex_of :: "u32 \<Rightarrow> u8 list" where
  "hex_of d = map digit_char (rev (digits 16 (unat d)))"

lemma unat_nonneg_sint:
  assumes "0 \<le> sint (d :: u32)"
  shows "unat d = nat (sint d)"
proof -
  have "sint d < 2147483648" using sint_lt [of d] by simp
  then have "uint d = sint d" using assms by (simp add: uint_sint take_bit_int_eq_self)
  then show ?thesis by (simp add: unat_eq_nat_uint)
qed

text \<open>The numeral that \<^verbatim>\<open>itoa\<close> leaves in a buffer of 32 bytes at \<open>frame\<close>.\<close>

lemma itoa_decimal:
  assumes "frame \<noteq> 0"
  obtains x m' where "itoa d frame 10 m = Some (x, m')" "cstr m' x (decimal_of d)"
    "unat (x - frame) + length (decimal_of d) < 32" "\<forall>z. 32 \<le> unat (z - frame) \<longrightarrow> m' z = m z"
proof (cases "sint d < 0")
  case True
  let ?m = "m(frame := 45)"
  have len: "length (decimal_of d) \<le> 10"
    using length_digits_10 [of "- d"] unat_uminus_negative [OF True] True by (simp add: decimal_of_def)
  have "map digit_char (rev (digits 10 (unat (- d)))) = decimal_of d"
    using unat_uminus_negative [OF True] True by (simp add: decimal_of_def)
  then obtain m' where m: "utoa (- d) (frame + 1) 10 ?m = Some (frame + 1, m')" "cstr m' (frame + 1) (decimal_of d)"
    "\<forall>z. length (decimal_of d) < unat (z - (frame + 1)) \<longrightarrow> m' z = ?m z"
    using utoa_string [of "10 :: u32" "- d" "frame + 1" ?m] by auto
  have "m' z = m z" if z: "32 \<le> unat (z - frame)" for z
  proof -
    have "z \<noteq> frame" using z by auto
    note u = minus_plus_one [OF this]
    have "length (decimal_of d) < unat (z - (frame + 1))" using u(1) z len by simp
    then show ?thesis using m(3) \<open>z \<noteq> frame\<close> by simp
  qed
  then show thesis using m(1,2) True assms len by (intro that [of "frame + 1" m']) (simp_all add: itoa_def)
next
  case False
  then have eq: "nat \<bar>sint d\<bar> = unat d" using unat_nonneg_sint [of d] by simp
  have len: "length (decimal_of d) \<le> 10" using length_digits_10 [of d] by (simp add: decimal_of_def eq)
  obtain m' where m: "utoa d frame 10 m = Some (frame, m')" "cstr m' frame (decimal_of d)"
    "\<forall>z. length (decimal_of d) < unat (z - frame) \<longrightarrow> m' z = m z"
    using utoa_string [of "10 :: u32" d frame m] by (auto simp: decimal_of_def eq)
  then show thesis using False assms len by (intro that [of frame m']) (simp_all add: itoa_def)
qed

lemma itoa_hex:
  assumes "frame \<noteq> 0"
  obtains m' where "itoa d frame 16 m = Some (frame, m')" "cstr m' frame (hex_of d)" "length (hex_of d) < 32"
    "\<forall>z. 32 \<le> unat (z - frame) \<longrightarrow> m' z = m z"
proof -
  have len: "length (hex_of d) \<le> 8" using length_digits_16 [of d] by (simp add: hex_of_def)
  obtain m' where m: "utoa d frame 16 m = Some (frame, m')" "cstr m' frame (hex_of d)"
    "\<forall>z. length (hex_of d) < unat (z - frame) \<longrightarrow> m' z = m z"
    using utoa_string [of "16 :: u32" d frame m] by (auto simp: hex_of_def)
  then show thesis using assms len by (intro that [of m']) (simp_all add: itoa_def)
qed

lemma write_decimal:
  assumes "frame \<noteq> 0"
  shows "\<exists>m. terminal_write_base frame d 10 c = Inr (fold terminal_putc (decimal_of d) (c\<lparr>sys := (sys c)\<lparr>ram := m\<rparr>\<rparr>)) \<and>
    (\<forall>z. 32 \<le> unat (z - frame) \<longrightarrow> m z = ram (sys c) z)"
  using itoa_decimal [OF assms, of d "ram (sys c)"] write_base_string by metis

lemma write_hex:
  assumes "frame \<noteq> 0"
  shows "\<exists>m. terminal_write_base frame d 16 c = Inr (fold terminal_putc (hex_of d) (c\<lparr>sys := (sys c)\<lparr>ram := m\<rparr>\<rparr>)) \<and>
    (\<forall>z. 32 \<le> unat (z - frame) \<longrightarrow> m z = ram (sys c) z)"
proof -
  obtain m where m: "itoa d frame 16 (ram (sys c)) = Some (frame, m)" "cstr m frame (hex_of d)" "length (hex_of d) < 32"
    "\<forall>z. 32 \<le> unat (z - frame) \<longrightarrow> m z = ram (sys c) z"
    by (rule itoa_hex [OF assms])
  have "terminal_write_base frame d 16 c = Inr (fold terminal_putc (hex_of d) (c\<lparr>sys := (sys c)\<lparr>ram := m\<rparr>\<rparr>))"
    by (rule write_base_string [OF m(1,2)]) (simp add: m(3))
  then show ?thesis using m(4) by blast
qed

section \<open>print\<close>

lemma print_loop_plain:
  "cstr (ram (sys c)) (f + i) s \<Longrightarrow> 37 \<notin> set s \<Longrightarrow>
    print_loop frame TERMINAL f va i c = Some (Inr (i + word_of_nat (length s), fold terminal_putc s c))"
proof (induction s arbitrary: i c)
  case Nil
  then show ?case by (subst print_loop.simps) simp
next
  case (Cons ch s)
  then have "cstr (ram (sys (terminal_putc ch c))) (f + (i + 1)) s" by (simp add: add.assoc)
  from Cons.IH [OF this] show ?case
    using Cons.prems by (subst print_loop.simps) (simp add: put_char_def add.assoc add.commute)
qed

text \<open>C21: print with a format %d or %u followed by plain text returns the length of the format
  and shows on the terminal the digits of the absolute value of the signed argument, never a
  minus sign, and then the text.\<close>
theorem print_decimal:
  assumes "f \<noteq> 0" and "frame \<noteq> 0" and "d = 100 \<or> d = 117"
    and "cstr (ram (sys c)) f ([37, d] @ s)" and "37 \<notin> set s"
    and "\<forall>k \<le> length s + 2. 32 \<le> unat (f + word_of_nat k - frame)"
  shows "\<exists>m. print frame TERMINAL f [v] c = Inr (word_of_nat (length s + 2),
      fold terminal_putc (decimal_of v @ s) (c\<lparr>sys := (sys c)\<lparr>ram := m\<rparr>\<rparr>)) \<and>
    read_number 10 (decimal_of v) = nat \<bar>sint v\<bar> \<and> 45 \<notin> set (decimal_of v)"
proof -
  obtain m where w: "terminal_write_base frame v 10 c
      = Inr (fold terminal_putc (decimal_of v) (c\<lparr>sys := (sys c)\<lparr>ram := m\<rparr>\<rparr>))"
    "\<forall>z. 32 \<le> unat (z - frame) \<longrightarrow> m z = ram (sys c) z"
    using write_decimal [OF assms(2)] by blast
  let ?c = "fold terminal_putc (decimal_of v) (c\<lparr>sys := (sys c)\<lparr>ram := m\<rparr>\<rparr>)"
  have dig: "\<forall>x \<in> set (digits 10 (nat \<bar>sint v\<bar>)). x < 16"
    using digits_less [of 10 _ "nat \<bar>sint v\<bar>"] by fastforce
  have num: "read_number 10 (decimal_of v) = nat \<bar>sint v\<bar>"
    using read_number_digits [OF dig] by (simp add: decimal_of_def of_digits_digits)
  have sign: "45 \<notin> set (decimal_of v)"
  proof
    assume "45 \<in> set (decimal_of v)"
    then obtain x where "x < 16" "digit_char x = 45" using dig by (auto simp: decimal_of_def)
    then show False by (drule_tac below_16) (elim disjE; simp add: digit_char_def)
  qed
  have "cstr m (f + 2) s"
  proof -
    have "m (f + 2 + word_of_nat k) = ram (sys c) (f + 2 + word_of_nat k)" if "k \<le> length s" for k
    proof -
      have "f + 2 + word_of_nat k = f + (word_of_nat (k + 2) :: u32)" by simp
      moreover have "32 \<le> unat (f + word_of_nat (k + 2) - frame)"
        using that by (intro assms(6) [rule_format]) simp
      ultimately show ?thesis using w(2) by metis
    qed
    moreover have "cstr (ram (sys c)) (f + 2) s" using assms(4) by (simp add: add.assoc)
    ultimately show ?thesis by (metis cstr_cong)
  qed
  then have "cstr (ram (sys ?c)) (f + 2) s" by simp
  from print_loop_plain [OF this assms(5), of frame "[]"]
  have "print_loop frame TERMINAL f [v] 0 c = Some (Inr (2 + word_of_nat (length s), fold terminal_putc s ?c))"
    using assms(3,4) w(1) by (subst print_loop.simps) (auto simp: print_directive_def put_number_def)
  then show ?thesis using assms(1) num sign by (auto simp: print_def)
qed

text \<open>%x writes the hexadecimal digits to the terminal, whichever stream was asked for.\<close>
theorem print_hex_on_terminal:
  assumes "f \<noteq> 0" and "frame \<noteq> 0" and "cstr (ram (sys c)) f [37, 120]"
    and "32 \<le> unat (f + 2 - frame)"
  shows "\<exists>m. print frame stream f [v] c
      = Inr (2, fold terminal_putc (hex_of v) (c\<lparr>sys := (sys c)\<lparr>ram := m\<rparr>\<rparr>)) \<and>
    read_number 16 (hex_of v) = unat v"
proof -
  obtain m where w: "terminal_write_base frame v 16 c
      = Inr (fold terminal_putc (hex_of v) (c\<lparr>sys := (sys c)\<lparr>ram := m\<rparr>\<rparr>))"
    "\<forall>z. 32 \<le> unat (z - frame) \<longrightarrow> m z = ram (sys c) z"
    using write_hex [OF assms(2)] by blast
  let ?c = "fold terminal_putc (hex_of v) (c\<lparr>sys := (sys c)\<lparr>ram := m\<rparr>\<rparr>)"
  have "\<forall>x \<in> set (digits 16 (unat v)). x < 16"
    using digits_less [of 16 _ "unat v"] by fastforce
  from read_number_digits [OF this]
  have num: "read_number 16 (hex_of v) = unat v" by (simp add: hex_of_def of_digits_digits)
  have "m (f + 2) = 0" using w(2) assms(3,4) by (simp add: add.assoc)
  then have "print_loop frame stream f [] 2 ?c = Some (Inr (2, ?c))"
    by (subst print_loop.simps) simp
  then have "print_loop frame stream f [v] 0 c = Some (Inr (2, ?c))"
    using assms(3) w(1) by (subst print_loop.simps) (simp add: print_directive_def)
  then show ?thesis using assms(1) num by (auto simp: print_def)
qed

text \<open>A format that ends in a percent sign makes print skip the terminator and go on with
  the bytes behind the string.\<close>
theorem print_trailing_percent:
  assumes "f \<noteq> 0" and "cstr (ram (sys c)) f [37]" and "cstr (ram (sys c)) (f + 2) s" and "37 \<notin> set s"
  shows "print frame TERMINAL f va c = Inr (2 + word_of_nat (length s), fold terminal_putc (37 # s) c)"
proof -
  let ?c = "terminal_putc 37 c"
  have "cstr (ram (sys ?c)) (f + 2) s" using assms(3) by simp
  from print_loop_plain [OF this assms(4)]
  have "print_loop frame TERMINAL f va 0 c = Some (Inr (2 + word_of_nat (length s), fold terminal_putc s ?c))"
    using assms(2) by (subst print_loop.simps) (simp add: print_directive_def put_literal_def)
  then show ?thesis using assms(1) by (simp add: print_def)
qed

text \<open>Writing a number with the top bit set in base 2 needs 33 bytes, one more than the
  local buffer of terminal_write_base has.\<close>
theorem binary_overruns_buffer:
  assumes "frame \<noteq> 0" and "0x80000000 \<le> d"
  shows "terminal_write_base frame d 2 c = Inl (Undefined ''src/drivers/vga.c'' 136)"
proof -
  let ?s = "map digit_char (rev (digits 2 (unat d)))"
  have "(2 :: nat) ^ 31 \<le> unat d" using assms(2) by (simp add: word_le_nat_alt)
  then have len: "length ?s = 32"
    using length_digits_ge [of 2 31 "unat d"] length_digits_u32 [of 2 d] by simp
  obtain m where m: "utoa d frame 2 (ram (sys c)) = Some (frame, m)" "cstr m frame ?s"
    using utoa_string [of "2 :: u32" d frame "ram (sys c)"] by auto
  have "strlen m frame = Some 32"
    using strlen_loop_cstr [OF m(2), of 0] len by (simp add: strlen_def)
  then show ?thesis
    using m(1) assms(1) by (simp add: terminal_write_base_def format_number_def itoa_def)
qed

section \<open>Serial port\<close>

text \<open>The transmitter holding register empties again and again.\<close>

definition transmits :: "machine \<Rightarrow> bool" where
  "transmits m \<longleftrightarrow> (\<forall>k. \<exists>j \<ge> k. dev m (PORT + 5) j AND 0x20 \<noteq> 0)"

lemma wait_transmit_upto:
  "reads m (PORT + 5) + d = j \<Longrightarrow> dev m (PORT + 5) j AND 0x20 \<noteq> 0 \<Longrightarrow>
    \<exists>m'. wait_transmit m = Some m' \<and> outs m' = outs m \<and> dev m' = dev m"
proof (induction d arbitrary: m)
  case 0
  then show ?case
    by (subst wait_transmit.simps) (auto simp: is_transmit_empty_def Let_def split_beta)
next
  case (Suc d)
  let ?m = "snd (in_port (PORT + 5) m)"
  show ?case
  proof (cases "dev m (PORT + 5) (reads m (PORT + 5)) AND 0x20 = 0")
    case True
    have "\<exists>m'. wait_transmit ?m = Some m' \<and> outs m' = outs ?m \<and> dev m' = dev ?m"
      by (rule Suc.IH) (use Suc.prems in simp_all)
    then show ?thesis
      using True by (subst wait_transmit.simps) (simp add: is_transmit_empty_def Let_def split_beta)
  next
    case False
    then show ?thesis
      by (subst wait_transmit.simps) (auto simp: is_transmit_empty_def Let_def split_beta)
  qed
qed

lemma serial_putc_sends:
  assumes "transmits (io c)" and "serial_initalized c \<noteq> 0"
  shows "\<exists>m. serial_putc ch c = Some (c\<lparr>io := m\<rparr>) \<and> outs m = outs (io c) @ [(PORT, ch)] \<and> dev m = dev (io c)"
proof -
  obtain j where j: "reads (io c) (PORT + 5) \<le> j" "dev (io c) (PORT + 5) j AND 0x20 \<noteq> 0"
    using assms(1) by (auto simp: transmits_def)
  from wait_transmit_upto [OF le_add_diff_inverse [OF j(1)] j(2)] show ?thesis
    using assms(2) by (auto simp: serial_putc_def con_out_def)
qed

lemma serial_string_loop_sends:
  "cstr (ram (sys c)) (p + i) s \<Longrightarrow> transmits (io c) \<Longrightarrow> serial_initalized c \<noteq> 0 \<Longrightarrow>
    \<exists>m. serial_string_loop p i c = Some (c\<lparr>io := m\<rparr>) \<and>
      outs m = outs (io c) @ map (Pair PORT) s \<and> dev m = dev (io c)"
proof (induction s arbitrary: i c)
  case Nil
  then show ?case by (subst serial_string_loop.simps) (auto intro!: exI [of _ "io c"])
next
  case (Cons ch s)
  obtain m where m: "serial_putc ch c = Some (c\<lparr>io := m\<rparr>)" "outs m = outs (io c) @ [(PORT, ch)]" "dev m = dev (io c)"
    using serial_putc_sends [OF Cons.prems(2,3)] by blast
  have "cstr (ram (sys (c\<lparr>io := m\<rparr>))) (p + (i + 1)) s" using Cons.prems(1) by (simp add: add.assoc)
  from Cons.IH [OF this] show ?case
    using Cons.prems m by (subst serial_string_loop.simps) (auto simp: transmits_def)
qed

theorem serial_writestring_sends:
  assumes "transmits (io c)" and "serial_initalized c \<noteq> 0" and "cstr (ram (sys c)) p s" and "p \<noteq> 0"
  shows "\<exists>m. serial_writestring p c = Some (c\<lparr>io := m\<rparr>) \<and> outs m = outs (io c) @ map (Pair PORT) s"
  using serial_string_loop_sends [of c p 0 s] assms by (auto simp: serial_writestring_def)

lemma serial_write_loop_sends:
  "transmits (io c) \<Longrightarrow> serial_initalized c \<noteq> 0 \<Longrightarrow> k + d = (unat n + 1) div 2 \<Longrightarrow> unat n < 4294967295 \<Longrightarrow>
    \<exists>m. serial_write_loop p n (word_of_nat (2 * k)) c = Some (c\<lparr>io := m\<rparr>) \<and>
      outs m = outs (io c) @ map (\<lambda>j. (PORT, ram (sys c) (p + word_of_nat (2 * j)))) [k..<(unat n + 1) div 2]"
proof (induction d arbitrary: k c)
  case 0
  have "unat (word_of_nat (2 * k) :: u32) = 2 * k" using 0 by (intro u32_of_nat) linarith
  then have "\<not> word_of_nat (2 * k) < n" using 0 by (simp add: word_less_nat_alt)
  then show ?case using 0 by (subst serial_write_loop.simps) (auto intro!: exI [of _ "io c"])
next
  case (Suc d)
  have lt: "2 * k < unat n" and q: "Suc k + d = (unat n + 1) div 2" using Suc.prems(3) by linarith+
  have "unat (word_of_nat (2 * k) :: u32) = 2 * k" using lt Suc.prems(4) by (intro u32_of_nat) linarith
  then have less: "word_of_nat (2 * k) < n" using lt by (simp add: word_less_nat_alt)
  obtain m where m: "serial_putc (ram (sys c) (p + word_of_nat (2 * k))) c = Some (c\<lparr>io := m\<rparr>)"
    "outs m = outs (io c) @ [(PORT, ram (sys c) (p + word_of_nat (2 * k)))]" "dev m = dev (io c)"
    using serial_putc_sends [OF Suc.prems(1,2)] by blast
  have "transmits (io (c\<lparr>io := m\<rparr>))" "serial_initalized (c\<lparr>io := m\<rparr>) \<noteq> 0"
    using Suc.prems(1,2) m(3) by (simp_all add: transmits_def)
  from Suc.IH [OF this q Suc.prems(4)] obtain m' where
    m'': "serial_write_loop p n (word_of_nat (2 * Suc k)) (c\<lparr>io := m\<rparr>) = Some (c\<lparr>io := m\<rparr>\<lparr>io := m'\<rparr>)"
    "outs m' = outs (io (c\<lparr>io := m\<rparr>)) @
      map (\<lambda>j. (PORT, ram (sys (c\<lparr>io := m\<rparr>)) (p + word_of_nat (2 * j)))) [Suc k..<(unat n + 1) div 2]"
    by blast
  note m' = m'' [unfolded console.simps]
  have next_i: "word_of_nat (2 * k) + 1 + 1 = (word_of_nat (2 * Suc k) :: u32)" by simp
  have "[k..<(unat n + 1) div 2] = k # [Suc k..<(unat n + 1) div 2]"
    using lt by (intro upt_conv_Cons) linarith
  then show ?case
    using less m'(1) m'(2) m(2)
    unfolding serial_write_loop.simps [of p n "word_of_nat (2 * k)" c] next_i m(1) by (intro exI [of _ m']) simp
qed

text \<open>C22: When the transmitter becomes ready again and again, serial_write returns, but it
  sends only every second character of the buffer.\<close>
theorem serial_write_skips:
  assumes "transmits (io c)" and "serial_initalized c \<noteq> 0" and "p \<noteq> 0" and "n \<noteq> 0xFFFFFFFF"
  shows "\<exists>m. serial_write p n c = Some (c\<lparr>io := m\<rparr>) \<and>
    outs m = outs (io c) @ map (\<lambda>j. (PORT, ram (sys c) (p + word_of_nat (2 * j)))) [0..<(unat n + 1) div 2]"
proof -
  have "unat n < 4294967295"
  proof -
    have "unat n \<noteq> unat (0xFFFFFFFF :: u32)" using assms(4) by (metis u32_eqI)
    then have "unat n \<noteq> 4294967295" by simp
    then show ?thesis using unat_u32_le [of n] by linarith
  qed
  from serial_write_loop_sends [OF assms(1,2) _ this, of 0 "(unat n + 1) div 2" p]
  show ?thesis using assms(3) by (simp add: serial_write_def)
qed

section \<open>A concrete console\<close>

definition fresh_console :: "mem \<Rightarrow> console" where
  "fresh_console m = \<lparr>sys = zero_kmem\<lparr>ram := m\<rparr>, io = quiet_machine 0x20, serial_initalized = 1, terminal_pos_row = 24,
     terminal_pos_col = 79, terminal_color = 7, terminal_mem = TERMINAL_VIDEO_MEMORY_ADDRESS, video = (\<lambda>_. 0)\<rparr>"

lemma fresh_console_fields [simp]:
  "ram (sys (fresh_console m)) = m" "io (fresh_console m) = quiet_machine 0x20"
  "serial_initalized (fresh_console m) = 1"
  by (simp_all add: fresh_console_def)

lemma outs_quiet [simp]: "outs (quiet_machine v) = []"
  by (simp add: quiet_machine_def)

lemma transmits_quiet [simp]: "transmits (quiet_machine 0x20)"
  by (auto simp: transmits_def quiet_machine_def)

theorem terminal_putc_spec_witness:
  "cell_of (terminal_putc 65 (fresh_console (\<lambda>_. 0))) = 1920 \<and>
   video (terminal_putc 65 (fresh_console (\<lambda>_. 0))) 1919 = 0x741"
  using terminal_putc_spec [of "fresh_console (\<lambda>_. 0)" 65]
  by (simp add: fresh_console_def on_screen_def cell_of_def vga_entry_def)

theorem print_decimal_witness:
  "\<exists>m. print 100 TERMINAL 1000 [0xFFFFFFF9] (fresh_console (write_bytes (\<lambda>_. 0) 1000 [37, 100, 33]))
    = Inr (3, fold terminal_putc [55, 33] ((fresh_console (\<lambda>_. 0))\<lparr>sys := zero_kmem\<lparr>ram := m\<rparr>\<rparr>))"
proof -
  let ?m = "write_bytes (\<lambda>_. 0) 1000 [37, 100, 33]"
  have k: "k = 0 \<or> k = 1 \<or> k = 2 \<or> k = 3" if "k \<le> length [33 :: u8] + 2" for k :: nat using that by auto
  have "\<forall>k \<le> length [33 :: u8] + 2. 32 \<le> unat (1000 + word_of_nat k - (100 :: u32))"
    using k by (intro allI impI) (drule k, elim disjE; simp)
  moreover have "decimal_of 0xFFFFFFF9 = [55]"
    by (simp add: decimal_of_def digits.simps [of 10 7] digit_char_def)
  ultimately show ?thesis
    using print_decimal [of 1000 100 100 "fresh_console ?m" "[33]" "0xFFFFFFF9"]
    by (auto simp: fresh_console_def)
qed

theorem print_hex_on_terminal_witness:
  "\<exists>m. print 100 SERIAL 1000 [0x2A] (fresh_console (write_bytes (\<lambda>_. 0) 1000 [37, 120]))
    = Inr (2, fold terminal_putc [50, 65] ((fresh_console (\<lambda>_. 0))\<lparr>sys := zero_kmem\<lparr>ram := m\<rparr>\<rparr>))"
proof -
  let ?m = "write_bytes (\<lambda>_. 0) 1000 [37, 120]"
  have "hex_of 0x2A = [50, 65]"
    by (simp add: hex_of_def digits.simps [of 16 "42"] digits.simps [of 16 "2"] digit_char_def)
  then show ?thesis
    using print_hex_on_terminal [of 1000 100 "fresh_console ?m" SERIAL "0x2A"]
    by (auto simp: fresh_console_def)
qed

theorem print_trailing_percent_witness:
  "print 100 TERMINAL 1000 [] (fresh_console (write_bytes (\<lambda>_. 0) 1000 [37, 0, 88]))
    = Inr (3, fold terminal_putc [37, 88] (fresh_console (write_bytes (\<lambda>_. 0) 1000 [37, 0, 88])))"
  using print_trailing_percent [of 1000 "fresh_console (write_bytes (\<lambda>_. 0) 1000 [37, 0, 88])" "[88]" 100 "[]"]
  by simp

theorem binary_overruns_buffer_witness:
  "terminal_write_base 100 0x80000000 2 (fresh_console (\<lambda>_. 0)) = Inl (Undefined ''src/drivers/vga.c'' 136)"
  using binary_overruns_buffer [of 100 "0x80000000" "fresh_console (\<lambda>_. 0)"] by simp

theorem serial_writestring_sends_witness:
  "\<exists>m. serial_writestring 1000 (fresh_console (write_bytes (\<lambda>_. 0) 1000 [72, 105]))
      = Some (fresh_console (write_bytes (\<lambda>_. 0) 1000 [72, 105])\<lparr>io := m\<rparr>) \<and> outs m = [(PORT, 72), (PORT, 105)]"
  using serial_writestring_sends [of "fresh_console (write_bytes (\<lambda>_. 0) 1000 [72, 105])" 1000 "[72, 105]"]
  by simp

theorem serial_write_skips_witness:
  "\<exists>m. serial_write 1000 3 (fresh_console (write_bytes (\<lambda>_. 0) 1000 [72, 105, 33]))
      = Some (fresh_console (write_bytes (\<lambda>_. 0) 1000 [72, 105, 33])\<lparr>io := m\<rparr>) \<and> outs m = [(PORT, 72), (PORT, 33)]"
  using serial_write_skips [of "fresh_console (write_bytes (\<lambda>_. 0) 1000 [72, 105, 33])" 1000 3]
  by (simp add: upt_rec)

end
