(* ===== verification/Descriptors.thy ===== *)
theory Descriptors
  imports Port_IO
begin

text \<open>
  The two descriptor tables of the processor: \<^verbatim>\<open>src/src/memory/gdt.c\<close> and
  \<^verbatim>\<open>src/src/interrupts/interrupt_descriptor.c\<close>. The addresses of the tables and of the assembly
  entry points \<^verbatim>\<open>isr0\<close>, \<^verbatim>\<open>irq0\<close> and so on are parameters. The tables are lists of
  records with the fields of the packed structures; a second group of definitions reads an entry
  the way the processor does.
\<close>

section \<open>Structures\<close>

record GDT =
  limit_low :: u16
  base_low :: u16
  base_middle :: u8
  access :: u8
  limit_high_and_flags :: u8
  base_high :: u8

record IDT =
  idt_base_low :: u16
  selector :: u16
  zero :: u8
  flags :: u8
  idt_base_high :: u16

record descriptor =
  limit :: u16
  base :: u32

definition empty_gdt :: GDT where
  "empty_gdt = \<lparr>limit_low = 0, base_low = 0, base_middle = 0, access = 0, limit_high_and_flags = 0, base_high = 0\<rparr>"

definition empty_idt :: IDT where
  "empty_idt = \<lparr>idt_base_low = 0, selector = 0, zero = 0, flags = 0, idt_base_high = 0\<rparr>"

text \<open>The tables, the two pointer structures, and what the processor was told to load.\<close>

record descriptor_tables =
  gdt :: "GDT list"
  gdt_ptr :: descriptor
  idt :: "IDT list"
  idt_ptr :: descriptor
  gdtr :: "descriptor option"
  idtr :: "descriptor option"

section \<open>Global descriptor table (gdt.c)\<close>

definition gdt_entry :: "u32 \<Rightarrow> u32 \<Rightarrow> u8 \<Rightarrow> u8 \<Rightarrow> GDT" where
  "gdt_entry b l a flag =
     \<lparr>limit_low = ucast (l AND 0x0000FFFF),
      base_low = ucast (b AND 0x0000FFFF),
      base_middle = ucast (drop_bit 16 (b AND 0x00FF0000)),
      access = a,
      limit_high_and_flags = ucast (drop_bit 16 (l AND 0x000F0000)) OR (flag AND 0xF0),
      base_high = ucast (drop_bit 24 (b AND 0xFF000000))\<rparr>"

definition gdt_set_gate :: "u32 \<Rightarrow> u32 \<Rightarrow> u32 \<Rightarrow> u8 \<Rightarrow> u8 \<Rightarrow> descriptor_tables \<Rightarrow> descriptor_tables res" where
  "gdt_set_gate n b l a flag t =
     (if unat n < 5 then Inr (t\<lparr>gdt := (gdt t)[unat n := gdt_entry b l a flag]\<rparr>)
      else Inl (Undefined ''src/memory/gdt.c'' 33))"

definition init_gdt :: "u32 \<Rightarrow> descriptor_tables \<Rightarrow> descriptor_tables res" where
  "init_gdt gdt_at t =
     res_bind (gdt_set_gate 0 0 0 0 0 (t\<lparr>gdt_ptr := \<lparr>limit = 5 * 8 - 1, base = gdt_at\<rparr>\<rparr>)) (\<lambda>t.
     res_bind (gdt_set_gate 1 0 0xFFFFFFFF 0x9A 0xCF t) (\<lambda>t.
     res_bind (gdt_set_gate 2 0 0xFFFFFFFF 0x92 0xCF t) (\<lambda>t.
     res_bind (gdt_set_gate 3 0 0xFFFFFFFF 0xFA 0xCF t) (\<lambda>t.
     res_bind (gdt_set_gate 4 0 0xFFFFFFFF 0xF2 0xCF t) (\<lambda>t.
       Inr (t\<lparr>gdtr := Some (gdt_ptr t)\<rparr>))))))"

section \<open>Interrupt descriptor table (interrupt\_descriptor.c)\<close>

definition idt_entry :: "u32 \<Rightarrow> u16 \<Rightarrow> u8 \<Rightarrow> IDT" where
  "idt_entry b sel fl =
     \<lparr>idt_base_low = ucast (b AND 0x0000FFFF), selector = sel, zero = 0, flags = fl,
      idt_base_high = ucast (drop_bit 16 (b AND 0xFFFF0000))\<rparr>"

definition idt_set_gate :: "u8 \<Rightarrow> u32 \<Rightarrow> u16 \<Rightarrow> u8 \<Rightarrow> descriptor_tables \<Rightarrow> descriptor_tables" where
  "idt_set_gate n b sel fl t = t\<lparr>idt := (idt t)[unat n := idt_entry b sel fl]\<rparr>"

text \<open>The calls of \<^verbatim>\<open>idt_set_gate\<close>: number and entry point, in the order of the source.\<close>

definition idt_gates :: "(nat \<Rightarrow> u32) \<Rightarrow> (nat \<Rightarrow> u32) \<Rightarrow> (u8 \<times> u32) list" where
  "idt_gates isr irq =
     map (\<lambda>i. (word_of_nat i, isr i)) [0..<32] @ map (\<lambda>i. (word_of_nat (32 + i), irq i)) [0..<16] @ [(0xBA, isr 186)]"

definition pic_setup :: "(u16 \<times> u8) list" where
  "pic_setup = [(PIC1, 0x11), (PIC2, 0x11), (PIC1_DATA, 0x20), (PIC2_DATA, 0x28), (PIC1_DATA, 4), (PIC2_DATA, 2),
     (PIC1_DATA, 1), (PIC2_DATA, 1), (PIC1_DATA, 0xFB), (PIC2_DATA, 0xFC)]"

definition init_idt ::
  "u32 \<Rightarrow> (nat \<Rightarrow> u32) \<Rightarrow> (nat \<Rightarrow> u32) \<Rightarrow> descriptor_tables \<times> machine \<Rightarrow> descriptor_tables \<times> machine" where
  "init_idt idt_at isr irq = (\<lambda>(t, m).
     let t = t\<lparr>idt_ptr := \<lparr>limit = 256 * 8 - 1, base = idt_at\<rparr>, idt := replicate 256 empty_idt\<rparr>;
         m = out_all pic_setup m;
         t = fold (\<lambda>(n, b). idt_set_gate n b 0x08 0x8E) (idt_gates isr irq) t
     in (t\<lparr>idtr := Some (idt_ptr t)\<rparr>, m))"

section \<open>What the processor reads from an entry\<close>

definition segment_base :: "GDT \<Rightarrow> u32" where
  "segment_base g = ucast (base_low g) OR push_bit 16 (ucast (base_middle g)) OR push_bit 24 (ucast (base_high g))"

definition segment_limit :: "GDT \<Rightarrow> u32" where
  "segment_limit g = ucast (limit_low g) OR push_bit 16 (ucast (limit_high_and_flags g AND 0xF))"

text \<open>With the granularity bit the limit counts pages.\<close>

definition segment_bytes :: "GDT \<Rightarrow> nat" where
  "segment_bytes g = (if bit (limit_high_and_flags g) 7 then (unat (segment_limit g) + 1) * 4096
     else unat (segment_limit g) + 1)"

definition gate_address :: "IDT \<Rightarrow> u32" where
  "gate_address g = ucast (idt_base_low g) OR push_bit 16 (ucast (idt_base_high g))"

definition gate_present :: "IDT \<Rightarrow> bool" where
  "gate_present g = bit (flags g) 7"

definition empty_tables :: descriptor_tables where
  "empty_tables = \<lparr>gdt = replicate 5 empty_gdt, gdt_ptr = \<lparr>limit = 0, base = 0\<rparr>, idt = replicate 256 empty_idt,
     idt_ptr = \<lparr>limit = 0, base = 0\<rparr>, gdtr = None, idtr = None\<rparr>"

section \<open>Segments\<close>

lemma low_mask_bits:
  "bit (0xFFFF :: 'a::len word) n \<longleftrightarrow> n < 16 \<and> n < LENGTH('a)"
  "bit (0xF :: 'a word) n \<longleftrightarrow> n < 4 \<and> n < LENGTH('a)"
  "bit (0xFFFFF :: 'a word) n \<longleftrightarrow> n < 20 \<and> n < LENGTH('a)"
proof -
  have m: "(0xFFFF :: 'a word) = mask 16" "(0xF :: 'a word) = mask 4" "(0xFFFFF :: 'a word) = mask 20"
    by (simp_all add: mask_eq_exp_minus_1)
  show "bit (0xFFFF :: 'a word) n \<longleftrightarrow> n < 16 \<and> n < LENGTH('a)" "bit (0xF :: 'a word) n \<longleftrightarrow> n < 4 \<and> n < LENGTH('a)"
    "bit (0xFFFFF :: 'a word) n \<longleftrightarrow> n < 20 \<and> n < LENGTH('a)"
    unfolding m by (auto simp: bit_simps)
qed

lemma high_mask_bits:
  "bit (0x00FF0000 :: u32) n \<longleftrightarrow> 16 \<le> n \<and> n < 24"
  "bit (0xFF000000 :: u32) n \<longleftrightarrow> 24 \<le> n \<and> n < 32"
  "bit (0x000F0000 :: u32) n \<longleftrightarrow> 16 \<le> n \<and> n < 20"
  "bit (0xFFFF0000 :: u32) n \<longleftrightarrow> 16 \<le> n \<and> n < 32"
  "bit (0xF0 :: u8) n \<longleftrightarrow> 4 \<le> n \<and> n < 8"
proof -
  have m: "(0x00FF0000 :: u32) = push_bit 16 (mask 8)" "(0xFF000000 :: u32) = push_bit 24 (mask 8)"
    "(0x000F0000 :: u32) = push_bit 16 (mask 4)" "(0xFFFF0000 :: u32) = push_bit 16 (mask 16)"
    "(0xF0 :: u8) = push_bit 4 (mask 4)"
    by (simp_all add: mask_eq_exp_minus_1 push_bit_eq_mult)
  show "bit (0x00FF0000 :: u32) n \<longleftrightarrow> 16 \<le> n \<and> n < 24" "bit (0xFF000000 :: u32) n \<longleftrightarrow> 24 \<le> n \<and> n < 32"
    "bit (0x000F0000 :: u32) n \<longleftrightarrow> 16 \<le> n \<and> n < 20" "bit (0xFFFF0000 :: u32) n \<longleftrightarrow> 16 \<le> n \<and> n < 32"
    "bit (0xF0 :: u8) n \<longleftrightarrow> 4 \<le> n \<and> n < 8"
    unfolding m by (auto simp: bit_simps)
qed

lemma int_mask_bits:
  "bit (0xFFFF :: int) n \<longleftrightarrow> n < 16" "bit (0xF :: int) n \<longleftrightarrow> n < 4" "bit (0xFFFFF :: int) n \<longleftrightarrow> n < 20"
  "bit (0xF0 :: int) n \<longleftrightarrow> 4 \<le> n \<and> n < 8" "bit (0xFF :: int) n \<longleftrightarrow> n < 8"
proof -
  have m: "(0xFFFF :: int) = mask 16" "(0xF :: int) = mask 4" "(0xFFFFF :: int) = mask 20"
    "(0xF0 :: int) = push_bit 4 (mask 4)" "(0xFF :: int) = mask 8"
    by (simp_all add: mask_eq_exp_minus_1 push_bit_eq_mult)
  show "bit (0xFFFF :: int) n \<longleftrightarrow> n < 16" "bit (0xF :: int) n \<longleftrightarrow> n < 4" "bit (0xFFFFF :: int) n \<longleftrightarrow> n < 20"
    "bit (0xF0 :: int) n \<longleftrightarrow> 4 \<le> n \<and> n < 8" "bit (0xFF :: int) n \<longleftrightarrow> n < 8"
    unfolding m by (auto simp: bit_simps)
qed

lemmas byte_mask_bits = low_mask_bits high_mask_bits int_mask_bits

lemma segment_base_entry: "segment_base (gdt_entry b l a fl) = b"
proof (rule bit_word_eqI)
  fix n
  assume "n < LENGTH(32)"
  then have "n < 32" by simp
  moreover have "24 + (n - 24) = n \<or> n < 24" "16 + (n - 16) = n \<or> n < 16" by linarith+
  ultimately show "bit (segment_base (gdt_entry b l a fl)) n = bit b n"
    by (auto simp: segment_base_def gdt_entry_def bit_simps byte_mask_bits)
qed

lemma segment_limit_entry: "segment_limit (gdt_entry b l a fl) = l AND 0xFFFFF"
proof (rule bit_word_eqI)
  fix n
  assume "n < LENGTH(32)"
  then show "bit (segment_limit (gdt_entry b l a fl)) n = bit (l AND 0xFFFFF) n"
    by (auto simp: segment_limit_def gdt_entry_def bit_simps byte_mask_bits)
qed

lemma segment_flags_entry: "limit_high_and_flags (gdt_entry b l a fl) AND 0xF0 = fl AND 0xF0"
  by (rule bit_word_eqI) (auto simp: gdt_entry_def bit_simps byte_mask_bits)

lemma gate_address_entry: "gate_address (idt_entry b sel fl) = b"
proof (rule bit_word_eqI)
  fix n
  assume "n < LENGTH(32)"
  then show "bit (gate_address (idt_entry b sel fl)) n = bit b n"
    by (auto simp: gate_address_def idt_entry_def bit_simps byte_mask_bits)
qed

text \<open>C23: What the processor decodes from an entry written by gdt_set_gate is the base, the low
  20 bits of the limit, the access byte and the flags that were given; the other entries
  stay.\<close>
theorem gdt_set_gate_roundtrip:
  assumes "length (gdt t) = 5" and "n < 5"
  shows "\<exists>t'. gdt_set_gate n b l a fl t = Inr t' \<and> length (gdt t') = 5 \<and>
    segment_base (gdt t' ! unat n) = b \<and> segment_limit (gdt t' ! unat n) = l AND 0xFFFFF \<and>
    access (gdt t' ! unat n) = a \<and> limit_high_and_flags (gdt t' ! unat n) AND 0xF0 = fl AND 0xF0 \<and>
    (\<forall>k < 5. k \<noteq> unat n \<longrightarrow> gdt t' ! k = gdt t ! k) \<and> idt t' = idt t \<and> gdtr t' = gdtr t"
proof -
  have "unat n < 5" using assms(2) by (simp add: word_less_nat_alt)
  moreover have "access (gdt_entry b l a fl) = a" by (simp add: gdt_entry_def)
  ultimately show ?thesis
    using assms(1) by (auto simp: gdt_set_gate_def segment_base_entry segment_limit_entry segment_flags_entry)
qed

theorem gdt_set_gate_roundtrip_witness:
  "\<exists>t'. gdt_set_gate 3 0x12345678 0xABCDE 0xFA 0xCF empty_tables = Inr t' \<and>
    segment_base (gdt t' ! 3) = 0x12345678 \<and> segment_limit (gdt t' ! 3) = 0xABCDE"
  using gdt_set_gate_roundtrip [of empty_tables 3 "0x12345678" "0xABCDE" "0xFA" "0xCF"]
  by (auto simp: empty_tables_def)

text \<open>init_gdt loads a table of five entries: an empty one and four present segments that
  start at zero and cover 4 GiB, for kernel and user code and data.\<close>
theorem init_gdt_flat:
  assumes "length (gdt t) = 5"
  shows "\<exists>t'. init_gdt gdt_at t = Inr t' \<and> gdtr t' = Some \<lparr>limit = 39, base = gdt_at\<rparr> \<and>
    (\<forall>k \<in> {1, 2, 3, 4}. segment_base (gdt t' ! k) = 0 \<and> segment_bytes (gdt t' ! k) = 4294967296 \<and>
      bit (access (gdt t' ! k)) 7) \<and>
    map access (gdt t') = [0, 0x9A, 0x92, 0xFA, 0xF2] \<and> gdt t' ! 0 = empty_gdt"
proof -
  obtain a0 a1 a2 a3 a4 where "gdt t = [a0, a1, a2, a3, a4]"
    using assms by (auto simp: length_Suc_conv eval_nat_numeral)
  then show ?thesis
    by (simp add: init_gdt_def gdt_set_gate_def segment_base_entry segment_limit_entry segment_bytes_def)
      (simp add: gdt_entry_def empty_gdt_def bit_simps)
qed

theorem init_gdt_flat_witness:
  "\<exists>t'. init_gdt 0xC0200000 empty_tables = Inr t' \<and> segment_bytes (gdt t' ! 1) = 4294967296"
  using init_gdt_flat [of empty_tables "0xC0200000"] by (auto simp: empty_tables_def)

section \<open>Gates\<close>

lemma fold_gates_frames [simp]:
  "length (idt (fold (\<lambda>(n, b). idt_set_gate n b sel fl) gs t)) = length (idt t)"
  "idt_ptr (fold (\<lambda>(n, b). idt_set_gate n b sel fl) gs t) = idt_ptr t"
  "gdt (fold (\<lambda>(n, b). idt_set_gate n b sel fl) gs t) = gdt t"
  "gdtr (fold (\<lambda>(n, b). idt_set_gate n b sel fl) gs t) = gdtr t"
  by (induction gs arbitrary: t) (auto simp: idt_set_gate_def)

text \<open>After a sequence of distinct gates the table holds each of them, and nothing else changed.\<close>

lemma fold_gates_nth:
  "distinct (map fst gs) \<Longrightarrow> length (idt t) = 256 \<Longrightarrow>
    idt (fold (\<lambda>(n, b). idt_set_gate n b sel fl) gs t) ! unat (k :: u8) =
      (case map_of gs k of Some b \<Rightarrow> idt_entry b sel fl | None \<Rightarrow> idt t ! unat k)"
proof (induction gs arbitrary: t)
  case (Cons g gs)
  obtain n b where g: "g = (n, b)" by (cases g)
  have "unat k < 256" using unsigned_less [of k] by simp
  then have "idt (idt_set_gate n b sel fl t) ! unat k = (if k = n then idt_entry b sel fl else idt t ! unat k)"
    using Cons.prems(2) word_unat_eq_iff [of k n] by (auto simp: idt_set_gate_def nth_list_update)
  moreover have "map_of gs n = None" using Cons.prems(1) g by (simp add: map_of_eq_None_iff)
  ultimately show ?case
    using Cons.IH [of "idt_set_gate n b sel fl t"] Cons.prems g by (auto simp: idt_set_gate_def split: option.splits)
qed simp

lemma gate_numbers:
  "map fst (idt_gates isr irq) = map word_of_nat ([0..<48] @ [186])"
proof -
  have "[0..<48] = [0..<32] @ map (\<lambda>i. 32 + i) [0..<16]" by (simp add: upt_conv_Cons upt_rec)
  then show ?thesis by (simp add: idt_gates_def comp_def)
qed

lemma inj_u8: "inj_on (word_of_nat :: nat \<Rightarrow> u8) {..<256}"
  by (rule inj_on_inverseI [of _ unat]) (simp add: unat_of_nat take_bit_nat_eq_self)

lemma distinct_gates: "distinct (map fst (idt_gates isr irq))"
proof -
  have "inj_on (word_of_nat :: nat \<Rightarrow> u8) (set ([0..<48] @ [186]))"
    by (rule inj_on_subset [OF inj_u8]) auto
  then show ?thesis unfolding gate_numbers distinct_map by simp
qed

text \<open>The entry point of every gate.\<close>

definition gate_target :: "(nat \<Rightarrow> u32) \<Rightarrow> (nat \<Rightarrow> u32) \<Rightarrow> nat \<Rightarrow> u32 option" where
  "gate_target isr irq n =
     (if n < 32 then Some (isr n) else if n < 48 then Some (irq (n - 32)) else if n = 186 then Some (isr 186) else None)"

lemma gate_target_gates:
  assumes "n < 256"
  shows "map_of (idt_gates isr irq) (word_of_nat n) = gate_target isr irq n"
proof (cases "gate_target isr irq n")
  case None
  have "word_of_nat n \<notin> (word_of_nat :: nat \<Rightarrow> u8) ` set ([0..<48] @ [186])"
  proof
    assume "word_of_nat n \<in> (word_of_nat :: nat \<Rightarrow> u8) ` set ([0..<48] @ [186])"
    then obtain j where "word_of_nat n = (word_of_nat j :: u8)" "j \<in> set ([0..<48] @ [186])" by blast
    then show False using inj_onD [OF inj_u8, of n j] assms None
      by (auto simp: gate_target_def split: if_splits)
  qed
  then have "word_of_nat n \<notin> fst ` set (idt_gates isr irq)"
    by (metis gate_numbers list.set_map)
  then show ?thesis using None by (simp add: map_of_eq_None_iff)
next
  case (Some b)
  have "(word_of_nat n, b) \<in> set (idt_gates isr irq)"
  proof (cases "n < 32 \<or> n = 186")
    case True
    then show ?thesis using Some by (auto simp: gate_target_def idt_gates_def)
  next
    case False
    then have "n < 48" "b = irq (n - 32)" "32 \<le> n" using Some by (auto simp: gate_target_def split: if_splits)
    then have "(word_of_nat n, b) = (\<lambda>i. (word_of_nat (32 + i), irq i)) (n - 32)" "n - 32 \<in> set [0..<16]" by auto
    then show ?thesis unfolding idt_gates_def set_append set_map by blast
  qed
  then show ?thesis using Some distinct_gates by (simp add: map_of_eq_Some_iff)
qed

text \<open>C24: After init_idt the gates 0 to 31, 32 to 47 and 186 are present interrupt gates of the
  kernel code segment to the exception and interrupt entry points, every other gate is
  absent, and the controllers got their initialisation words, which the statement lists, in
  order.\<close>
theorem init_idt_spec:
  assumes "n < 256" and "init_idt idt_at isr irq (t, m) = (t', m')"
  shows "idtr t' = Some \<lparr>limit = 2047, base = idt_at\<rparr> \<and> length (idt t') = 256 \<and>
    (case gate_target isr irq n of
       Some a \<Rightarrow> gate_present (idt t' ! n) \<and> gate_address (idt t' ! n) = a \<and> selector (idt t' ! n) = 8 \<and>
         flags (idt t' ! n) = 0x8E
     | None \<Rightarrow> \<not> gate_present (idt t' ! n)) \<and>
    outs m' = outs m @ [(0x20, 0x11), (0xA0, 0x11), (0x21, 0x20), (0xA1, 0x28), (0x21, 4), (0xA1, 2), (0x21, 1), (0xA1, 1),
      (0x21, 0xFB), (0xA1, 0xFC)] \<and> gdt t' = gdt t"
proof -
  let ?t = "t\<lparr>idt_ptr := \<lparr>limit = 2047, base = idt_at\<rparr>, idt := replicate 256 empty_idt\<rparr>"
  have n: "unat (word_of_nat n :: u8) = n" using assms(1) by (simp add: unat_of_nat take_bit_nat_eq_self)
  have "idt (fold (\<lambda>(n, b). idt_set_gate n b 8 0x8E) (idt_gates isr irq) ?t) ! n =
      (case gate_target isr irq n of Some b \<Rightarrow> idt_entry b 8 0x8E | None \<Rightarrow> empty_idt)"
    using fold_gates_nth [OF distinct_gates, of ?t 8 "0x8E" isr irq "word_of_nat n"] assms(1)
    by (simp add: gate_target_gates n cong: option.case_cong)
  moreover have "gate_present (idt_entry b 8 0x8E)" "flags (idt_entry b 8 0x8E) = 0x8E"
    "selector (idt_entry b 8 0x8E) = 8" "\<not> gate_present empty_idt" for b
    by (simp_all add: gate_present_def idt_entry_def empty_idt_def)
  moreover have "t' = fold (\<lambda>(n, b). idt_set_gate n b 8 0x8E) (idt_gates isr irq) ?t
      \<lparr>idtr := Some (idt_ptr (fold (\<lambda>(n, b). idt_set_gate n b 8 0x8E) (idt_gates isr irq) ?t))\<rparr>"
    "m' = out_all pic_setup m"
    using assms(2) by (simp_all add: init_idt_def Let_def)
  moreover have "pic_setup = [(0x20, 0x11), (0xA0, 0x11), (0x21, 0x20), (0xA1, 0x28), (0x21, 4), (0xA1, 2), (0x21, 1),
      (0xA1, 1), (0x21, 0xFB), (0xA1, 0xFC)]" by (simp add: pic_setup_def port_defs)
  ultimately show ?thesis by (simp add: gate_address_entry split: option.splits)
qed

theorem init_idt_spec_witness:
  "gate_address (idt (fst (init_idt 0xC0300000 (\<lambda>n. word_of_nat (n * 16)) (\<lambda>n. 0x1000 + word_of_nat n)
     (empty_tables, quiet_machine 0))) ! 33) = 0x1001"
  using init_idt_spec [of 33 "0xC0300000" "\<lambda>n. word_of_nat (n * 16)" "\<lambda>n. 0x1000 + word_of_nat n"
      empty_tables "quiet_machine 0"]
  by (cases "init_idt 0xC0300000 (\<lambda>n. word_of_nat (n * 16)) (\<lambda>n. 0x1000 + word_of_nat n) (empty_tables, quiet_machine 0)")
    (simp add: gate_target_def)

text \<open>The mask of the second controller after the last word written to its data port.\<close>

definition last_out :: "u16 \<Rightarrow> machine \<Rightarrow> u8 option" where
  "last_out p m = map_of (rev (outs m)) p"

text \<open>After init_idt only the cascade line of the first controller is enabled, but two
  lines of the second one.\<close>
theorem init_idt_masks:
  "\<exists>a b. last_out 0x21 (snd (init_idt idt_at isr irq (t, m))) = Some a \<and>
    last_out 0xA1 (snd (init_idt idt_at isr irq (t, m))) = Some b \<and>
    {k. k < 8 \<and> \<not> bit a k} = {2} \<and> {k. k < 8 \<and> \<not> bit b k} = {0, 1}"
proof -
  have snd: "snd (init_idt idt_at isr irq (t, m)) = out_all pic_setup m" by (simp add: init_idt_def Let_def)
  have "last_out 0x21 (out_all pic_setup m) = Some 0xFB" "last_out 0xA1 (out_all pic_setup m) = Some 0xFC"
    by (simp_all add: last_out_def pic_setup_def port_defs)
  moreover have "\<not> bit (0xFB :: u8) k \<longleftrightarrow> k = 2" "\<not> bit (0xFC :: u8) k \<longleftrightarrow> k = 0 \<or> k = 1" if "k < 8" for k :: nat
  proof -
    have "k = 0 \<or> k = 1 \<or> k = 2 \<or> k = 3 \<or> k = 4 \<or> k = 5 \<or> k = 6 \<or> k = 7" using that by linarith
    then show "\<not> bit (0xFB :: u8) k \<longleftrightarrow> k = 2" "\<not> bit (0xFC :: u8) k \<longleftrightarrow> k = 0 \<or> k = 1"
      by (elim disjE; simp)+
  qed
  ultimately show ?thesis unfolding snd by auto
qed

end
