(* ===== verification/Thread_List.thy ===== *)
theory Thread_List
  imports Kernel_Prelude
begin

text \<open>
  \<^verbatim>\<open>src/src/multitask/thread_list.c\<close>: the singly linked lists of thread control blocks, and
  the queue contract under which the scheduler and the semaphores use them. The control
  blocks are a typed store: the block at an address, if there is one.
\<close>

section \<open>Structures (thread\_list.h)\<close>

datatype thread_status = THREAD_RUNNING | THREAD_PAUSED | THREAD_SLEEPING | THREAD_TERMINATED

record thread_control_block =
  esp :: u32
  cr3 :: u32
  next_tcb :: u32
  state :: thread_status
  paused_until :: i32
  time_used :: i32
  pid :: u32
  stack_alloc_ptr :: u32
  kbp_queue :: u32

record thread_list =
  head :: u32
  tail :: u32
  size :: u32

type_synonym tcb_store = "thread_control_block store"

definition tcb_next :: "nat \<Rightarrow> tcb_store \<Rightarrow> u32 \<Rightarrow> u32 res" where
  "tcb_next line m p = res_bind (deref ''src/multitask/thread_list.c'' line m p) (\<lambda>t. Inr (next_tcb t))"

definition set_next :: "nat \<Rightarrow> u32 \<Rightarrow> u32 \<Rightarrow> tcb_store \<Rightarrow> tcb_store res" where
  "set_next line p q = update_at ''src/multitask/thread_list.c'' line p (\<lambda>t. t\<lparr>next_tcb := q\<rparr>)"

section \<open>Operations (thread\_list.c)\<close>

text \<open>A list pointer is \<open>None\<close> for \<^verbatim>\<open>NULL\<close>; the results are the return value, the list and the store.\<close>

definition list_thread_push_front ::
  "thread_list option \<Rightarrow> u32 \<Rightarrow> tcb_store \<Rightarrow> (u32 \<times> thread_list option \<times> tcb_store) res" where
  "list_thread_push_front list ptr m =
     (case list of None \<Rightarrow> Inr (1, None, m)
      | Some l \<Rightarrow>
          if ptr = 0 then Inr (1, Some l, m)
          else if head l = 0 then
            res_bind (set_next 24 ptr 0 m) (\<lambda>m.
              Inr (0, Some (l\<lparr>tail := ptr, head := ptr, size := size l + 1\<rparr>), m))
          else
            res_bind (set_next 28 ptr (head l) m) (\<lambda>m.
              Inr (0, Some (l\<lparr>head := ptr, size := size l + 1\<rparr>), m)))"

definition list_thread_push_back ::
  "thread_list option \<Rightarrow> u32 \<Rightarrow> tcb_store \<Rightarrow> (u32 \<times> thread_list option \<times> tcb_store) res" where
  "list_thread_push_back list ptr m =
     (case list of None \<Rightarrow> Inr (1, None, m)
      | Some l \<Rightarrow>
          if ptr = 0 then Inr (1, Some l, m)
          else
            res_bind (set_next 39 ptr 0 m) (\<lambda>m.
              if tail l = 0 then Inr (0, Some (l\<lparr>tail := ptr, head := ptr, size := size l + 1\<rparr>), m)
              else
                res_bind (set_next 47 (tail l) ptr m) (\<lambda>m.
                  Inr (0, Some (l\<lparr>tail := ptr, size := size l + 1\<rparr>), m))))"

definition list_thread_pop_front ::
  "thread_list option \<Rightarrow> tcb_store \<Rightarrow> (u32 \<times> thread_list option) res" where
  "list_thread_pop_front list m =
     (case list of None \<Rightarrow> Inr (0, None)
      | Some l \<Rightarrow>
          if size l < 1 then Inr (0, Some l)
          else if size l = 1 then Inr (head l, Some (l\<lparr>head := 0, tail := 0, size := size l - 1\<rparr>))
          else
            res_bind (tcb_next 66 m (head l)) (\<lambda>n.
              Inr (head l, Some (l\<lparr>head := n, size := size l - 1\<rparr>))))"

text \<open>\<^verbatim>\<open>while (temp->next != back) temp = temp->next;\<close>\<close>

partial_function (option) before_back :: "tcb_store \<Rightarrow> u32 \<Rightarrow> u32 \<Rightarrow> u32 res option" where
  "before_back m back temp =
     (case tcb_next 88 m temp of
        Inl e \<Rightarrow> Some (Inl e)
      | Inr n \<Rightarrow> if n \<noteq> back then before_back m back n else Some (Inr temp))"

definition list_thread_pop_back ::
  "thread_list option \<Rightarrow> tcb_store \<Rightarrow> (u32 \<times> thread_list option \<times> tcb_store) res" where
  "list_thread_pop_back list m =
     (case list of None \<Rightarrow> Inr (0, None, m)
      | Some l \<Rightarrow>
          if size l < 1 then Inr (0, Some l, m)
          else if size l = 1 then Inr (tail l, Some (l\<lparr>head := 0, tail := 0, size := size l - 1\<rparr>), m)
          else
            res_bind (loop_res (before_back m (tail l) (head l))) (\<lambda>temp.
            res_bind (set_next 91 temp 0 m) (\<lambda>m.
              Inr (tail l, Some (l\<lparr>tail := temp, size := size l - 1\<rparr>), m))))"

text \<open>The search stops at the tail without looking at it; it gives the pair \<open>(prev, i)\<close> or nothing.\<close>

partial_function (option) remove_search ::
  "tcb_store \<Rightarrow> u32 \<Rightarrow> u32 \<Rightarrow> u32 \<Rightarrow> u32 \<Rightarrow> (u32 \<times> u32) option res option" where
  "remove_search m back ptr prev i =
     (if i = back then Some (Inr None)
      else if i = ptr then Some (Inr (Some (prev, i)))
      else case tcb_next 126 m i of
        Inl e \<Rightarrow> Some (Inl e)
      | Inr n \<Rightarrow> remove_search m back ptr i n)"

definition list_thread_remove ::
  "thread_list option \<Rightarrow> u32 \<Rightarrow> tcb_store \<Rightarrow> (u32 \<times> thread_list option \<times> tcb_store) res" where
  "list_thread_remove list ptr m =
     (case list of None \<Rightarrow> Inr (0, None, m)
      | Some l \<Rightarrow>
          if ptr = 0 then Inr (0, Some l, m)
          else if ptr = head l then res_bind (list_thread_pop_front (Some l) m) (\<lambda>(p, l). Inr (p, l, m))
          else if ptr = tail l then list_thread_pop_back (Some l) m
          else
            res_bind (loop_res (remove_search m (tail l) ptr 0 (head l))) (\<lambda>found.
              case found of
                None \<Rightarrow> Inr (0, Some (l\<lparr>size := size l - 1\<rparr>), m)
              | Some (prev, i) \<Rightarrow>
                  res_bind (tcb_next 130 m prev) (\<lambda>n.
                  res_bind (tcb_next 130 m n) (\<lambda>nn.
                  res_bind (set_next 130 prev nn m) (\<lambda>m.
                  res_bind (set_next 131 i 0 m) (\<lambda>m.
                    Inr (i, Some l, m)))))))"

declare before_back.simps [code] remove_search.simps [code]

section \<open>Chains\<close>

text \<open>The blocks reached from \<open>p\<close> along \<^verbatim>\<open>next\<close> up to \<open>q\<close>.\<close>

fun seg_chain :: "tcb_store \<Rightarrow> u32 \<Rightarrow> u32 list \<Rightarrow> u32 \<Rightarrow> bool" where
  "seg_chain m p [] q = (p = q)"
| "seg_chain m p (x # xs) q =
     (p = x \<and> x \<noteq> 0 \<and> (case m x of None \<Rightarrow> False | Some t \<Rightarrow> seg_chain m (next_tcb t) xs q))"

abbreviation chain :: "tcb_store \<Rightarrow> u32 \<Rightarrow> u32 list \<Rightarrow> bool" where
  "chain m p xs \<equiv> seg_chain m p xs 0"

definition tlist :: "tcb_store \<Rightarrow> thread_list \<Rightarrow> u32 list \<Rightarrow> bool" where
  "tlist m l xs \<longleftrightarrow> chain m (head l) xs \<and> distinct xs \<and> tail l = (if xs = [] then 0 else last xs) \<and>
     size l = word_of_nat (length xs)"

text \<open>Only links differ.\<close>

definition links_only :: "tcb_store \<Rightarrow> tcb_store \<Rightarrow> bool" where
  "links_only m m' \<longleftrightarrow> (\<forall>q. map_option (\<lambda>t. t\<lparr>next_tcb := 0\<rparr>) (m' q) = map_option (\<lambda>t. t\<lparr>next_tcb := 0\<rparr>) (m q))"

lemma tcb_deref_simps [simp]:
  "m p = Some t \<Longrightarrow> tcb_next line m p = Inr (next_tcb t)"
  "m p = Some t \<Longrightarrow> set_next line p q m = Inr (m(p \<mapsto> t\<lparr>next_tcb := q\<rparr>))"
  by (simp_all add: tcb_next_def set_next_def)

lemma links_only_refl [simp]: "links_only m m"
  by (simp add: links_only_def)

lemma links_only_trans: "links_only m m' \<Longrightarrow> links_only m' m'' \<Longrightarrow> links_only m m''"
  by (simp add: links_only_def)

lemma links_only_upd: "links_only m0 m \<Longrightarrow> m p = Some t \<Longrightarrow> links_only m0 (m(p \<mapsto> t\<lparr>next_tcb := q\<rparr>))"
  by (simp add: links_only_def) (metis (no_types, lifting) option.simps(9) thread_control_block.update_convs(3) thread_control_block.surjective)

lemma links_only_state:
  assumes "links_only m m'" and "m p = Some t"
  shows "\<exists>n. m' p = Some (t\<lparr>next_tcb := n\<rparr>)"
proof -
  obtain t' where t': "m' p = Some t'" "t'\<lparr>next_tcb := 0\<rparr> = t\<lparr>next_tcb := 0\<rparr>"
    using assms by (auto simp: links_only_def dest!: spec [of _ p])
  have "t' = (t'\<lparr>next_tcb := 0\<rparr>)\<lparr>next_tcb := next_tcb t'\<rparr>" by simp
  also have "\<dots> = t\<lparr>next_tcb := next_tcb t'\<rparr>" by (simp add: t'(2))
  finally show ?thesis using t'(1) by metis
qed

lemma seg_chain_append:
  "seg_chain m p (xs @ ys) q \<longleftrightarrow> (\<exists>r. seg_chain m p xs r \<and> seg_chain m r ys q)"
  by (induction xs arbitrary: p) (auto split: option.splits)

lemma seg_chain_upd [simp]: "x \<notin> set xs \<Longrightarrow> seg_chain (m(x \<mapsto> t)) p xs q = seg_chain m p xs q"
  by (induction xs arbitrary: p) (auto split: option.splits)

lemma seg_chain_same_link:
  "m x = Some t \<Longrightarrow> next_tcb t' = next_tcb t \<Longrightarrow> seg_chain (m(x \<mapsto> t')) p xs q = seg_chain m p xs q"
  by (induction xs arbitrary: p) (auto split: option.splits)

lemma seg_chain_cong: "(\<And>x. x \<in> set xs \<Longrightarrow> m' x = m x) \<Longrightarrow> seg_chain m' p xs q = seg_chain m p xs q"
  by (induction xs arbitrary: p) (auto split: option.splits)

lemma seg_chain_valid: "seg_chain m p xs q \<Longrightarrow> x \<in> set xs \<Longrightarrow> x \<noteq> 0 \<and> (\<exists>t. m x = Some t)"
  by (induction xs arbitrary: p) (auto split: option.splits)

lemma seg_chain_last: "seg_chain m p xs q \<Longrightarrow> xs \<noteq> [] \<Longrightarrow> \<exists>t. m (last xs) = Some t \<and> next_tcb t = q"
  by (induction xs arbitrary: p) (auto split: option.splits if_splits)

lemma seg_chain_head: "seg_chain m p xs q \<Longrightarrow> xs \<noteq> [] \<Longrightarrow> p = hd xs"
  by (cases xs) auto

text \<open>Redirecting the last link.\<close>

lemma seg_chain_relink:
  assumes "seg_chain m p (xs @ [x]) q" and "distinct (xs @ [x])" and "m x = Some t"
  shows "seg_chain (m(x \<mapsto> t\<lparr>next_tcb := r\<rparr>)) p (xs @ [x]) r"
  using assms by (auto simp: seg_chain_append)

lemma distinct_u32_length:
  fixes xs :: "u32 list"
  assumes "distinct xs" and "0 \<notin> set xs"
  shows "length xs < 4294967296"
proof -
  have "distinct (map unat (0 # xs))"
    unfolding distinct_map using assms by (auto simp: inj_on_def word_unat_eq_iff)
  then have "length (0 # xs) = card (set (map unat (0 # xs)))" by (metis distinct_card length_map)
  also have "\<dots> \<le> card {..<4294967296 :: nat}" by (intro card_mono) auto
  finally show ?thesis by simp
qed

lemma tlist_valid: "tlist m l xs \<Longrightarrow> x \<in> set xs \<Longrightarrow> x \<noteq> 0 \<and> (\<exists>t. m x = Some t)"
  using seg_chain_valid [of m "head l" xs 0 x] by (simp add: tlist_def)

lemma tlist_length:
  assumes "tlist m l xs"
  shows "unat (size l) = length xs"
proof -
  have "0 \<notin> set xs" using tlist_valid [OF assms] by blast
  then show ?thesis using assms distinct_u32_length [of xs] by (simp add: tlist_def u32_of_nat)
qed

lemma tlist_cong: "tlist m l xs \<Longrightarrow> (\<And>x. x \<in> set xs \<Longrightarrow> m' x = m x) \<Longrightarrow> tlist m' l xs"
  using seg_chain_cong [of xs m' m] by (auto simp: tlist_def)

lemma tlist_size_one: "tlist m l xs \<Longrightarrow> size l = 1 \<longleftrightarrow> length xs = 1"
  using tlist_length [of m l xs] by (metis unat_1 word_unat_eq_iff)

lemma tlist_size_zero: "tlist m l xs \<Longrightarrow> size l < 1 \<longleftrightarrow> xs = []"
  using tlist_length [of m l xs] by (auto simp: word_less_nat_alt)

section \<open>What the operations do to the sequence\<close>

lemma push_back_tlist:
  assumes "tlist m l xs" and "m p = Some t" and "p \<noteq> 0" and "p \<notin> set xs"
  shows "\<exists>l' m'. list_thread_push_back (Some l) p m = Inr (0, Some l', m') \<and> tlist m' l' (xs @ [p]) \<and>
    links_only m m' \<and> (\<forall>q. q \<notin> set xs \<and> q \<noteq> p \<longrightarrow> m' q = m q)"
proof (cases "xs = []")
  case True
  then have "tail l = 0" "size l = 0" using assms(1) by (simp_all add: tlist_def)
  then show ?thesis using True assms(2,3) by (simp add: list_thread_push_back_def tlist_def links_only_upd)
next
  case False
  let ?x = "last xs" and ?m = "m(p \<mapsto> t\<lparr>next_tcb := 0\<rparr>)"
  have ch: "chain m (head l) xs" and tl: "tail l = ?x" using assms(1) False by (simp_all add: tlist_def)
  obtain tx where tx: "m ?x = Some tx" using seg_chain_last [OF ch False] by blast
  have xin: "?x \<in> set xs" using False by simp
  then have "?x \<noteq> p" "?x \<noteq> 0" using assms(4) seg_chain_valid [OF ch] by auto
  let ?m' = "?m(?x \<mapsto> tx\<lparr>next_tcb := p\<rparr>)"
  have split: "butlast xs @ [?x] = xs" using False by simp
  have "seg_chain ?m' (head l) (butlast xs @ [?x]) p"
    by (rule seg_chain_relink) (use assms(1,4) ch tx \<open>?x \<noteq> p\<close> in \<open>simp_all add: split tlist_def\<close>)
  then have "chain ?m' (head l) (xs @ [p])" using assms(3) \<open>?x \<noteq> p\<close> by (auto simp: split seg_chain_append)
  moreover have "links_only m ?m'" using assms(2) tx \<open>?x \<noteq> p\<close> by (intro links_only_upd) auto
  ultimately show ?thesis
    using assms tl False tx \<open>?x \<noteq> p\<close> \<open>?x \<noteq> 0\<close> xin by (auto simp: list_thread_push_back_def tlist_def)
qed

lemma push_front_tlist:
  assumes "tlist m l xs" and "m p = Some t" and "p \<noteq> 0" and "p \<notin> set xs"
  shows "\<exists>l' m'. list_thread_push_front (Some l) p m = Inr (0, Some l', m') \<and> tlist m' l' (p # xs) \<and>
    links_only m m' \<and> (\<forall>q. q \<noteq> p \<longrightarrow> m' q = m q)"
proof (cases "xs = []")
  case True
  then have "head l = 0" "size l = 0" using assms(1) by (simp_all add: tlist_def)
  then show ?thesis using True assms(2,3) by (simp add: list_thread_push_front_def tlist_def links_only_upd)
next
  case False
  then have "head l = hd xs" "hd xs \<in> set xs" using assms(1) seg_chain_head by (auto simp: tlist_def)
  then have "head l \<noteq> 0" using tlist_valid [OF assms(1)] by auto
  then show ?thesis using False assms by (auto simp: list_thread_push_front_def tlist_def links_only_upd)
qed

lemma pop_front_tlist:
  assumes "tlist m l (x # xs)"
  shows "\<exists>l'. list_thread_pop_front (Some l) m = Inr (x, Some l') \<and> tlist m l' xs"
proof -
  have hd: "head l = x" and "x \<noteq> 0" using assms by (auto simp: tlist_def)
  obtain t where t: "m x = Some t" "chain m (next_tcb t) xs"
    using assms by (auto simp: tlist_def split: option.splits)
  have "\<not> size l < 1" using tlist_size_zero [OF assms] by simp
  then show ?thesis
  proof (cases xs)
    case Nil
    then have "size l = 1" using tlist_size_one [OF assms] by simp
    then show ?thesis using Nil hd by (simp add: list_thread_pop_front_def tlist_def)
  next
    case (Cons y ys)
    then have "size l \<noteq> 1" using tlist_size_one [OF assms] by simp
    then show ?thesis using Cons hd t assms \<open>\<not> size l < 1\<close> by (simp add: list_thread_pop_front_def tlist_def)
  qed
qed

lemma pop_front_empty:
  assumes "tlist m l []"
  shows "list_thread_pop_front (Some l) m = Inr (0, Some l)"
  using tlist_size_zero [OF assms] by (simp add: list_thread_pop_front_def)

lemma before_back_chain:
  "seg_chain m p (xs @ [x]) back \<Longrightarrow> back \<notin> set (xs @ [x]) \<Longrightarrow> before_back m back p = Some (Inr x)"
proof (induction xs arbitrary: p)
  case Nil
  then show ?case by (subst before_back.simps) (auto split: option.splits)
next
  case (Cons y ys)
  then obtain t where t: "m y = Some t" "seg_chain m (next_tcb t) (ys @ [x]) back" "p = y"
    by (auto split: option.splits)
  have "next_tcb t \<in> set (ys @ [x])"
    using seg_chain_head [OF t(2)] by (metis Nil_is_append_conv hd_in_set not_Cons_self2)
  then show ?case using t Cons.IH [OF t(2)] Cons.prems(2) by (subst before_back.simps) auto
qed

lemma pop_back_tlist:
  assumes "tlist m l (xs @ [x])"
  shows "\<exists>l' m'. list_thread_pop_back (Some l) m = Inr (x, Some l', m') \<and> tlist m' l' xs \<and>
    links_only m m' \<and> (\<forall>q. q \<notin> set xs \<longrightarrow> m' q = m q)"
proof -
  have tl: "tail l = x" and nz: "\<not> size l < 1" using assms tlist_size_zero [OF assms] by (simp_all add: tlist_def)
  show ?thesis
  proof (cases "xs = []")
    case True
    then have "size l = 1" using tlist_size_one [OF assms] by simp
    then show ?thesis using True tl by (simp add: list_thread_pop_back_def tlist_def)
  next
    case False
    let ?y = "last xs"
    have s1: "size l \<noteq> 1" using False tlist_size_one [OF assms] by simp
    have split: "butlast xs @ [?y] = xs" using False by simp
    have ch: "seg_chain m (head l) xs x" and d: "distinct xs" "x \<notin> set xs"
      using assms by (auto simp: tlist_def seg_chain_append split: option.splits)
    obtain t where t: "m ?y = Some t" using seg_chain_last [OF ch False] by blast
    have b: "before_back m x (head l) = Some (Inr ?y)"
      using before_back_chain [of m "head l" "butlast xs" ?y x] ch d(2) unfolding split by blast
    have "chain (m(?y \<mapsto> t\<lparr>next_tcb := 0\<rparr>)) (head l) xs"
      using seg_chain_relink [of m "head l" "butlast xs" ?y x t 0] ch d t by (simp only: split)
    then show ?thesis
      using False tl nz s1 b t d assms by (auto simp: list_thread_pop_back_def tlist_def links_only_upd)
  qed
qed

lemma remove_search_chain:
  "seg_chain m p (xs @ [y]) q \<Longrightarrow> q \<notin> set (xs @ [y]) \<Longrightarrow> back \<notin> set (q # xs @ [y]) \<Longrightarrow>
    remove_search m back q prev p = Some (Inr (Some (y, q)))"
proof (induction xs arbitrary: p prev)
  case Nil
  then obtain t where t: "m y = Some t" "next_tcb t = q" "p = y" by (auto split: option.splits)
  have "remove_search m back q y q = Some (Inr (Some (y, q)))"
    using Nil.prems(3) by (subst remove_search.simps) auto
  then show ?case using t Nil.prems(2,3) by (subst remove_search.simps) auto
next
  case (Cons z zs)
  then obtain t where t: "m z = Some t" "seg_chain m (next_tcb t) (zs @ [y]) q" "p = z"
    by (auto split: option.splits)
  then show ?case using Cons.IH [OF t(2)] Cons.prems by (subst remove_search.simps) auto
qed

lemma remove_search_none:
  "seg_chain m p xs back \<Longrightarrow> ptr \<notin> set xs \<Longrightarrow> back \<notin> set xs \<Longrightarrow> remove_search m back ptr prev p = Some (Inr None)"
proof (induction xs arbitrary: p prev)
  case Nil
  then show ?case by (subst remove_search.simps) auto
next
  case (Cons z zs)
  then obtain t where t: "m z = Some t" "seg_chain m (next_tcb t) zs back" "p = z"
    by (auto split: option.splits)
  then show ?case using Cons.IH [OF t(2)] Cons.prems by (subst remove_search.simps) auto
qed

text \<open>Removal at the ends; in the middle the recorded size stays too large.\<close>

lemma remove_middle:
  assumes "tlist m l (xs @ [y, p, z] @ zs)"
  shows "\<exists>m'. list_thread_remove (Some l) p m = Inr (p, Some l, m') \<and>
    tlist m' (l\<lparr>size := size l - 1\<rparr>) (xs @ [y, z] @ zs) \<and> links_only m m' \<and>
    (\<forall>q. q \<notin> {y, p} \<longrightarrow> m' q = m q)"
proof -
  let ?all = "xs @ [y, p, z] @ zs"
  have v: "x \<noteq> 0" if "x \<in> set ?all" for x using tlist_valid [OF assms that] by simp
  have ne: "p \<noteq> 0" "p \<noteq> head l" "p \<noteq> tail l"
    using v assms seg_chain_head [of m "head l" ?all 0] by (auto simp: tlist_def hd_append split: if_splits)
  obtain r where "seg_chain m (head l) (xs @ [y]) p" "m p = Some r" "next_tcb r = z"
    "seg_chain m z (z # zs) 0"
    using assms by (auto simp: tlist_def seg_chain_append split: option.splits)
  note c = this
  obtain t where t: "m y = Some t" "next_tcb t = p" using seg_chain_last [OF c(1)] by auto
  have d: "distinct ?all" using assms by (simp add: tlist_def)
  have tl: "tail l \<in> set (z # zs)" using assms by (simp add: tlist_def)
  have "p \<notin> set (xs @ [y])" "tail l \<notin> set (p # xs @ [y])" using d tl by auto
  from remove_search_chain [OF c(1) this] have s: "remove_search m (tail l) p 0 (head l) = Some (Inr (Some (y, p)))" .
  let ?m = "m(y \<mapsto> t\<lparr>next_tcb := z\<rparr>, p \<mapsto> r\<lparr>next_tcb := 0\<rparr>)"
  have "seg_chain (m(y \<mapsto> t\<lparr>next_tcb := z\<rparr>)) (head l) (xs @ [y]) z"
    by (rule seg_chain_relink [OF c(1) _ t(1)]) (use d in auto)
  then have "seg_chain ?m (head l) (xs @ [y]) z" using d by (subst seg_chain_upd) auto
  moreover have "seg_chain ?m z (z # zs) 0" using c(4) d by (subst seg_chain_cong [where m = m]) auto
  ultimately have "chain ?m (head l) ((xs @ [y]) @ z # zs)" by (subst seg_chain_append) blast
  then have "tlist ?m (l\<lparr>size := size l - 1\<rparr>) (xs @ [y, z] @ zs)"
    using assms by (simp add: tlist_def)
  moreover have "y \<noteq> p" using d by auto
  moreover have "links_only m ?m" using t c(2) \<open>y \<noteq> p\<close> by (intro links_only_upd) auto
  moreover have "set_next 130 y z m = Inr (m(y \<mapsto> t\<lparr>next_tcb := z\<rparr>))" using t by simp
  moreover have "set_next 131 p 0 (m(y \<mapsto> t\<lparr>next_tcb := z\<rparr>)) = Inr ?m" using c(2) \<open>y \<noteq> p\<close> by simp
  ultimately show ?thesis using ne s c(2,3) t by (auto simp: list_thread_remove_def)
qed

lemma remove_absent:
  assumes "tlist m l xs" and "p \<noteq> 0" and "p \<notin> set xs"
  shows "list_thread_remove (Some l) p m = Inr (0, Some (l\<lparr>size := size l - 1\<rparr>), m)"
proof (cases "xs = []")
  case True
  then have "head l = 0" "tail l = 0" using assms(1) by (auto simp: tlist_def)
  then show ?thesis using assms(2) by (simp add: list_thread_remove_def remove_search.simps)
next
  case False
  have split: "butlast xs @ [last xs] = xs" using False by simp
  have ch: "seg_chain m (head l) (butlast xs) (last xs)" and tl: "tail l = last xs"
    using assms(1) False seg_chain_append [of m "head l" "butlast xs" "[last xs]" 0]
    by (auto simp: tlist_def)
  have "last xs \<notin> set (butlast xs)" using assms(1) split by (metis distinct_append not_distinct_conv_prefix tlist_def distinct_butlast append_butlast_last_id)
  moreover have "p \<notin> set (butlast xs)" using assms(3) by (meson in_set_butlastD)
  moreover have "p \<noteq> head l" "p \<noteq> tail l"
    using assms(1,3) False seg_chain_head [of m "head l" xs 0] tl by (auto simp: tlist_def)
  ultimately show ?thesis using ch tl assms(2) remove_search_none [OF ch]
    by (simp add: list_thread_remove_def)
qed

section \<open>The queue contract\<close>

text \<open>
  First in, first out: what the scheduler relies on. \<open>view\<close> relates a queue in a store to the
  sequence of its elements, \<open>known\<close> says which elements the store has.
\<close>

locale fifo =
  fixes view :: "'q \<Rightarrow> 'm \<Rightarrow> 'e list \<Rightarrow> bool"
    and known :: "'m \<Rightarrow> 'e \<Rightarrow> bool"
    and enq :: "'e \<Rightarrow> 'q \<Rightarrow> 'm \<Rightarrow> ('q \<times> 'm) res"
    and deq :: "'q \<Rightarrow> 'm \<Rightarrow> ('e \<times> 'q) res"
  assumes view_distinct: "view q m xs \<Longrightarrow> distinct xs"
    and view_known: "view q m xs \<Longrightarrow> x \<in> set xs \<Longrightarrow> known m x"
    and enq_back: "view q m xs \<Longrightarrow> known m x \<Longrightarrow> x \<notin> set xs \<Longrightarrow>
      \<exists>q' m'. enq x q m = Inr (q', m') \<and> view q' m' (xs @ [x]) \<and> known m' = known m"
    and deq_front: "view q m (x # xs) \<Longrightarrow> \<exists>q'. deq q m = Inr (x, q') \<and> view q' m xs"
begin

text \<open>One turn: the element at the front is taken, the current one is queued behind the others.\<close>

definition turn :: "'e \<Rightarrow> 'q \<Rightarrow> 'm \<Rightarrow> ('e \<times> 'q \<times> 'm) res" where
  "turn c q m = res_bind (deq q m) (\<lambda>(x, q). res_bind (enq c q m) (\<lambda>(q, m). Inr (x, q, m)))"

definition turn_view :: "'e \<Rightarrow> 'q \<Rightarrow> 'm \<Rightarrow> 'e list \<Rightarrow> bool" where
  "turn_view c q m xs \<longleftrightarrow> view q m xs \<and> known m c \<and> c \<notin> set xs"

lemma turn_rotates:
  assumes "turn_view c q m (x # xs)"
  shows "\<exists>q' m'. turn c q m = Inr (x, q', m') \<and> turn_view x q' m' (xs @ [c])"
proof -
  have v: "view q m (x # xs)" "known m c" "c \<notin> set (x # xs)" using assms by (simp_all add: turn_view_def)
  obtain q1 where q1: "deq q m = Inr (x, q1)" "view q1 m xs" using deq_front [OF v(1)] by blast
  obtain q2 m2 where q2: "enq c q1 m = Inr (q2, m2)" "view q2 m2 (xs @ [c])" "known m2 = known m"
    using enq_back [OF q1(2) v(2)] v(3) by auto
  have "known m2 x" using view_known [OF v(1), of x] q2(3) by simp
  moreover have "x \<notin> set (xs @ [c])" using view_distinct [OF v(1)] v(3) by auto
  ultimately show ?thesis using q1 q2 by (simp add: turn_def turn_view_def)
qed

fun turns :: "nat \<Rightarrow> 'e \<Rightarrow> 'q \<Rightarrow> 'm \<Rightarrow> ('e \<times> 'q \<times> 'm) res" where
  "turns 0 c q m = Inr (c, q, m)"
| "turns (Suc n) c q m = res_bind (turn c q m) (\<lambda>(c, q, m). turns n c q m)"

text \<open>After \<open>n\<close> turns the whole circle of the current and the waiting elements is rotated \<open>n\<close> times.\<close>

lemma turns_rotate:
  assumes "turn_view c q m (x # xs)"
  shows "\<exists>c' q' m' ys. turns n c q m = Inr (c', q', m') \<and> turn_view c' q' m' ys \<and> c' # ys = rotate n (c # x # xs)"
  using assms
proof (induction n arbitrary: c q m x xs)
  case 0
  then show ?case by auto
next
  case (Suc n)
  obtain q1 m1 where t: "turn c q m = Inr (x, q1, m1)" "turn_view x q1 m1 (xs @ [c])"
    using turn_rotates [OF Suc.prems] by blast
  obtain y ys where ys: "xs @ [c] = y # ys" by (cases "xs @ [c]") auto
  from Suc.IH [of x q1 m1 y ys] t(2) ys obtain c' q' m' zs where
    "turns n x q1 m1 = Inr (c', q', m')" "turn_view c' q' m' zs" "c' # zs = rotate n (x # xs @ [c])"
    by auto
  moreover have "rotate (Suc n) (c # x # xs) = rotate n (x # xs @ [c])"
    by (simp only: rotate_Suc rotate_rotate rotate1_rotate_swap rotate1.simps append_Cons)
  ultimately show ?case using t(1) by auto
qed

end

text \<open>The thread lists keep the contract; elements are the blocks that the store has.\<close>

definition enq_tcb :: "u32 \<Rightarrow> thread_list option \<Rightarrow> tcb_store \<Rightarrow> (thread_list option \<times> tcb_store) res" where
  "enq_tcb x q m = res_bind (list_thread_push_back q x m) (\<lambda>(r, q, m). Inr (q, m))"

definition tview :: "thread_list option \<Rightarrow> tcb_store \<Rightarrow> u32 list \<Rightarrow> bool" where
  "tview q m xs \<longleftrightarrow> (\<exists>l. q = Some l \<and> tlist m l xs)"

lemma tview_same_link: "m x = Some t \<Longrightarrow> next_tcb t' = next_tcb t \<Longrightarrow> tview q (m(x \<mapsto> t')) xs = tview q m xs"
  by (simp add: tview_def tlist_def seg_chain_same_link)

lemma tview_cong: "tview q m xs \<Longrightarrow> (\<And>x. x \<in> set xs \<Longrightarrow> m' x = m x) \<Longrightarrow> tview q m' xs"
  using tlist_cong [of m _ xs m'] by (auto simp: tview_def)

definition known_tcb :: "tcb_store \<Rightarrow> u32 \<Rightarrow> bool" where
  "known_tcb m x \<longleftrightarrow> x \<noteq> 0 \<and> m x \<noteq> None"

lemma links_only_known: "links_only m m' \<Longrightarrow> known_tcb m' = known_tcb m"
proof
  fix x
  assume "links_only m m'"
  then have "map_option (\<lambda>t. t\<lparr>next_tcb := 0\<rparr>) (m' x) = map_option (\<lambda>t. t\<lparr>next_tcb := 0\<rparr>) (m x)"
    by (simp add: links_only_def)
  then show "known_tcb m' x = known_tcb m x" by (cases "m x"; cases "m' x") (auto simp: known_tcb_def)
qed

interpretation ready: fifo tview known_tcb enq_tcb list_thread_pop_front
proof unfold_locales
  show "tview q m xs \<Longrightarrow> distinct xs" for q m xs by (auto simp: tview_def tlist_def)
  show "tview q m xs \<Longrightarrow> x \<in> set xs \<Longrightarrow> known_tcb m x" for q m xs x
    using tlist_valid [of m _ xs x] by (auto simp: tview_def known_tcb_def)
  show "\<exists>q' m'. enq_tcb x q m = Inr (q', m') \<and> tview q' m' (xs @ [x]) \<and> known_tcb m' = known_tcb m"
    if v: "tview q m xs" "known_tcb m x" "x \<notin> set xs" for q m xs x
  proof -
    obtain l t where "q = Some l" "tlist m l xs" "m x = Some t" "x \<noteq> 0"
      using v by (auto simp: tview_def known_tcb_def)
    then show ?thesis
      using push_back_tlist [of m l xs x t] v(3) links_only_known by (fastforce simp: enq_tcb_def tview_def)
  qed
  show "\<exists>q'. list_thread_pop_front q m = Inr (x, q') \<and> tview q' m xs" if "tview q m (x # xs)" for q m x xs
    using that pop_front_tlist [of m _ x xs] by (fastforce simp: tview_def)
qed

section \<open>Where the list goes wrong\<close>

lemma remove_tlist:
  assumes "tlist m l xs" and "p \<noteq> 0"
  shows "\<exists>l' m'. list_thread_remove (Some l) p m = Inr (if p \<in> set xs then p else 0, Some l', m') \<and>
    links_only m m' \<and> tlist m' (l'\<lparr>size := word_of_nat (length (remove1 p xs))\<rparr>) (remove1 p xs) \<and>
    size l' = (if p \<in> set xs then (if p = hd xs \<or> p = last xs then size l - 1 else size l) else size l - 1) \<and>
    (\<forall>q. q \<notin> set xs \<longrightarrow> m' q = m q)"
proof (cases "p \<in> set xs")
  case False
  have "l\<lparr>size := word_of_nat (length xs)\<rparr> = l" using assms(1) by (cases l) (simp add: tlist_def)
  then show ?thesis using remove_absent [OF assms False] False assms(1)
    by (auto simp: remove1_idem)
next
  case True
  then have ne: "xs \<noteq> []" by auto
  have d: "distinct xs" using assms(1) by (simp add: tlist_def)
  have recorded: "l'\<lparr>size := word_of_nat (length ys)\<rparr> = l'" "size l' = size l - 1"
    if "tlist m' l' ys" "length xs = Suc (length ys)" for l' m' ys
    using that assms(1) by (cases l'; auto simp: tlist_def)+
  have hd: "head l = hd xs" "tail l = last xs"
    using assms(1) ne seg_chain_head [of m "head l" xs 0] by (auto simp: tlist_def)
  consider (front) "p = hd xs" | (ending) "p \<noteq> hd xs" "p = last xs" | (mid) "p \<noteq> hd xs" "p \<noteq> last xs" by blast
  then show ?thesis
  proof cases
    case front
    then obtain ys where ys: "xs = p # ys" using ne by (cases xs) auto
    obtain l' where l': "list_thread_pop_front (Some l) m = Inr (p, Some l')" "tlist m l' ys"
      using pop_front_tlist [of m l p ys] assms(1) ys by auto
    then have rem: "list_thread_remove (Some l) p m = Inr (p, Some l', m)"
      using front hd(1) assms(2) by (simp add: list_thread_remove_def)
    have r: "remove1 p xs = ys" "length xs = Suc (length ys)" using ys by simp_all
    show ?thesis
      by (rule exI [of _ l'], rule exI [of _ m]) (use rem r l'(2) recorded [OF l'(2) r(2)] front True in auto)
  next
    case ending
    then obtain ys where ys: "xs = ys @ [p]" using ne by (metis append_butlast_last_id)
    obtain l' m' where l': "list_thread_pop_back (Some l) m = Inr (p, Some l', m')" "tlist m' l' ys" "links_only m m'"
      "\<forall>q. q \<notin> set ys \<longrightarrow> m' q = m q"
      using pop_back_tlist [of m l ys p] assms(1) ys by auto
    have "p \<notin> set ys" using d ys by simp
    then have r: "remove1 p xs = ys" "length xs = Suc (length ys)" using ys by (simp_all add: remove1_append)
    have rem: "list_thread_remove (Some l) p m = Inr (p, Some l', m')"
      using ending hd assms(2) l'(1) by (simp add: list_thread_remove_def)
    have frame: "\<forall>q. q \<notin> set xs \<longrightarrow> m' q = m q" using l'(4) ys by simp
    show ?thesis
      by (rule exI [of _ l'], rule exI [of _ m']) (use rem r l'(2,3) frame recorded [OF l'(2) r(2)] ending True in auto)
  next
    case mid
    obtain us vs where uv: "xs = us @ p # vs" using True by (meson split_list)
    have "us \<noteq> []" "vs \<noteq> []" using mid uv by (auto simp: hd_append)
    then obtain bs y z zs where yz: "us = bs @ [y]" "vs = z # zs" by (metis append_butlast_last_id list.exhaust)
    have xs: "xs = bs @ [y, p, z] @ zs" using uv yz by simp
    obtain m' where m': "list_thread_remove (Some l) p m = Inr (p, Some l, m')"
      "tlist m' (l\<lparr>size := size l - 1\<rparr>) (bs @ [y, z] @ zs)" "links_only m m'"
      "\<forall>q. q \<notin> {y, p} \<longrightarrow> m' q = m q"
      using remove_middle [of m l bs y p z zs] assms(1) xs by auto
    have rem: "remove1 p xs = bs @ [y, z] @ zs" using d xs by (auto simp: remove1_append)
    have "l\<lparr>size := word_of_nat (length (bs @ [y, z] @ zs))\<rparr> = l\<lparr>size := size l - 1\<rparr>"
      using m'(2) by (simp add: tlist_def)
    then show ?thesis using m' mid rem True xs by auto
  qed
qed

text \<open>C26: list_thread_remove returns the block and unlinks it from the list wherever it is, or
  returns NULL for a block that is not in the list; the recorded size is right only when the
  block was at an end: in the middle it stays too large, and for a missing block it shrinks.\<close>
theorem list_thread_remove_spec:
  assumes "tlist m l xs" and "p \<noteq> 0"
  shows "\<exists>l' m'. list_thread_remove (Some l) p m = Inr (if p \<in> set xs then p else 0, Some l', m') \<and>
    links_only m m' \<and> tlist m' (l'\<lparr>size := word_of_nat (length (remove1 p xs))\<rparr>) (remove1 p xs) \<and>
    size l' = (if p \<in> set xs then (if p = hd xs \<or> p = last xs then size l - 1 else size l) else size l - 1)"
  using remove_tlist [OF assms] by blast

text \<open>Queueing an element that is queued already cuts off everything behind it.\<close>

lemma push_back_cuts:
  assumes "tlist m l (xs @ p # ys)" and "ys \<noteq> []"
  shows "\<exists>l' m'. list_thread_push_back (Some l) p m = Inr (0, Some l', m') \<and>
    chain m' (head l') (xs @ [p]) \<and> tail l' = p \<and> size l' = word_of_nat (length (xs @ p # ys) + 1) \<and>
    links_only m m' \<and> (\<forall>q. q \<notin> set (xs @ p # ys) \<longrightarrow> m' q = m q)"
proof -
  have d: "distinct (xs @ p # ys)" and tl: "tail l = last ys" and sz: "size l = word_of_nat (length (xs @ p # ys))"
    using assms by (simp_all add: tlist_def)
  have v: "x \<noteq> 0 \<and> (\<exists>t. m x = Some t)" if "x \<in> set (xs @ p # ys)" for x by (rule tlist_valid [OF assms(1) that])
  have lin: "last ys \<in> set ys" using assms(2) by simp
  obtain t where t: "m p = Some t" "p \<noteq> 0" using v [of p] by auto
  obtain u where u: "m (last ys) = Some u" "last ys \<noteq> 0" using v [of "last ys"] lin by auto
  have ne: "last ys \<noteq> p" "last ys \<notin> set (xs @ [p])" using d lin by auto
  have "seg_chain m (head l) (xs @ [p]) (next_tcb t)"
    using assms(1) t by (auto simp: tlist_def seg_chain_append)
  then have "chain (m(p \<mapsto> t\<lparr>next_tcb := 0\<rparr>)) (head l) (xs @ [p])"
    using d t by (intro seg_chain_relink) auto
  then have "chain (m(p \<mapsto> t\<lparr>next_tcb := 0\<rparr>, last ys \<mapsto> u\<lparr>next_tcb := p\<rparr>)) (head l) (xs @ [p])"
    using ne by (subst seg_chain_upd) auto
  moreover have "links_only m (m(p \<mapsto> t\<lparr>next_tcb := 0\<rparr>, last ys \<mapsto> u\<lparr>next_tcb := p\<rparr>))"
    using t(1) u(1) ne(1) by (intro links_only_upd) auto
  moreover have "q \<noteq> last ys" if "q \<notin> set (xs @ p # ys)" for q using that lin by auto
  ultimately show ?thesis using t u ne tl sz by (auto simp: list_thread_push_back_def)
qed

text \<open>A block queued a second time at the back cuts off every block behind its first place.\<close>
theorem push_back_twice_cuts:
  assumes "tlist m l (xs @ p # ys)" and "ys \<noteq> []"
  shows "\<exists>l' m'. list_thread_push_back (Some l) p m = Inr (0, Some l', m') \<and>
    chain m' (head l') (xs @ [p]) \<and> tail l' = p \<and> size l' = word_of_nat (length (xs @ p # ys) + 1)"
  using push_back_cuts [OF assms] by blast

definition blank_tcb :: thread_control_block where
  "blank_tcb = \<lparr>esp = 0, cr3 = 0, next_tcb = 0, state = THREAD_RUNNING, paused_until = 0, time_used = 0,
     pid = 0, stack_alloc_ptr = 0, kbp_queue = 0\<rparr>"

text \<open>Four blocks, the first three linked.\<close>

definition three_tcbs :: tcb_store where
  "three_tcbs = [0x10 \<mapsto> blank_tcb\<lparr>next_tcb := 0x20\<rparr>, 0x20 \<mapsto> blank_tcb\<lparr>next_tcb := 0x30\<rparr>,
     0x30 \<mapsto> blank_tcb, 0x40 \<mapsto> blank_tcb]"

definition three_list :: thread_list where
  "three_list = \<lparr>head = 0x10, tail = 0x30, size = 3\<rparr>"

lemma three_tlist: "tlist three_tcbs three_list [0x10, 0x20, 0x30]"
  by (simp add: tlist_def three_tcbs_def three_list_def blank_tcb_def)

theorem list_thread_remove_spec_witness:
  "\<exists>l' m'. list_thread_remove (Some three_list) 0x20 three_tcbs = Inr (0x20, Some l', m') \<and> size l' = 3"
  using list_thread_remove_spec [OF three_tlist, of "0x20"] by (auto simp: three_list_def)

theorem push_back_twice_cuts_witness:
  "\<exists>l' m'. list_thread_push_back (Some three_list) 0x10 three_tcbs = Inr (0, Some l', m') \<and>
    chain m' (head l') [0x10] \<and> size l' = 4"
  using push_back_twice_cuts [of three_tcbs three_list "[]" "0x10" "[0x20, 0x30]"] three_tlist by auto

end
