(* ===== verification/Thread_Schedule.thy ===== *)
theory Thread_Schedule
  imports Thread_List Heap
begin

text \<open>
  The state of the multitasking code and \<^verbatim>\<open>src/src/multitask/thread_schedule.c\<close>, with the
  switch of \<^verbatim>\<open>thread_switch.asm\<close> and \<^verbatim>\<open>update_time_used\<close> of \<^verbatim>\<open>thread_time.c\<close>. An operation is
  a function on the global state: after it the processor goes on with the code of the thread in
  \<^verbatim>\<open>current_running_tcb\<close>. Every switch happens inside the outermost
  \<^verbatim>\<open>unlock_postpone_and_schedule\<close>, and both a resumed and a new thread (through \<^verbatim>\<open>thread_entry\<close>)
  continue by counting \<^verbatim>\<open>IRQ_disable_counter\<close> down, so that the rest of the unlock is the same
  whoever executes it. The saved registers and the contents of the stacks are not in the state.
\<close>

section \<open>State\<close>

record SEMAPHORE =
  max_count :: i32
  current_count :: i32
  first_waiting_task :: u32
  last_waiting_task :: u32

record kbp_queue_t =
  sync :: u32
  front :: u32
  backq :: u32
  status_flags :: u16

record KBP =
  unicode_code :: u32
  key_code :: u16
  status :: u32
  next_kbp :: u32

text \<open>
  \<open>halted\<close> is the thread on whose stack \<^verbatim>\<open>schedule\<close> waits in its \<^verbatim>\<open>hlt\<close> loop; \<open>irq_on\<close> is the
  interrupt flag.
\<close>

record sched =
  tcbs :: tcb_store
  sems :: "SEMAPHORE store"
  queues :: "kbp_queue_t store"
  packets :: "KBP store"
  hp :: kmem
  irq_on :: bool
  halted :: "u32 option"
  cr3_reg :: u32
  IRQ_disable_counter :: i32
  postpone_task_switches_counter :: i32
  task_switches_postponed_flag :: i32
  current_running_tcb :: u32
  current_focus_tcb :: u32
  butler :: u32
  threads_ready :: "thread_list option"
  threads_sleeping :: "thread_list option"
  threads_terminated :: "thread_list option"
  timer_tick :: i32
  last_read_tick :: i32
  idleCPUTime :: i32
  thread_create_counter :: u32

definition thread_at :: "string \<Rightarrow> nat \<Rightarrow> u32 \<Rightarrow> sched \<Rightarrow> thread_control_block res" where
  "thread_at file line p s = deref file line (tcbs s) p"

definition set_thread :: "string \<Rightarrow> nat \<Rightarrow> u32 \<Rightarrow> (thread_control_block \<Rightarrow> thread_control_block) \<Rightarrow> sched \<Rightarrow> sched res" where
  "set_thread file line p f s = res_bind (update_at file line p f (tcbs s)) (\<lambda>m. Inr (s\<lparr>tcbs := m\<rparr>))"

section \<open>Interrupt and scheduler locks\<close>

definition lock_scheduler :: "sched \<Rightarrow> sched" where
  "lock_scheduler s = s\<lparr>irq_on := False, IRQ_disable_counter := IRQ_disable_counter s + 1\<rparr>"

definition unlock_scheduler :: "sched \<Rightarrow> sched" where
  "unlock_scheduler s =
     (let s = s\<lparr>IRQ_disable_counter := IRQ_disable_counter s - 1\<rparr>
      in if IRQ_disable_counter s = 0 then s\<lparr>irq_on := True\<rparr> else s)"

definition lock_postpone :: "sched \<Rightarrow> sched" where
  "lock_postpone s = s\<lparr>irq_on := False, IRQ_disable_counter := IRQ_disable_counter s + 1,
     postpone_task_switches_counter := postpone_task_switches_counter s + 1\<rparr>"

section \<open>The switch\<close>

definition update_time_used :: "sched \<Rightarrow> sched res" where
  "update_time_used s =
     (let c = last_read_tick s; s = s\<lparr>last_read_tick := timer_tick s\<rparr>
      in if current_running_tcb s = 0
         then Inr (s\<lparr>idleCPUTime := idleCPUTime s + (last_read_tick s - c)\<rparr>)
         else set_thread ''src/multitask/thread_time.c'' 49 (current_running_tcb s)
                (\<lambda>t. t\<lparr>time_used := time_used t + (last_read_tick s - c)\<rparr>) s)"

text \<open>\<^verbatim>\<open>switch_to_thread(&current_running_tcb, next)\<close>; the context of the old thread is saved in its block.\<close>

definition switch_to_thread :: "u32 \<Rightarrow> sched \<Rightarrow> sched res" where
  "switch_to_thread next_thread s =
     (if postpone_task_switches_counter s \<noteq> 0 then Inr (s\<lparr>postpone_task_switches_counter := 1\<rparr>)
      else
        res_bind (update_time_used s) (\<lambda>s.
        res_bind (thread_at ''src/multitask/thread_switch.asm'' 46 (current_running_tcb s) s) (\<lambda>old.
        res_bind (thread_at ''src/multitask/thread_switch.asm'' 54 next_thread s) (\<lambda>t.
          Inr (s\<lparr>current_running_tcb := next_thread, cr3_reg := cr3 t\<rparr>)))))"

definition push_ready :: "u32 \<Rightarrow> sched \<Rightarrow> sched res" where
  "push_ready p s =
     res_bind (list_thread_push_back (threads_ready s) p (tcbs s)) (\<lambda>(r, q, m).
       Inr (s\<lparr>threads_ready := q, tcbs := m\<rparr>))"

definition pop_ready :: "sched \<Rightarrow> (u32 \<times> sched) res" where
  "pop_ready s =
     res_bind (list_thread_pop_front (threads_ready s) (tcbs s)) (\<lambda>(p, q). Inr (p, s\<lparr>threads_ready := q\<rparr>))"

section \<open>Scheduling\<close>

text \<open>The flag of the result tells that the processor waits in the \<^verbatim>\<open>hlt\<close> loop.\<close>

definition schedule :: "sched \<Rightarrow> (bool \<times> sched) res" where
  "schedule s =
     (if postpone_task_switches_counter s \<noteq> 0 then Inr (False, s\<lparr>task_switches_postponed_flag := 1\<rparr>)
      else
        res_bind (pop_ready s) (\<lambda>(nxt, s).
        res_bind (thread_at ''src/multitask/thread_schedule.c'' 54 (current_running_tcb s) s) (\<lambda>t.
          if nxt \<noteq> 0 then
            res_bind (if state t = THREAD_RUNNING then push_ready (current_running_tcb s) s else Inr s) (\<lambda>s.
            res_bind (switch_to_thread nxt s) (\<lambda>s. Inr (False, s)))
          else if state t = THREAD_RUNNING then Inr (False, s)
          else Inr (True, s\<lparr>halted := Some (current_running_tcb s), current_running_tcb := 0, irq_on := True\<rparr>))))"

text \<open>What is left of \<^verbatim>\<open>unlock_postpone_and_schedule\<close> after the switch.\<close>

definition finish_unlock :: "sched \<Rightarrow> sched" where
  "finish_unlock s =
     (let s = s\<lparr>IRQ_disable_counter := IRQ_disable_counter s - 1\<rparr>
      in if IRQ_disable_counter s = 0 then s\<lparr>irq_on := True\<rparr> else s)"

definition unlock_postpone_and_schedule :: "sched \<Rightarrow> sched res" where
  "unlock_postpone_and_schedule s =
     (let s = s\<lparr>postpone_task_switches_counter := postpone_task_switches_counter s - 1\<rparr>
      in if postpone_task_switches_counter s = 0 \<and> task_switches_postponed_flag s \<noteq> 0 then
           res_bind (schedule (s\<lparr>task_switches_postponed_flag := 0\<rparr>)) (\<lambda>(idle, s).
             Inr (if idle then s else finish_unlock s))
         else Inr (finish_unlock s))"

text \<open>The \<^verbatim>\<open>hlt\<close> loop after an interrupt: another round, or the switch and the rest of the unlock.\<close>

definition wake :: "sched \<Rightarrow> sched res" where
  "wake s =
     (case halted s of None \<Rightarrow> Inr s
      | Some task \<Rightarrow>
          res_bind (pop_ready (s\<lparr>irq_on := False\<rparr>)) (\<lambda>(nxt, s).
            if nxt = 0 then Inr (s\<lparr>irq_on := True\<rparr>)
            else
              let s = s\<lparr>current_running_tcb := task, halted := None\<rparr>
              in res_bind (if nxt \<noteq> task then switch_to_thread nxt s else Inr s) (\<lambda>s. Inr (finish_unlock s))))"

definition block_task :: "thread_status \<Rightarrow> sched \<Rightarrow> sched res" where
  "block_task reason s =
     res_bind (set_thread ''src/multitask/thread_schedule.c'' 99 (current_running_tcb s) (\<lambda>t. t\<lparr>state := reason\<rparr>)
       (lock_postpone s)) (\<lambda>s.
     res_bind (schedule s) (\<lambda>(idle, s). unlock_postpone_and_schedule s))"

definition unblock_task :: "u32 \<Rightarrow> sched \<Rightarrow> sched res" where
  "unblock_task task s =
     res_bind (push_ready task (lock_postpone s)) (\<lambda>s.
     res_bind (set_thread ''src/multitask/thread_schedule.c'' 108 task (\<lambda>t. t\<lparr>state := THREAD_RUNNING\<rparr>) s) (\<lambda>s.
       unlock_postpone_and_schedule s))"

section \<open>Basic facts\<close>

lemma thread_simps [simp]:
  "tcbs s p = Some t \<Longrightarrow> thread_at file line p s = Inr t"
  "tcbs s p = Some t \<Longrightarrow> set_thread file line p f s = Inr (s\<lparr>tcbs := (tcbs s)(p \<mapsto> f t)\<rparr>)"
  by (simp_all add: thread_at_def set_thread_def)

lemma lock_postpone_fields [simp]:
  "tcbs (lock_postpone s) = tcbs s" "sems (lock_postpone s) = sems s" "queues (lock_postpone s) = queues s"
  "packets (lock_postpone s) = packets s" "hp (lock_postpone s) = hp s" "halted (lock_postpone s) = halted s"
  "current_running_tcb (lock_postpone s) = current_running_tcb s"
  "current_focus_tcb (lock_postpone s) = current_focus_tcb s" "butler (lock_postpone s) = butler s"
  "threads_ready (lock_postpone s) = threads_ready s" "threads_sleeping (lock_postpone s) = threads_sleeping s"
  "threads_terminated (lock_postpone s) = threads_terminated s" "timer_tick (lock_postpone s) = timer_tick s"
  "last_read_tick (lock_postpone s) = last_read_tick s" "idleCPUTime (lock_postpone s) = idleCPUTime s"
  "task_switches_postponed_flag (lock_postpone s) = task_switches_postponed_flag s"
  "IRQ_disable_counter (lock_postpone s) = IRQ_disable_counter s + 1"
  "postpone_task_switches_counter (lock_postpone s) = postpone_task_switches_counter s + 1"
  "irq_on (lock_postpone s) = False"
  by (simp_all add: lock_postpone_def)

text \<open>An unlock inside another one only counts down.\<close>

lemma unlock_nested:
  assumes "postpone_task_switches_counter s - 1 \<noteq> 0" and "IRQ_disable_counter s - 1 \<noteq> 0"
  shows "unlock_postpone_and_schedule s = Inr (s\<lparr>postpone_task_switches_counter := postpone_task_switches_counter s - 1,
     IRQ_disable_counter := IRQ_disable_counter s - 1\<rparr>)"
  using assms by (simp add: unlock_postpone_and_schedule_def finish_unlock_def Let_def)

lemma unlock_quiet:
  assumes "postpone_task_switches_counter s = 1" and "IRQ_disable_counter s = 1" and "task_switches_postponed_flag s = 0"
  shows "unlock_postpone_and_schedule s = Inr (s\<lparr>postpone_task_switches_counter := 0,
     IRQ_disable_counter := 0, irq_on := True\<rparr>)"
  using assms by (simp add: unlock_postpone_and_schedule_def finish_unlock_def Let_def)

lemma schedule_postponed:
  "postpone_task_switches_counter s \<noteq> 0 \<Longrightarrow> schedule s = Inr (False, s\<lparr>task_switches_postponed_flag := 1\<rparr>)"
  by (simp add: schedule_def)

text \<open>A thread runs, nothing is locked or pending.\<close>

definition at_rest :: "sched \<Rightarrow> bool" where
  "at_rest s \<longleftrightarrow> IRQ_disable_counter s = 0 \<and> postpone_task_switches_counter s = 0 \<and>
     task_switches_postponed_flag s = 0 \<and> halted s = None"

definition tstatus :: "sched \<Rightarrow> u32 \<Rightarrow> thread_status option" where
  "tstatus s p = map_option state (tcbs s p)"

abbreviation ready_threads :: "sched \<Rightarrow> u32 list \<Rightarrow> bool" where
  "ready_threads s \<equiv> tview (threads_ready s) (tcbs s)"

text \<open>Control blocks up to their links and their processor time.\<close>

definition core :: "thread_control_block \<Rightarrow> thread_control_block" where
  "core t = t\<lparr>next_tcb := 0, time_used := 0\<rparr>"

definition same_cores :: "tcb_store \<Rightarrow> tcb_store \<Rightarrow> bool" where
  "same_cores m m' \<longleftrightarrow> (\<forall>q. map_option core (m' q) = map_option core (m q))"

lemma same_cores_refl [simp]: "same_cores m m"
  by (simp add: same_cores_def)

lemma same_cores_trans: "same_cores m m' \<Longrightarrow> same_cores m' m'' \<Longrightarrow> same_cores m m''"
  by (simp add: same_cores_def)

lemma links_only_cores: "links_only m m' \<Longrightarrow> same_cores m m'"
proof -
  assume l: "links_only m m'"
  have c: "map_option core v = map_option (\<lambda>t. t\<lparr>time_used := 0\<rparr>) (map_option (\<lambda>t. t\<lparr>next_tcb := 0\<rparr>) v)" for v
    by (cases v) (simp_all add: core_def)
  show ?thesis unfolding same_cores_def c using l by (simp add: links_only_def)
qed

lemma same_cores_upd: "same_cores m0 m \<Longrightarrow> m p = Some t \<Longrightarrow> core t' = core t \<Longrightarrow> same_cores m0 (m(p \<mapsto> t'))"
  unfolding same_cores_def by (metis (no_types, lifting) fun_upd_other fun_upd_same option.simps(9))

lemma same_cores_known: "same_cores m m' \<Longrightarrow> known_tcb m' = known_tcb m"
proof
  fix x
  assume "same_cores m m'"
  then have "map_option core (m' x) = map_option core (m x)" by (simp add: same_cores_def)
  then show "known_tcb m' x = known_tcb m x" by (cases "m x"; cases "m' x") (auto simp: known_tcb_def)
qed

lemma core_state: "core t = core t' \<Longrightarrow> state t = state t'"
  by (metis core_def thread_control_block.select_convs(4) thread_control_block.surjective thread_control_block.update_convs(3,6))

lemma same_cores_queue:
  assumes "same_cores m m'"
  shows "map_option kbp_queue (m' x) = map_option kbp_queue (m x)"
proof -
  have "map_option (kbp_queue \<circ> core) (m' x) = map_option (kbp_queue \<circ> core) (m x)"
    using assms unfolding same_cores_def by (metis option.map_comp)
  moreover have "kbp_queue \<circ> core = kbp_queue" by (simp add: core_def fun_eq_iff)
  ultimately show ?thesis by simp
qed

lemma same_cores_status: "same_cores m m' \<Longrightarrow> map_option state (m' x) = map_option state (m x)"
proof -
  assume "same_cores m m'"
  then have "map_option core (m' x) = map_option core (m x)" by (simp add: same_cores_def)
  then show ?thesis by (cases "m x"; cases "m' x") (auto dest: core_state)
qed

section \<open>One scheduling decision\<close>

lemma switch_to_thread_eq:
  assumes "postpone_task_switches_counter s = 0" and "tcbs s c = Some tc" and "current_running_tcb s = c" and "c \<noteq> 0"
    and "known_tcb (tcbs s) n"
  shows "\<exists>tc' k. switch_to_thread n s = Inr (s\<lparr>last_read_tick := timer_tick s, tcbs := (tcbs s)(c \<mapsto> tc'),
      current_running_tcb := n, cr3_reg := k\<rparr>) \<and>
    tc' = tc\<lparr>time_used := time_used tc + (timer_tick s - last_read_tick s)\<rparr>"
proof -
  obtain tn where "tcbs s n = Some tn" using assms(5) by (auto simp: known_tcb_def)
  then show ?thesis
    using assms
    by (intro exI [of _ "tc\<lparr>time_used := time_used tc + (timer_tick s - last_read_tick s)\<rparr>"],
        intro exI [of _ "if n = c then cr3 tc else cr3 tn"])
      (cases "n = c"; simp add: switch_to_thread_def update_time_used_def Let_def)
qed

text \<open>
  With a ready thread the first one runs, and the current one goes behind the others exactly if
  it is running.
\<close>

lemma schedule_next:
  assumes "postpone_task_switches_counter s = 0" and "current_running_tcb s = c" and "c \<noteq> 0" and "tcbs s c = Some tc"
    and "ready_threads s (x # xs)" and "state tc = THREAD_RUNNING \<longrightarrow> c \<notin> set (x # xs)"
  shows "\<exists>m q k. schedule s = Inr (False, s\<lparr>tcbs := m, threads_ready := q, current_running_tcb := x, cr3_reg := k,
      last_read_tick := timer_tick s\<rparr>) \<and>
    tview q m (if state tc = THREAD_RUNNING then xs @ [c] else xs) \<and> same_cores (tcbs s) m \<and>
    (\<forall>p. p \<notin> set xs \<and> p \<noteq> c \<longrightarrow> m p = tcbs s p) \<and>
    (state tc \<noteq> THREAD_RUNNING \<longrightarrow>
      m = (tcbs s)(c \<mapsto> tc\<lparr>time_used := time_used tc + (timer_tick s - last_read_tick s)\<rparr>))"
proof -
  obtain q1 where q1: "list_thread_pop_front (threads_ready s) (tcbs s) = Inr (x, q1)" "tview q1 (tcbs s) xs"
    using ready.deq_front [OF assms(5)] by blast
  have kx: "known_tcb (tcbs s) x" "x \<noteq> 0" using ready.view_known [OF assms(5), of x] by (auto simp: known_tcb_def)
  let ?s = "s\<lparr>threads_ready := q1\<rparr>"
  show ?thesis
  proof (cases "state tc = THREAD_RUNNING")
    case False
    obtain tc' k where sw: "switch_to_thread x ?s = Inr (?s\<lparr>last_read_tick := timer_tick s, tcbs := (tcbs s)(c \<mapsto> tc'),
        current_running_tcb := x, cr3_reg := k\<rparr>)" "tc' = tc\<lparr>time_used := time_used tc + (timer_tick s - last_read_tick s)\<rparr>"
      using switch_to_thread_eq [of ?s c tc x] assms kx by auto
    have "same_cores (tcbs s) ((tcbs s)(c \<mapsto> tc'))"
      using sw(2) assms(4) by (intro same_cores_upd) (simp_all add: core_def)
    moreover have "tview q1 ((tcbs s)(c \<mapsto> tc')) xs" using q1(2) sw(2) assms(4) by (simp add: tview_same_link)
    ultimately show ?thesis
      using assms False q1(1) kx(2) sw
      by (intro exI [of _ "(tcbs s)(c \<mapsto> tc')"] exI [of _ q1] exI [of _ k]) (simp add: schedule_def pop_ready_def)
  next
    case True
    obtain l1 where l1: "q1 = Some l1" "tlist (tcbs s) l1 xs" using q1(2) by (auto simp: tview_def)
    obtain l2 m2 where p: "list_thread_push_back (Some l1) c (tcbs s) = Inr (0, Some l2, m2)"
      "tlist m2 l2 (xs @ [c])" "links_only (tcbs s) m2" "\<forall>p. p \<notin> set xs \<and> p \<noteq> c \<longrightarrow> m2 p = tcbs s p"
      using push_back_tlist [OF l1(2) assms(4,3)] assms(6) True by auto
    obtain tc2 where tc2: "m2 c = Some tc2" using links_only_state [OF p(3) assms(4)] by blast
    let ?s2 = "s\<lparr>threads_ready := Some l2, tcbs := m2\<rparr>"
    have "known_tcb m2 x" using links_only_known [OF p(3)] kx by simp
    then obtain tc' k where sw: "switch_to_thread x ?s2 = Inr (?s2\<lparr>last_read_tick := timer_tick s, tcbs := m2(c \<mapsto> tc'),
        current_running_tcb := x, cr3_reg := k\<rparr>)" "tc' = tc2\<lparr>time_used := time_used tc2 + (timer_tick s - last_read_tick s)\<rparr>"
      using switch_to_thread_eq [of ?s2 c tc2 x] assms tc2 by auto
    have "same_cores (tcbs s) (m2(c \<mapsto> tc'))"
      using sw(2) tc2 links_only_cores [OF p(3)] by (intro same_cores_upd) (simp_all add: core_def)
    moreover have "tview (Some l2) (m2(c \<mapsto> tc')) (xs @ [c])"
      using p(2) sw(2) tc2 by (simp add: tview_same_link) (simp add: tview_def)
    ultimately show ?thesis
      using assms True q1(1) l1(1) kx(2) sw(1) p(1,4)
      by (intro exI [of _ "m2(c \<mapsto> tc')"] exI [of _ "Some l2"] exI [of _ k])
        (simp add: schedule_def pop_ready_def push_ready_def)
  qed
qed

lemma schedule_none:
  assumes "postpone_task_switches_counter s = 0" and "tcbs s (current_running_tcb s) = Some tc" and "ready_threads s []"
  shows "schedule s = Inr (if state tc = THREAD_RUNNING then (False, s)
    else (True, s\<lparr>halted := Some (current_running_tcb s), current_running_tcb := 0, irq_on := True\<rparr>))"
proof -
  obtain l where "threads_ready s = Some l" "tlist (tcbs s) l []" using assms(3) by (auto simp: tview_def)
  then show ?thesis using assms pop_front_empty [of "tcbs s" l] by (simp add: schedule_def pop_ready_def)
qed

section \<open>Round robin\<close>

text \<open>Any number of scheduling decisions, one after the other.\<close>

fun slices :: "nat \<Rightarrow> sched \<Rightarrow> sched res" where
  "slices 0 s = Inr s"
| "slices (Suc n) s = res_bind (schedule s) (\<lambda>(idle, s). slices n s)"

text \<open>The circle of running threads, the current one first.\<close>

definition circle :: "sched \<Rightarrow> u32 list \<Rightarrow> bool" where
  "circle s cs \<longleftrightarrow> cs \<noteq> [] \<and> current_running_tcb s = hd cs \<and> ready_threads s (tl cs) \<and> distinct cs \<and>
     (\<forall>c \<in> set cs. c \<noteq> 0 \<and> tstatus s c = Some THREAD_RUNNING)"

lemma schedule_circle:
  assumes "postpone_task_switches_counter s = 0" and "circle s cs"
  shows "\<exists>s'. schedule s = Inr (False, s') \<and> circle s' (rotate1 cs) \<and> postpone_task_switches_counter s' = 0 \<and>
    IRQ_disable_counter s' = IRQ_disable_counter s \<and> irq_on s' = irq_on s \<and>
    threads_sleeping s' = threads_sleeping s \<and> threads_terminated s' = threads_terminated s \<and> sems s' = sems s"
proof -
  obtain c ds where cs: "cs = c # ds" using assms(2) by (cases cs) (auto simp: circle_def)
  have c: "current_running_tcb s = c" "c \<noteq> 0" "c \<notin> set ds" "ready_threads s ds"
    using assms(2) cs by (auto simp: circle_def)
  obtain tc where tc: "tcbs s c = Some tc" "state tc = THREAD_RUNNING"
    using assms(2) cs by (auto simp: circle_def tstatus_def)
  show ?thesis
  proof (cases ds)
    case Nil
    then show ?thesis using schedule_none [OF assms(1)] c tc assms cs by simp
  next
    case (Cons x xs)
    from schedule_next [OF assms(1) c(1,2) tc(1), of x xs] c(3,4) Cons obtain m q k where
      m: "schedule s = Inr (False, s\<lparr>tcbs := m, threads_ready := q, current_running_tcb := x, cr3_reg := k,
        last_read_tick := timer_tick s\<rparr>)" "tview q m (xs @ [c])" "same_cores (tcbs s) m"
      using tc(2) by auto
    have "circle (s\<lparr>tcbs := m, threads_ready := q, current_running_tcb := x, cr3_reg := k,
        last_read_tick := timer_tick s\<rparr>) (rotate1 cs)"
      using assms(2) m(2) same_cores_status [OF m(3)] cs Cons by (auto simp: circle_def tstatus_def)
    then show ?thesis using m(1) assms(1) by simp
  qed
qed

text \<open>C27: With all threads running, n scheduling decisions never fail, keep every thread in the
  circle of the current and the ready ones, and give the processor to the n-th thread of the
  circle: each thread gets its turn.\<close>
theorem schedule_round_robin:
  assumes "postpone_task_switches_counter s = 0" and "circle s cs"
  shows "\<exists>s'. slices n s = Inr s' \<and> circle s' (rotate n cs) \<and> current_running_tcb s' = cs ! (n mod length cs)"
proof -
  have "\<exists>s'. slices n s = Inr s' \<and> circle s' (rotate n cs)"
    using assms
  proof (induction n arbitrary: s cs)
    case (Suc n)
    obtain s1 where s1: "schedule s = Inr (False, s1)" "circle s1 (rotate1 cs)" "postpone_task_switches_counter s1 = 0"
      using schedule_circle [OF Suc.prems] by blast
    from Suc.IH [OF s1(3,2)] show ?case using s1(1) by (simp add: rotate1_rotate_swap)
  qed simp
  moreover have "hd (rotate n cs) = cs ! (n mod length cs)" if "cs \<noteq> []"
    using that by (rule hd_rotate_conv_nth)
  ultimately show ?thesis using assms(2) by (auto simp: circle_def)
qed

section \<open>Under the lock\<close>

definition locked :: "sched \<Rightarrow> bool" where
  "locked s \<longleftrightarrow> IRQ_disable_counter s = 1 \<and> postpone_task_switches_counter s = 1 \<and> halted s = None \<and> \<not> irq_on s"

lemma locked_lock: "at_rest s \<Longrightarrow> locked (lock_postpone s) \<and> task_switches_postponed_flag (lock_postpone s) = 0"
  by (simp add: at_rest_def locked_def)

lemma u32_one_plus_one: "(1 :: u32) + 1 \<noteq> 0"
  by simp

text \<open>Blocking under an outer lock only marks the thread and asks for a switch.\<close>

lemma block_task_locked:
  assumes "locked s" and "tcbs s (current_running_tcb s) = Some t"
  shows "block_task r s = Inr (s\<lparr>tcbs := (tcbs s)(current_running_tcb s \<mapsto> t\<lparr>state := r\<rparr>),
    task_switches_postponed_flag := 1\<rparr>)"
  using assms by (cases s)
    (simp add: block_task_def locked_def lock_postpone_def schedule_def unlock_postpone_and_schedule_def finish_unlock_def Let_def)

lemma unblock_task_locked:
  assumes "postpone_task_switches_counter s \<noteq> 0" and "IRQ_disable_counter s \<noteq> 0" and "\<not> irq_on s"
    and "ready_threads s xs" and "tcbs s p = Some t" and "p \<noteq> 0" and "p \<notin> set xs"
  shows "\<exists>m q. unblock_task p s = Inr (s\<lparr>tcbs := m, threads_ready := q\<rparr>) \<and> tview q m (xs @ [p]) \<and>
    m p = Some (t\<lparr>next_tcb := 0, state := THREAD_RUNNING\<rparr>) \<and>
    same_cores ((tcbs s)(p \<mapsto> t\<lparr>state := THREAD_RUNNING\<rparr>)) m \<and>
    (\<forall>x. x \<notin> set xs \<and> x \<noteq> p \<longrightarrow> m x = tcbs s x)"
proof -
  obtain l where l: "threads_ready s = Some l" "tlist (tcbs s) l xs" using assms(4) by (auto simp: tview_def)
  obtain l' m where p: "list_thread_push_back (Some l) p (tcbs s) = Inr (0, Some l', m)" "tlist m l' (xs @ [p])"
    "links_only (tcbs s) m" "\<forall>x. x \<notin> set xs \<and> x \<noteq> p \<longrightarrow> m x = tcbs s x"
    using push_back_tlist [OF l(2) assms(5-7)] by blast
  obtain n where n: "m p = Some (t\<lparr>next_tcb := n\<rparr>)" using links_only_state [OF p(3) assms(5)] by blast
  have "next_tcb (t\<lparr>next_tcb := n\<rparr>) = 0"
    using seg_chain_last [of m "head l'" "xs @ [p]" 0] p(2) n by (auto simp: tlist_def)
  then have n0: "n = 0" by simp
  let ?m = "m(p \<mapsto> t\<lparr>next_tcb := 0, state := THREAD_RUNNING\<rparr>)"
  have "tview (Some l') ?m (xs @ [p])" using p(2) n n0 by (simp add: tview_same_link) (simp add: tview_def)
  moreover have "same_cores ((tcbs s)(p \<mapsto> t\<lparr>state := THREAD_RUNNING\<rparr>)) ?m"
    using links_only_cores [OF p(3)] by (auto simp: same_cores_def core_def)
  moreover have "unblock_task p s = Inr (s\<lparr>tcbs := ?m, threads_ready := Some l'\<rparr>)"
    using assms(1-3) l(1) p(1) n n0 by (cases s)
      (simp add: unblock_task_def push_ready_def lock_postpone_def unlock_postpone_and_schedule_def finish_unlock_def Let_def)
  ultimately show ?thesis using p(4) by (intro exI [of _ ?m] exI [of _ "Some l'"]) simp
qed

text \<open>The outermost unlock with a pending switch.\<close>

lemma unlock_next:
  assumes "locked s" and "task_switches_postponed_flag s \<noteq> 0" and "current_running_tcb s = c" and "c \<noteq> 0"
    and "tcbs s c = Some tc" and "ready_threads s (x # xs)" and "state tc = THREAD_RUNNING \<longrightarrow> c \<notin> set (x # xs)"
  shows "\<exists>m q k. unlock_postpone_and_schedule s = Inr (s\<lparr>tcbs := m, threads_ready := q, current_running_tcb := x,
      cr3_reg := k, last_read_tick := timer_tick s, IRQ_disable_counter := 0, postpone_task_switches_counter := 0,
      task_switches_postponed_flag := 0, irq_on := True\<rparr>) \<and>
    tview q m (if state tc = THREAD_RUNNING then xs @ [c] else xs) \<and> same_cores (tcbs s) m \<and>
    (\<forall>p. p \<notin> set xs \<and> p \<noteq> c \<longrightarrow> m p = tcbs s p) \<and>
    (state tc \<noteq> THREAD_RUNNING \<longrightarrow>
      m = (tcbs s)(c \<mapsto> tc\<lparr>time_used := time_used tc + (timer_tick s - last_read_tick s)\<rparr>))"
proof -
  let ?s = "s\<lparr>postpone_task_switches_counter := 0, task_switches_postponed_flag := 0\<rparr>"
  from schedule_next [of ?s c tc x xs] assms obtain m q k where m:
    "schedule ?s = Inr (False, ?s\<lparr>tcbs := m, threads_ready := q, current_running_tcb := x, cr3_reg := k,
      last_read_tick := timer_tick s\<rparr>)"
    "tview q m (if state tc = THREAD_RUNNING then xs @ [c] else xs)" "same_cores (tcbs s) m"
    "\<forall>p. p \<notin> set xs \<and> p \<noteq> c \<longrightarrow> m p = tcbs s p"
    "state tc \<noteq> THREAD_RUNNING \<longrightarrow> m = (tcbs s)(c \<mapsto> tc\<lparr>time_used := time_used tc + (timer_tick s - last_read_tick s)\<rparr>)"
    by auto
  then show ?thesis
    using assms(1,2) by (intro exI [of _ m] exI [of _ q] exI [of _ k])
      (simp add: unlock_postpone_and_schedule_def finish_unlock_def locked_def Let_def)
qed

lemma unlock_idle:
  assumes "locked s" and "task_switches_postponed_flag s \<noteq> 0" and "current_running_tcb s = c" and "c \<noteq> 0"
    and "tcbs s c = Some tc" and "ready_threads s []" and "state tc \<noteq> THREAD_RUNNING"
  shows "unlock_postpone_and_schedule s = Inr (s\<lparr>halted := Some c, current_running_tcb := 0, irq_on := True,
    postpone_task_switches_counter := 0, task_switches_postponed_flag := 0\<rparr>)"
proof -
  let ?s = "s\<lparr>postpone_task_switches_counter := 0, task_switches_postponed_flag := 0\<rparr>"
  have "schedule ?s = Inr (True, ?s\<lparr>halted := Some c, current_running_tcb := 0, irq_on := True\<rparr>)"
    using schedule_none [of ?s tc] assms by simp
  then show ?thesis using assms(1,2) by (simp add: unlock_postpone_and_schedule_def locked_def Let_def)
qed

lemma unlock_alone:
  assumes "locked s" and "task_switches_postponed_flag s \<noteq> 0" and "tcbs s (current_running_tcb s) = Some tc"
    and "ready_threads s []" and "state tc = THREAD_RUNNING"
  shows "unlock_postpone_and_schedule s = Inr (s\<lparr>postpone_task_switches_counter := 0, task_switches_postponed_flag := 0,
    IRQ_disable_counter := 0, irq_on := True\<rparr>)"
proof -
  let ?s = "s\<lparr>postpone_task_switches_counter := 0, task_switches_postponed_flag := 0\<rparr>"
  have "schedule ?s = Inr (False, ?s)" using schedule_none [of ?s tc] assms by simp
  then show ?thesis using assms(1,2) by (simp add: unlock_postpone_and_schedule_def finish_unlock_def locked_def Let_def)
qed

section \<open>Blocking and waking\<close>

text \<open>block_task sets the reason in the current thread only and hands the processor to the
  first ready thread, or waits in the hlt loop when there is none; afterwards interrupts are
  on.\<close>
theorem block_task_spec:
  assumes "at_rest s" and "current_running_tcb s = c" and "c \<noteq> 0" and "known_tcb (tcbs s) c"
    and "ready_threads s xs" and "c \<notin> set xs" and "r \<noteq> THREAD_RUNNING"
  shows "\<exists>s'. block_task r s = Inr s' \<and> tstatus s' c = Some r \<and> (\<forall>p. p \<noteq> c \<longrightarrow> tstatus s' p = tstatus s p) \<and>
    irq_on s' \<and> ready_threads s' (tl xs) \<and>
    (if xs = [] then current_running_tcb s' = 0 \<and> halted s' = Some c \<and> IRQ_disable_counter s' = 1
     else current_running_tcb s' = hd xs \<and> at_rest s')"
proof -
  obtain tc where tc: "tcbs s c = Some tc" using assms(4) by (auto simp: known_tcb_def)
  let ?m = "(tcbs s)(c \<mapsto> tc\<lparr>state := r\<rparr>)"
  let ?s = "(lock_postpone s)\<lparr>tcbs := ?m, task_switches_postponed_flag := 1\<rparr>"
  have lk: "locked ?s" using locked_lock [OF assms(1)] by (simp add: locked_def)
  have ready: "ready_threads ?s xs" using assms(5) tc by (simp add: tview_same_link)
  have b: "block_task r s = unlock_postpone_and_schedule ?s"
    using assms(1,2) tc by (simp add: block_task_def schedule_def at_rest_def)
  show ?thesis
  proof (cases xs)
    case Nil
    from unlock_idle [OF lk, of c "tc\<lparr>state := r\<rparr>"] assms ready Nil show ?thesis
      by (simp add: b tstatus_def at_rest_def)
  next
    case (Cons x ys)
    from unlock_next [OF lk, of c "tc\<lparr>state := r\<rparr>" x ys] assms ready Cons obtain m q k where
      m: "unlock_postpone_and_schedule ?s = Inr (?s\<lparr>tcbs := m, threads_ready := q, current_running_tcb := x,
        cr3_reg := k, last_read_tick := timer_tick s, IRQ_disable_counter := 0, postpone_task_switches_counter := 0,
        task_switches_postponed_flag := 0, irq_on := True\<rparr>)" "tview q m ys" "same_cores ?m m"
      by auto
    have "map_option state (m p) = (if p = c then Some r else map_option state (tcbs s p))" for p
      using same_cores_status [OF m(3), of p] by simp
    then show ?thesis using m(1,2) Cons assms(1) by (simp add: b tstatus_def at_rest_def del: map_option_eq_Some)
  qed
qed

section \<open>Processor time\<close>

text \<open>
  \<^verbatim>\<open>idleCPUTime\<close> never counts: \<^verbatim>\<open>update_time_used\<close> is only called by the switch, and by then
  \<^verbatim>\<open>current_running_tcb\<close> is the blocked thread again, which is charged for the time in the
  \<^verbatim>\<open>hlt\<close> loop.
\<close>

text \<open>When a thread becomes ready in the hlt loop, it runs; idleCPUTime stays as it is and
  the idle time is added to the thread that had blocked.\<close>
theorem idle_time_charged_to_blocked:
  assumes "halted s = Some c" and "c \<noteq> 0" and "tcbs s c = Some tc" and "ready_threads s (x # xs)" and "x \<noteq> c"
    and "postpone_task_switches_counter s = 0"
  shows "\<exists>s'. wake s = Inr s' \<and> current_running_tcb s' = x \<and> ready_threads s' xs \<and> halted s' = None \<and>
    idleCPUTime s' = idleCPUTime s \<and>
    map_option time_used (tcbs s' c) = Some (time_used tc + (timer_tick s - last_read_tick s))"
proof -
  let ?s0 = "s\<lparr>irq_on := False\<rparr>"
  obtain q1 where q1: "list_thread_pop_front (threads_ready s) (tcbs s) = Inr (x, q1)" "tview q1 (tcbs s) xs"
    using ready.deq_front [OF assms(4)] by blast
  have kx: "known_tcb (tcbs s) x" "x \<noteq> 0" using ready.view_known [OF assms(4), of x] by (auto simp: known_tcb_def)
  let ?s = "s\<lparr>irq_on := False, threads_ready := q1, current_running_tcb := c, halted := None\<rparr>"
  obtain tc' k where sw: "switch_to_thread x ?s = Inr (?s\<lparr>last_read_tick := timer_tick s, tcbs := (tcbs s)(c \<mapsto> tc'),
      current_running_tcb := x, cr3_reg := k\<rparr>)" "tc' = tc\<lparr>time_used := time_used tc + (timer_tick s - last_read_tick s)\<rparr>"
    using switch_to_thread_eq [of ?s c tc x] assms kx by auto
  have "tview q1 ((tcbs s)(c \<mapsto> tc')) xs" using q1(2) sw(2) assms(3) by (simp add: tview_same_link)
  then show ?thesis
    using assms q1(1) kx(2) sw by (simp add: wake_def pop_ready_def Let_def finish_unlock_def)
qed

section \<open>A concrete state\<close>

text \<open>Thread \<open>0x40\<close> runs; \<open>0x10\<close>, \<open>0x20\<close> and \<open>0x30\<close> are ready.\<close>

definition empty_list :: thread_list where
  "empty_list = \<lparr>head = 0, tail = 0, size = 0\<rparr>"

definition four_threads :: sched where
  "four_threads = \<lparr>tcbs = three_tcbs, sems = (\<lambda>_. None), queues = (\<lambda>_. None), packets = (\<lambda>_. None), hp = zero_kmem,
     irq_on = True, halted = None, cr3_reg = 0, IRQ_disable_counter = 0, postpone_task_switches_counter = 0,
     task_switches_postponed_flag = 0, current_running_tcb = 0x40, current_focus_tcb = 0x40, butler = 0x10,
     threads_ready = Some three_list, threads_sleeping = Some empty_list, threads_terminated = Some empty_list,
     timer_tick = 0, last_read_tick = 0, idleCPUTime = 0, thread_create_counter = 1\<rparr>"

lemma four_fields [simp]:
  "at_rest four_threads" "current_running_tcb four_threads = 0x40" "tcbs four_threads = three_tcbs"
  "threads_ready four_threads = Some three_list" "postpone_task_switches_counter four_threads = 0"
  "task_switches_postponed_flag four_threads = 0" "timer_tick four_threads = 0" "last_read_tick four_threads = 0"
  "threads_sleeping four_threads = Some empty_list" "threads_terminated four_threads = Some empty_list"
  "butler four_threads = 0x10" "halted four_threads = None"
  by (simp_all add: four_threads_def at_rest_def)

lemma four_ready: "tview (Some three_list) three_tcbs [0x10, 0x20, 0x30]"
  using three_tlist by (simp add: tview_def)

lemma four_status [simp]:
  "x \<in> {0x10, 0x20, 0x30, 0x40} \<Longrightarrow> known_tcb three_tcbs x \<and> map_option state (three_tcbs x) = Some THREAD_RUNNING"
  by (auto simp: three_tcbs_def known_tcb_def blank_tcb_def)

theorem schedule_round_robin_witness:
  "\<exists>s'. slices 1002 four_threads = Inr s' \<and> current_running_tcb s' = 0x20"
proof -
  have "circle four_threads [0x40, 0x10, 0x20, 0x30]"
    using four_ready by (simp add: circle_def tstatus_def del: map_option_eq_Some)
  from schedule_round_robin [OF _ this, of 1002] show ?thesis by auto
qed

theorem block_task_spec_witness:
  "\<exists>s'. block_task THREAD_PAUSED four_threads = Inr s' \<and> current_running_tcb s' = 0x10 \<and> at_rest s'"
  using block_task_spec [of four_threads "0x40" "[0x10, 0x20, 0x30]" THREAD_PAUSED] four_ready by auto

theorem idle_time_charged_to_blocked_witness:
  "\<exists>s'. wake (four_threads\<lparr>halted := Some 0x40, current_running_tcb := 0, timer_tick := 500\<rparr>) = Inr s' \<and>
    idleCPUTime s' = 0 \<and> map_option time_used (tcbs s' 0x40) = Some 500"
  using idle_time_charged_to_blocked [of "four_threads\<lparr>halted := Some 0x40, current_running_tcb := 0, timer_tick := 500\<rparr>"
      "0x40" blank_tcb "0x10" "[0x20, 0x30]"] four_ready
  by (auto simp: three_tcbs_def four_threads_def blank_tcb_def)

end
