(* ===== verification/Thread_Sync.thy ===== *)
theory Thread_Sync
  imports Thread_Schedule
begin

text \<open>
  \<^verbatim>\<open>src/src/multitask/semaphore/thread_semaphore.c\<close>: counting semaphores that hand themselves on
  to the waiting threads, and the event semaphores of the keyboard queues. The waiting threads
  are linked through the same field as the ready ones.
\<close>

section \<open>Operations\<close>

definition sem_at :: "nat \<Rightarrow> u32 \<Rightarrow> sched \<Rightarrow> SEMAPHORE res" where
  "sem_at line p s = deref ''src/multitask/semaphore/thread_semaphore.c'' line (sems s) p"

definition set_sem :: "nat \<Rightarrow> u32 \<Rightarrow> (SEMAPHORE \<Rightarrow> SEMAPHORE) \<Rightarrow> sched \<Rightarrow> sched res" where
  "set_sem line p f s =
     res_bind (update_at ''src/multitask/semaphore/thread_semaphore.c'' line p f (sems s)) (\<lambda>m. Inr (s\<lparr>sems := m\<rparr>))"

abbreviation set_link :: "nat \<Rightarrow> u32 \<Rightarrow> u32 \<Rightarrow> sched \<Rightarrow> sched res" where
  "set_link line p q \<equiv> set_thread ''src/multitask/semaphore/thread_semaphore.c'' line p (\<lambda>t. t\<lparr>next_tcb := q\<rparr>)"

definition create_semaphore :: "i32 \<Rightarrow> sched \<Rightarrow> (u32 \<times> sched) res" where
  "create_semaphore mx s =
     res_bind (malloc 16 (hp s)) (\<lambda>(p, h).
       let s = s\<lparr>hp := h\<rparr>
       in if p = 0 then Inr (0, s)
          else Inr (p, s\<lparr>sems := (sems s)(p \<mapsto>
            \<lparr>max_count = mx, current_count = 0, first_waiting_task = 0, last_waiting_task = 0\<rparr>)\<rparr>))"

definition create_mutex :: "sched \<Rightarrow> (u32 \<times> sched) res" where
  "create_mutex s = create_semaphore 1 s"

text \<open>The current thread goes to the end of the waiting threads and blocks.\<close>

definition wait_in_line :: "u32 \<Rightarrow> sched \<Rightarrow> sched res" where
  "wait_in_line sem s =
     res_bind (set_link 57 (current_running_tcb s) 0 s) (\<lambda>s.
     res_bind (sem_at 59 sem s) (\<lambda>x.
     res_bind (if first_waiting_task x = 0 then set_sem 60 sem (\<lambda>x. x\<lparr>first_waiting_task := current_running_tcb s\<rparr>) s
       else set_link 62 (last_waiting_task x) (current_running_tcb s) s) (\<lambda>s.
     res_bind (set_sem 64 sem (\<lambda>x. x\<lparr>last_waiting_task := current_running_tcb s\<rparr>) s) (\<lambda>s.
       block_task THREAD_PAUSED s))))"

definition lock_semaphore :: "u32 \<Rightarrow> sched \<Rightarrow> sched res" where
  "lock_semaphore sem s =
     (let s = lock_postpone s
      in res_bind (sem_at 56 sem s) (\<lambda>x.
         res_bind (if sint (current_count x) \<ge> sint (max_count x) then wait_in_line sem s
           else set_sem 66 sem (\<lambda>x. x\<lparr>current_count := current_count x + 1\<rparr>) s) (\<lambda>s.
           unlock_postpone_and_schedule s)))"

definition lock_mutex :: "u32 \<Rightarrow> sched \<Rightarrow> sched res" where
  "lock_mutex sem s = lock_semaphore sem s"

definition wait_semaphore :: "u32 \<Rightarrow> sched \<Rightarrow> sched res" where
  "wait_semaphore sem s =
     res_bind (set_sem 38 sem (\<lambda>x. x\<lparr>current_count := current_count x - 1\<rparr>) (lock_postpone s)) (\<lambda>s.
     res_bind (sem_at 38 sem s) (\<lambda>x.
     res_bind (if sint (current_count x) < sint (max_count x) then wait_in_line sem s else Inr s) (\<lambda>s.
       unlock_postpone_and_schedule s)))"

definition post_semaphore :: "u32 \<Rightarrow> sched \<Rightarrow> sched res" where
  "post_semaphore sem s =
     (let s = lock_postpone s
      in res_bind (sem_at 81 sem s) (\<lambda>x.
         res_bind (if first_waiting_task x \<noteq> 0 then
             res_bind (thread_at ''src/multitask/semaphore/thread_semaphore.c'' 83 (first_waiting_task x) s) (\<lambda>t.
             res_bind (set_sem 83 sem (\<lambda>y. y\<lparr>first_waiting_task := next_tcb t, current_count := current_count y + 1\<rparr>) s) (\<lambda>s.
               unblock_task (first_waiting_task x) s))
           else Inr s) (\<lambda>s.
           unlock_postpone_and_schedule s)))"

definition unlock_semaphore :: "u32 \<Rightarrow> sched \<Rightarrow> sched res" where
  "unlock_semaphore sem s =
     (let s = lock_postpone s
      in res_bind (sem_at 93 sem s) (\<lambda>x.
         res_bind (if first_waiting_task x \<noteq> 0 then
             res_bind (thread_at ''src/multitask/semaphore/thread_semaphore.c'' 95 (first_waiting_task x) s) (\<lambda>t.
             res_bind (set_sem 95 sem (\<lambda>y. y\<lparr>first_waiting_task := next_tcb t\<rparr>) s) (\<lambda>s.
               unblock_task (first_waiting_task x) s))
           else set_sem 97 sem (\<lambda>x. x\<lparr>current_count := current_count x - 1\<rparr>) s) (\<lambda>s.
           unlock_postpone_and_schedule s)))"

definition unlock_mutex :: "u32 \<Rightarrow> sched \<Rightarrow> sched res" where
  "unlock_mutex sem s = unlock_semaphore sem s"

section \<open>Waiting threads\<close>

definition waiters :: "tcb_store \<Rightarrow> SEMAPHORE \<Rightarrow> u32 list \<Rightarrow> bool" where
  "waiters m x ws \<longleftrightarrow> chain m (first_waiting_task x) ws \<and> distinct ws \<and> (ws \<noteq> [] \<longrightarrow> last_waiting_task x = last ws)"

text \<open>A thread \<open>c\<close> runs, \<open>xs\<close> are ready and \<open>ws\<close> wait for the semaphore.\<close>

definition sem_state :: "sched \<Rightarrow> u32 \<Rightarrow> SEMAPHORE \<Rightarrow> u32 \<Rightarrow> u32 list \<Rightarrow> u32 list \<Rightarrow> bool" where
  "sem_state s sem x c xs ws \<longleftrightarrow> sems s sem = Some x \<and> current_running_tcb s = c \<and> known_tcb (tcbs s) c \<and>
     ready_threads s xs \<and> waiters (tcbs s) x ws \<and> distinct (c # xs @ ws)"

lemma sem_simps [simp]:
  "sems s p = Some x \<Longrightarrow> sem_at line p s = Inr x"
  "sems s p = Some x \<Longrightarrow> set_sem line p f s = Inr (s\<lparr>sems := (sems s)(p \<mapsto> f x)\<rparr>)"
  by (simp_all add: sem_at_def set_sem_def)

lemma sem_state_lock: "sem_state (lock_postpone s) sem x c xs ws = sem_state s sem x c xs ws"
  by (simp add: sem_state_def)

lemma tstatus_lock: "tstatus (lock_postpone s) p = tstatus s p"
  by (simp add: tstatus_def)

lemma waiters_first: "waiters m x ws \<Longrightarrow> first_waiting_task x = (if ws = [] then 0 else hd ws)"
  by (cases ws) (auto simp: waiters_def)

lemma waiters_valid: "waiters m x ws \<Longrightarrow> w \<in> set ws \<Longrightarrow> w \<noteq> 0 \<and> (\<exists>t. m w = Some t)"
  using seg_chain_valid [of m "first_waiting_task x" ws 0 w] by (simp add: waiters_def)

lemma waiters_cong: "waiters m x ws \<Longrightarrow> (\<And>w. w \<in> set ws \<Longrightarrow> m' w = m w) \<Longrightarrow> waiters m' x ws"
  using seg_chain_cong [of ws m' m] by (simp add: waiters_def)

lemma waiters_same_link: "m p = Some t \<Longrightarrow> next_tcb t' = next_tcb t \<Longrightarrow> waiters (m(p \<mapsto> t')) x ws = waiters m x ws"
  by (simp add: waiters_def seg_chain_same_link)

lemma wait_in_line_spec:
  assumes "locked s" and "sem_state s sem x c xs ws" and "tcbs s c = Some t"
  shows "\<exists>m. wait_in_line sem s = Inr (s\<lparr>tcbs := m, task_switches_postponed_flag := 1,
      sems := (sems s)(sem \<mapsto> x\<lparr>first_waiting_task := hd (ws @ [c]), last_waiting_task := c\<rparr>)\<rparr>) \<and>
    waiters m (x\<lparr>first_waiting_task := hd (ws @ [c]), last_waiting_task := c\<rparr>) (ws @ [c]) \<and>
    m c = Some (t\<lparr>next_tcb := 0, state := THREAD_PAUSED\<rparr>) \<and>
    same_cores ((tcbs s)(c \<mapsto> t\<lparr>state := THREAD_PAUSED\<rparr>)) m \<and>
    (\<forall>p. p \<notin> set ws \<and> p \<noteq> c \<longrightarrow> m p = tcbs s p)"
proof -
  have h: "sems s sem = Some x" "current_running_tcb s = c" "c \<noteq> 0" "waiters (tcbs s) x ws" "c \<notin> set ws" "distinct ws"
    using assms(2) by (auto simp: sem_state_def known_tcb_def)
  let ?m1 = "(tcbs s)(c \<mapsto> t\<lparr>next_tcb := 0\<rparr>)"
  let ?x = "x\<lparr>first_waiting_task := hd (ws @ [c]), last_waiting_task := c\<rparr>"
  have c1: "chain ?m1 (first_waiting_task x) ws" using h(4,5) by (simp add: waiters_def)
  show ?thesis
  proof (cases "ws = []")
    case True
    let ?m = "(tcbs s)(c \<mapsto> t\<lparr>next_tcb := 0, state := THREAD_PAUSED\<rparr>)"
    have "wait_in_line sem s = Inr (s\<lparr>tcbs := ?m, task_switches_postponed_flag := 1, sems := (sems s)(sem \<mapsto> ?x)\<rparr>)"
      using True h waiters_first [OF h(4)] assms(1,3)
      by (simp add: wait_in_line_def block_task_locked [where t = "t\<lparr>next_tcb := 0\<rparr>"] locked_def)
    then show ?thesis using True h by (intro exI [of _ ?m]) (simp add: waiters_def same_cores_def core_def)
  next
    case False
    obtain u where u: "tcbs s (last ws) = Some u" using waiters_valid [OF h(4), of "last ws"] False by auto
    have ne: "last ws \<noteq> c" using last_in_set [OF False] h(5) by metis
    have ne2: "first_waiting_task x \<noteq> 0" "last_waiting_task x = last ws"
      using h False waiters_first [OF h(4)] waiters_valid [OF h(4), of "hd ws"] by (auto simp: waiters_def)
    have split: "butlast ws @ [last ws] = ws" using False by simp
    let ?m2 = "?m1(last ws \<mapsto> u\<lparr>next_tcb := c\<rparr>)"
    let ?m = "?m2(c \<mapsto> t\<lparr>next_tcb := 0, state := THREAD_PAUSED\<rparr>)"
    have "seg_chain ?m2 (first_waiting_task x) (butlast ws @ [last ws]) c"
      by (rule seg_chain_relink) (use c1 h(6) u ne in \<open>simp_all add: split\<close>)
    then have "seg_chain ?m (first_waiting_task x) ws c" using h(5) by (subst seg_chain_upd) (simp_all add: split)
    then have "chain ?m (first_waiting_task x) (ws @ [c])" using h(3) by (auto simp: seg_chain_append)
    moreover have "hd (ws @ [c]) = first_waiting_task x" using False waiters_first [OF h(4)] by simp
    ultimately have "waiters ?m ?x (ws @ [c])" using h(5,6) by (simp add: waiters_def)
    moreover have "wait_in_line sem s = Inr (s\<lparr>tcbs := ?m, task_switches_postponed_flag := 1, sems := (sems s)(sem \<mapsto> ?x)\<rparr>)"
      using False h waiters_first [OF h(4)] assms(1,3) u ne ne2
      by (cases x) (simp add: wait_in_line_def block_task_locked [where t = "t\<lparr>next_tcb := 0\<rparr>"] locked_def)
    moreover have "same_cores ((tcbs s)(c \<mapsto> t\<lparr>state := THREAD_PAUSED\<rparr>)) ?m"
      using u ne by (auto simp: same_cores_def core_def)
    ultimately show ?thesis using False by (intro exI [of _ ?m]) auto
  qed
qed

section \<open>Locking\<close>

text \<open>A free semaphore is taken; on an occupied one the thread waits and the next ready thread runs.\<close>

lemma lock_semaphore_free:
  assumes "at_rest s" and "sem_state s sem x c xs ws" and "sint (current_count x) < sint (max_count x)"
  shows "lock_semaphore sem s = Inr (s\<lparr>sems := (sems s)(sem \<mapsto> x\<lparr>current_count := current_count x + 1\<rparr>), irq_on := True\<rparr>)"
  using assms by (cases s)
    (simp add: lock_semaphore_def lock_postpone_def sem_state_def at_rest_def unlock_postpone_and_schedule_def
      finish_unlock_def Let_def)

lemma wait_in_line_unlock:
  assumes lk: "locked s" and "sem_state s sem x c xs ws"
  shows "\<exists>s'. res_bind (wait_in_line sem s) unlock_postpone_and_schedule = Inr s' \<and>
    sems s' = (sems s)(sem \<mapsto> x\<lparr>first_waiting_task := hd (ws @ [c]), last_waiting_task := c\<rparr>) \<and>
    waiters (tcbs s') (x\<lparr>first_waiting_task := hd (ws @ [c]), last_waiting_task := c\<rparr>) (ws @ [c]) \<and>
    ready_threads s' (tl xs) \<and> irq_on s' \<and> known_tcb (tcbs s') = known_tcb (tcbs s) \<and>
    (\<forall>p. tstatus s' p = (if p = c then Some THREAD_PAUSED else tstatus s p)) \<and>
    (if xs = [] then current_running_tcb s' = 0 \<and> halted s' = Some c else current_running_tcb s' = hd xs \<and> at_rest s')"
proof -
  obtain t where t: "tcbs s c = Some t" "c \<noteq> 0" using assms(2) by (auto simp: sem_state_def known_tcb_def)
  let ?x = "x\<lparr>first_waiting_task := hd (ws @ [c]), last_waiting_task := c\<rparr>"
  from wait_in_line_spec [OF lk assms(2) t(1)] obtain m where m:
    "wait_in_line sem s = Inr (s\<lparr>tcbs := m, task_switches_postponed_flag := 1, sems := (sems s)(sem \<mapsto> ?x)\<rparr>)"
    "waiters m ?x (ws @ [c])" "m c = Some (t\<lparr>next_tcb := 0, state := THREAD_PAUSED\<rparr>)"
    "same_cores ((tcbs s)(c \<mapsto> t\<lparr>state := THREAD_PAUSED\<rparr>)) m" "\<forall>p. p \<notin> set ws \<and> p \<noteq> c \<longrightarrow> m p = tcbs s p"
    by auto
  let ?s2 = "s\<lparr>tcbs := m, task_switches_postponed_flag := 1, sems := (sems s)(sem \<mapsto> ?x)\<rparr>"
  have op: "res_bind (wait_in_line sem s) unlock_postpone_and_schedule = unlock_postpone_and_schedule ?s2"
    using m(1) by simp
  have lk2: "locked ?s2" using lk by (simp add: locked_def)
  have dis: "c \<notin> set xs" "set xs \<inter> set ws = {}" using assms(2) by (auto simp: sem_state_def)
  have rd: "ready_threads ?s2 xs"
  proof -
    have "tview (threads_ready s) m xs"
    proof (rule tview_cong)
      show "tview (threads_ready s) (tcbs s) xs" using assms(2) by (simp add: sem_state_def)
      show "m p = tcbs s p" if "p \<in> set xs" for p using that dis m(5) by auto
    qed
    then show ?thesis by simp
  qed
  have stat: "map_option state (m p) = (if p = c then Some THREAD_PAUSED else tstatus s p)" for p
    using same_cores_status [OF m(4), of p] by (simp add: tstatus_def)
  have known: "known_tcb m = known_tcb (tcbs s)"
    using same_cores_known [OF m(4)] t(1) by (auto simp: known_tcb_def fun_eq_iff)
  show ?thesis
  proof (cases xs)
    case Nil
    from unlock_idle [OF lk2, of c] rd m(3) t assms(2) Nil stat known m(2) show ?thesis
      by (simp add: op sem_state_def tstatus_def del: map_option_eq_Some)
  next
    case (Cons y ys)
    from unlock_next [OF lk2, of c _ y ys] rd m(3) t assms(2) Cons dis obtain m2 q k where
      u: "unlock_postpone_and_schedule ?s2 = Inr (?s2\<lparr>tcbs := m2, threads_ready := q, current_running_tcb := y,
        cr3_reg := k, last_read_tick := timer_tick s, IRQ_disable_counter := 0, postpone_task_switches_counter := 0,
        task_switches_postponed_flag := 0, irq_on := True\<rparr>)" "tview q m2 ys" "same_cores m m2"
      "\<exists>v. m2 = m(c \<mapsto> t\<lparr>next_tcb := 0, state := THREAD_PAUSED, time_used := v\<rparr>)"
      by (auto simp: sem_state_def)
    have "waiters m2 ?x (ws @ [c])" using u(4) m(2,3) waiters_same_link by fastforce
    moreover have "map_option state (m2 p) = (if p = c then Some THREAD_PAUSED else tstatus s p)" for p
      using same_cores_status [OF u(3), of p] stat by simp
    ultimately show ?thesis
      using u(1,2) Cons lk known same_cores_known [OF u(3)]
      by (simp add: op tstatus_def at_rest_def locked_def del: map_option_eq_Some)
  qed
qed

lemma lock_semaphore_busy:
  assumes "at_rest s" and "sem_state s sem x c xs ws" and "sint (max_count x) \<le> sint (current_count x)"
  shows "\<exists>s'. lock_semaphore sem s = Inr s' \<and>
    sems s' = (sems s)(sem \<mapsto> x\<lparr>first_waiting_task := hd (ws @ [c]), last_waiting_task := c\<rparr>) \<and>
    waiters (tcbs s') (x\<lparr>first_waiting_task := hd (ws @ [c]), last_waiting_task := c\<rparr>) (ws @ [c]) \<and>
    ready_threads s' (tl xs) \<and> irq_on s' \<and> known_tcb (tcbs s') = known_tcb (tcbs s) \<and>
    (\<forall>p. tstatus s' p = (if p = c then Some THREAD_PAUSED else tstatus s p)) \<and>
    (if xs = [] then current_running_tcb s' = 0 \<and> halted s' = Some c else current_running_tcb s' = hd xs \<and> at_rest s')"
proof -
  have "lock_semaphore sem s = res_bind (wait_in_line sem (lock_postpone s)) unlock_postpone_and_schedule"
    using assms(2,3) by (simp add: lock_semaphore_def sem_state_def Let_def)
  then show ?thesis
    using wait_in_line_unlock [of "lock_postpone s" sem x c xs ws] locked_lock [OF assms(1)] assms(2)
    by (simp add: sem_state_lock tstatus_lock split del: if_split cong: if_cong)
qed

section \<open>Unlocking\<close>

text \<open>Waking the first waiting thread, under the lock.\<close>

lemma unblock_waiter:
  assumes "at_rest s" and "sem_state s sem x c xs (w # ws)" and "next_tcb t = hd (ws @ [0])"
    and "tcbs s w = Some t" and "sems s' = (sems s)(sem \<mapsto> y)" and "first_waiting_task y = hd (ws @ [0])"
    and "last_waiting_task y = last_waiting_task x" and "s' = (lock_postpone s)\<lparr>sems := sems s'\<rparr>"
  shows "\<exists>s''. res_bind (unblock_task w s') unlock_postpone_and_schedule = Inr s'' \<and> at_rest s'' \<and> irq_on s'' \<and>
    sem_state s'' sem y c (xs @ [w]) ws \<and> sems s'' = sems s' \<and>
    (\<forall>p. tstatus s'' p = (if p = w then Some THREAD_RUNNING else tstatus s p)) \<and>
    same_cores ((tcbs s)(w \<mapsto> t\<lparr>state := THREAD_RUNNING\<rparr>)) (tcbs s'') \<and> queues s'' = queues s' \<and>
    packets s'' = packets s' \<and> current_focus_tcb s'' = current_focus_tcb s'"
proof -
  have d: "w \<noteq> 0" "w \<notin> set xs" "distinct (c # xs @ w # ws)" "ready_threads s xs" "waiters (tcbs s) x (w # ws)"
    using assms(2) waiters_valid [of "tcbs s" x "w # ws" w] by (auto simp: sem_state_def)
  have l: "tcbs s' = tcbs s" "threads_ready s' = threads_ready s" "current_running_tcb s' = current_running_tcb s"
    "postpone_task_switches_counter s' = 1" "IRQ_disable_counter s' = 1" "\<not> irq_on s'"
    "task_switches_postponed_flag s' = 0" "halted s' = None"
    using assms(1) by (subst assms(8); simp add: at_rest_def)+
  from unblock_task_locked [of s' xs w t] l d assms(4) obtain m q where
    m: "unblock_task w s' = Inr (s'\<lparr>tcbs := m, threads_ready := q\<rparr>)" "tview q m (xs @ [w])"
    "same_cores ((tcbs s)(w \<mapsto> t\<lparr>state := THREAD_RUNNING\<rparr>)) m" "\<forall>p. p \<notin> set xs \<and> p \<noteq> w \<longrightarrow> m p = tcbs s p"
    by auto
  have "chain (tcbs s) (hd (ws @ [0])) ws" using d(5) assms(3,4) by (simp add: waiters_def)
  then have "chain m (hd (ws @ [0])) ws" using d(3) m(4) by (subst seg_chain_cong [where m = "tcbs s"]) auto
  then have w: "waiters m y ws" using d(3,5) assms(6,7) by (simp add: waiters_def)
  have "map_option state (m p) = (if p = w then Some THREAD_RUNNING else tstatus s p)" for p
    using same_cores_status [OF m(3), of p] by (simp add: tstatus_def)
  moreover have "known_tcb m = known_tcb (tcbs s)"
    using same_cores_known [OF m(3)] assms(4) by (auto simp: known_tcb_def fun_eq_iff)
  ultimately show ?thesis
    using m(1-3) w l d(3) assms(2,5)
    by (simp add: unlock_quiet at_rest_def sem_state_def tstatus_def del: map_option_eq_Some)
qed

lemma unlock_semaphore_handoff:
  assumes "at_rest s" and "sem_state s sem x c xs (w # ws)"
  shows "\<exists>s' x'. unlock_semaphore sem s = Inr s' \<and> at_rest s' \<and> irq_on s' \<and> sem_state s' sem x' c (xs @ [w]) ws \<and>
    max_count x' = max_count x \<and> current_count x' = current_count x \<and> sems s' = (sems s)(sem \<mapsto> x') \<and>
    (\<forall>p. tstatus s' p = (if p = w then Some THREAD_RUNNING else tstatus s p))"
proof -
  have w: "waiters (tcbs s) x (w # ws)" using assms(2) by (simp add: sem_state_def)
  obtain t where t: "tcbs s w = Some t" "chain (tcbs s) (next_tcb t) ws" "w \<noteq> 0"
    using w by (auto simp: waiters_def split: option.splits)
  have nx: "next_tcb t = hd (ws @ [0])" using t(2) by (cases ws) auto
  let ?x = "x\<lparr>first_waiting_task := next_tcb t\<rparr>"
  let ?s = "(lock_postpone s)\<lparr>sems := (sems s)(sem \<mapsto> ?x)\<rparr>"
  have "unlock_semaphore sem s = res_bind (unblock_task w ?s) unlock_postpone_and_schedule"
    using assms(2) t(1,3) waiters_first [OF w] by (simp add: unlock_semaphore_def sem_state_def Let_def)
  moreover from unblock_waiter [OF assms nx t(1), of ?s ?x] obtain s'' where
    "res_bind (unblock_task w ?s) unlock_postpone_and_schedule = Inr s''" "at_rest s''" "irq_on s''"
    "sem_state s'' sem ?x c (xs @ [w]) ws" "sems s'' = (sems s)(sem \<mapsto> ?x)"
    "\<forall>p. tstatus s'' p = (if p = w then Some THREAD_RUNNING else tstatus s p)"
    using nx by auto
  ultimately show ?thesis by (intro exI [of _ s''] exI [of _ ?x]) simp
qed

lemma unlock_semaphore_none:
  assumes "at_rest s" and "sem_state s sem x c xs []"
  shows "unlock_semaphore sem s = Inr (s\<lparr>sems := (sems s)(sem \<mapsto> x\<lparr>current_count := current_count x - 1\<rparr>), irq_on := True\<rparr>)"
  using assms waiters_first [of "tcbs s" x "[]"] by (cases s)
    (simp add: unlock_semaphore_def lock_postpone_def sem_state_def at_rest_def unlock_postpone_and_schedule_def
      finish_unlock_def Let_def)

section \<open>Runs\<close>

text \<open>A time slice ends: the last lines of \<^verbatim>\<open>pit_interrupt\<close>.\<close>

definition preempt :: "sched \<Rightarrow> sched res" where
  "preempt s = res_bind (schedule (lock_postpone s)) (\<lambda>(idle, s). unlock_postpone_and_schedule s)"

lemma preempt_sem_state:
  assumes "at_rest s" and "sem_state s sem x c xs ws" and "tstatus s c = Some THREAD_RUNNING"
  shows "\<exists>s' c' ys. preempt s = Inr s' \<and> at_rest s' \<and> sem_state s' sem x c' ys ws \<and> c' # ys = rotate1 (c # xs) \<and>
    sems s' = sems s \<and> (\<forall>p. tstatus s' p = tstatus s p)"
proof -
  let ?s = "(lock_postpone s)\<lparr>task_switches_postponed_flag := 1\<rparr>"
  obtain t where t: "tcbs s c = Some t" "state t = THREAD_RUNNING" "c \<noteq> 0"
    using assms(2,3) by (auto simp: sem_state_def known_tcb_def tstatus_def)
  have lk: "locked ?s" using locked_lock [OF assms(1)] by (simp add: locked_def)
  have op: "preempt s = unlock_postpone_and_schedule ?s" using assms(1) by (simp add: preempt_def schedule_def at_rest_def)
  show ?thesis
  proof (cases xs)
    case Nil
    from unlock_alone [OF lk, of t] t assms(2) Nil show ?thesis
      using assms(1,2) by (simp add: op sem_state_def at_rest_def tstatus_def)
  next
    case (Cons y ys)
    from unlock_next [OF lk, of c t y ys] t assms(2) Cons obtain m q k where
      u: "unlock_postpone_and_schedule ?s = Inr (?s\<lparr>tcbs := m, threads_ready := q, current_running_tcb := y,
        cr3_reg := k, last_read_tick := timer_tick s, IRQ_disable_counter := 0, postpone_task_switches_counter := 0,
        task_switches_postponed_flag := 0, irq_on := True\<rparr>)" "tview q m (ys @ [c])" "same_cores (tcbs s) m"
      "\<forall>p. p \<notin> set ys \<and> p \<noteq> c \<longrightarrow> m p = tcbs s p"
      by (auto simp: sem_state_def)
    have w: "waiters m x ws"
    proof (rule waiters_cong)
      show "waiters (tcbs s) x ws" using assms(2) by (simp add: sem_state_def)
      show "m p = tcbs s p" if "p \<in> set ws" for p
        using u(4) that assms(2) Cons by (auto simp: sem_state_def)
    qed
    have yc: "y \<noteq> c" using assms(2) Cons by (auto simp: sem_state_def)
    have "known_tcb (tcbs s) y" using ready.view_known [of "threads_ready s" "tcbs s" xs y] assms(2) Cons
      by (simp add: sem_state_def)
    then have "known_tcb m y" using same_cores_known [OF u(3)] by simp
    moreover have "map_option state (m p) = tstatus s p" for p
      using same_cores_status [OF u(3), of p] by (simp add: tstatus_def)
    ultimately show ?thesis
      using u(1,2) w assms Cons yc
      by (simp add: op at_rest_def sem_state_def tstatus_def del: map_option_eq_Some)
  qed
qed

text \<open>
  Threads lock and unlock one semaphore and lose the processor in between. The second component
  collects the holders: the threads whose call of \<^verbatim>\<open>lock_semaphore\<close> has taken the semaphore, at
  once or by being handed it when another thread unlocked.
\<close>

inductive sem_run :: "u32 \<Rightarrow> sched \<Rightarrow> u32 set \<Rightarrow> bool" for sem where
  start: "at_rest s \<Longrightarrow> sem_state s sem x c xs [] \<Longrightarrow> current_count x = 0 \<Longrightarrow> 0 \<le> sint (max_count x) \<Longrightarrow>
    (\<forall>p \<in> set (c # xs). tstatus s p = Some THREAD_RUNNING) \<Longrightarrow> sem_run sem s {}"
| take_free: "sem_run sem s H \<Longrightarrow> halted s = None \<Longrightarrow> current_running_tcb s \<notin> H \<Longrightarrow> sems s sem = Some x \<Longrightarrow>
    sint (current_count x) < sint (max_count x) \<Longrightarrow> lock_semaphore sem s = Inr s' \<Longrightarrow>
    sem_run sem s' (insert (current_running_tcb s) H)"
| queue_up: "sem_run sem s H \<Longrightarrow> halted s = None \<Longrightarrow> current_running_tcb s \<notin> H \<Longrightarrow> sems s sem = Some x \<Longrightarrow>
    \<not> sint (current_count x) < sint (max_count x) \<Longrightarrow> lock_semaphore sem s = Inr s' \<Longrightarrow> sem_run sem s' H"
| release: "sem_run sem s H \<Longrightarrow> halted s = None \<Longrightarrow> current_running_tcb s \<in> H \<Longrightarrow> sems s sem = Some x \<Longrightarrow>
    unlock_semaphore sem s = Inr s' \<Longrightarrow>
    sem_run sem s' (H - {current_running_tcb s} \<union> (if first_waiting_task x = 0 then {} else {first_waiting_task x}))"
| slice_end: "sem_run sem s H \<Longrightarrow> halted s = None \<Longrightarrow> preempt s = Inr s' \<Longrightarrow> sem_run sem s' H"

inductive_cases sem_runE: "sem_run sem s H"

definition counted :: "SEMAPHORE \<Rightarrow> u32 set \<Rightarrow> bool" where
  "counted x H \<longleftrightarrow> finite H \<and> sint (current_count x) = int (card H) \<and> sint (current_count x) \<le> sint (max_count x)"

definition sem_inv :: "sched \<Rightarrow> u32 \<Rightarrow> u32 set \<Rightarrow> bool" where
  "sem_inv s sem H \<longleftrightarrow> (\<exists>x. sems s sem = Some x \<and> counted x H \<and>
     (halted s = None \<longrightarrow> (\<exists>c xs ws. at_rest s \<and> sem_state s sem x c xs ws \<and> H \<inter> set ws = {} \<and>
       (ws \<noteq> [] \<longrightarrow> current_count x = max_count x) \<and>
       (\<forall>p \<in> set (c # xs). tstatus s p = Some THREAD_RUNNING))))"

lemma sem_invI:
  "at_rest s \<Longrightarrow> sem_state s sem x c xs ws \<Longrightarrow> counted x H \<Longrightarrow> H \<inter> set ws = {} \<Longrightarrow>
    (ws \<noteq> [] \<Longrightarrow> current_count x = max_count x) \<Longrightarrow>
    (\<And>p. p \<in> set (c # xs) \<Longrightarrow> tstatus s p = Some THREAD_RUNNING) \<Longrightarrow> sem_inv s sem H"
  unfolding sem_inv_def sem_state_def by blast

lemma i32_eqI: "sint a = sint b \<Longrightarrow> a = (b :: i32)"
  by (rule signed_word_eqI [where 'a = int])

lemma sint_plus_one: "sint (a :: i32) < sint (b :: i32) \<Longrightarrow> sint (a + 1) = sint a + 1"
  using sint_lt [of b] sint_ge [of a]
  by (subst sint_word_ariths(1)) (simp add: signed_take_bit_int_eq_self)

lemma sint_minus_one: "0 < sint (a :: i32) \<Longrightarrow> sint (a - 1) = sint a - 1"
  using sint_lt [of a] by (subst sint_word_ariths(2)) (simp add: signed_take_bit_int_eq_self)

lemma counted_insert: "counted x H \<Longrightarrow> c \<notin> H \<Longrightarrow> sint (current_count x) < sint (max_count x) \<Longrightarrow>
    counted (x\<lparr>current_count := current_count x + 1\<rparr>) (insert c H)"
  by (simp add: counted_def sint_plus_one)

lemma counted_remove:
  assumes "counted x H" and "c \<in> H"
  shows "counted (x\<lparr>current_count := current_count x - 1\<rparr>) (H - {c})"
proof -
  have "0 < card H" using assms by (auto simp: counted_def card_gt_0_iff)
  moreover have "card (H - {c}) = card H - 1" using assms by (simp add: counted_def)
  ultimately show ?thesis using assms by (simp add: counted_def sint_minus_one of_nat_diff)
qed

lemma counted_handoff:
  assumes "counted x H" and "c \<in> H" and "w \<notin> H"
  shows "counted x (insert w (H - {c}))"
proof -
  have "0 < card H" using assms by (auto simp: counted_def card_gt_0_iff)
  then have "card (insert w (H - {c})) = card H" using assms by (simp add: counted_def card_Diff_singleton)
  then show ?thesis using assms by (simp add: counted_def)
qed

lemma sem_state_sems:
  "sem_state (s\<lparr>sems := (sems s)(sem \<mapsto> y), irq_on := b\<rparr>) sem y c xs ws \<longleftrightarrow>
    current_running_tcb s = c \<and> known_tcb (tcbs s) c \<and> ready_threads s xs \<and> waiters (tcbs s) y ws \<and> distinct (c # xs @ ws)"
  by (simp add: sem_state_def)

lemma sem_run_inv: "sem_run sem s H \<Longrightarrow> sem_inv s sem H"
proof (induction rule: sem_run.induct)
  case (start s x c xs)
  then have "counted x {}" by (simp add: sem_state_def counted_def)
  then show ?case using start by (intro sem_invI) auto
next
  case (take_free s H x s')
  then obtain c xs ws where i: "counted x H" "at_rest s" "sem_state s sem x c xs ws" "H \<inter> set ws = {}"
    "ws \<noteq> [] \<longrightarrow> current_count x = max_count x" "\<forall>p \<in> set (c # xs). tstatus s p = Some THREAD_RUNNING"
    by (auto simp: sem_inv_def)
  have c: "current_running_tcb s = c" using i(3) by (simp add: sem_state_def)
  have ws: "ws = []" using i(5) take_free.hyps by auto
  let ?x = "x\<lparr>current_count := current_count x + 1\<rparr>"
  have s': "s' = s\<lparr>sems := (sems s)(sem \<mapsto> ?x), irq_on := True\<rparr>"
    using lock_semaphore_free [OF i(2,3)] take_free.hyps by simp
  have st: "sem_state s' sem ?x c xs []" using i(3) ws by (simp add: s' sem_state_sems) (simp add: sem_state_def waiters_def)
  have rest: "at_rest s'" and stat: "\<And>p. tstatus s' p = tstatus s p"
    using i(2) by (simp_all add: s' at_rest_def tstatus_def)
  have "counted ?x (insert c H)" using counted_insert [OF i(1)] take_free.hyps c by simp
  from sem_invI [OF rest st this] show ?case using i(6) stat c by simp
next
  case (queue_up s H x s')
  then obtain c xs ws where i: "counted x H" "at_rest s" "sem_state s sem x c xs ws" "H \<inter> set ws = {}"
    "\<forall>p \<in> set (c # xs). tstatus s p = Some THREAD_RUNNING"
    by (auto simp: sem_inv_def)
  have c: "current_running_tcb s = c" "distinct (c # xs @ ws)" using i(3) by (simp_all add: sem_state_def)
  have eq: "current_count x = max_count x" using i(1) queue_up.hyps by (intro i32_eqI) (simp add: counted_def)
  have le: "sint (max_count x) \<le> sint (current_count x)" using queue_up.hyps by simp
  let ?x = "x\<lparr>first_waiting_task := hd (ws @ [c]), last_waiting_task := c\<rparr>"
  from lock_semaphore_busy [OF i(2,3) le] queue_up.hyps(6) have b:
    "sems s' = (sems s)(sem \<mapsto> ?x)" "waiters (tcbs s') ?x (ws @ [c])" "ready_threads s' (tl xs)"
    "known_tcb (tcbs s') = known_tcb (tcbs s)" "\<forall>p. tstatus s' p = (if p = c then Some THREAD_PAUSED else tstatus s p)"
    "if xs = [] then current_running_tcb s' = 0 \<and> halted s' = Some c else current_running_tcb s' = hd xs \<and> at_rest s'"
    by auto
  have cn: "counted ?x H" using i(1) by (simp add: counted_def)
  show ?case
  proof (cases xs)
    case Nil
    then show ?thesis using b cn by (simp add: sem_inv_def)
  next
    case (Cons y ys)
    have "known_tcb (tcbs s) y" using ready.view_known [of "threads_ready s" "tcbs s" xs y] i(3) Cons
      by (simp add: sem_state_def)
    then have st: "sem_state s' sem ?x y ys (ws @ [c])" using b c(2) Cons by (auto simp: sem_state_def)
    have rest: "at_rest s'" using b(6) Cons by simp
    have "H \<inter> set (ws @ [c]) = {}" using i(4) c(1) queue_up.hyps by auto
    moreover have "tstatus s' p = Some THREAD_RUNNING" if "p \<in> set (y # ys)" for p using that b(5) i(5) c(2) Cons by auto
    ultimately show ?thesis using eq by (intro sem_invI [OF rest st cn]) simp_all
  qed
next
  case (release s H x s')
  then obtain c xs ws where i: "counted x H" "at_rest s" "sem_state s sem x c xs ws" "H \<inter> set ws = {}"
    "ws \<noteq> [] \<longrightarrow> current_count x = max_count x" "\<forall>p \<in> set (c # xs). tstatus s p = Some THREAD_RUNNING"
    by (auto simp: sem_inv_def)
  have c: "current_running_tcb s = c" and w: "waiters (tcbs s) x ws" using i(3) by (simp_all add: sem_state_def)
  have cH: "c \<in> H" using release.hyps c by simp
  show ?case
  proof (cases ws)
    case Nil
    let ?x = "x\<lparr>current_count := current_count x - 1\<rparr>"
    have s': "s' = s\<lparr>sems := (sems s)(sem \<mapsto> ?x), irq_on := True\<rparr>"
      using unlock_semaphore_none [of s sem x c xs] i(2,3) release.hyps Nil by simp
    have st: "sem_state s' sem ?x c xs []"
      using i(3) Nil by (simp add: s' sem_state_sems) (simp add: sem_state_def waiters_def)
    have rest: "at_rest s'" and stat: "\<And>p. tstatus s' p = tstatus s p"
      using i(2) by (simp_all add: s' at_rest_def tstatus_def)
    from sem_invI [OF rest st counted_remove [OF i(1) cH]] show ?thesis
      using i(6) stat waiters_first [OF w] Nil c by simp
  next
    case (Cons v vs)
    have v: "first_waiting_task x = v" "v \<noteq> 0" "v \<notin> H"
      using waiters_first [OF w] waiters_valid [OF w, of v] i(4) Cons by auto
    from unlock_semaphore_handoff [of s sem x c xs v vs] i(2,3) Cons release.hyps(5) obtain x' where
      h: "at_rest s'" "sem_state s' sem x' c (xs @ [v]) vs" "max_count x' = max_count x" "current_count x' = current_count x"
      "\<forall>p. tstatus s' p = (if p = v then Some THREAD_RUNNING else tstatus s p)" "sems s' = (sems s)(sem \<mapsto> x')"
      by auto
    have "counted x' (insert v (H - {c}))" using counted_handoff [OF i(1) cH v(3)] h(3,4) by (simp add: counted_def)
    moreover have "insert v (H - {c}) \<inter> set vs = {}" using i(3,4) Cons by (auto simp: sem_state_def)
    moreover have "tstatus s' p = Some THREAD_RUNNING" if "p \<in> set (c # xs @ [v])" for p using that h(5) i(6) by auto
    ultimately have "sem_inv s' sem (insert v (H - {c}))"
      using i(5) h(3,4) Cons by (intro sem_invI [OF h(1,2)]) simp_all
    moreover have "H - {c} \<union> {v} = insert v (H - {c})" by blast
    ultimately show ?thesis using v(1,2) c by simp
  qed
next
  case (slice_end s H s')
  then obtain x c xs ws where i: "sems s sem = Some x" "counted x H" "at_rest s" "sem_state s sem x c xs ws" "H \<inter> set ws = {}"
    "ws \<noteq> [] \<longrightarrow> current_count x = max_count x" "\<forall>p \<in> set (c # xs). tstatus s p = Some THREAD_RUNNING"
    by (auto simp: sem_inv_def)
  from preempt_sem_state [OF i(3,4)] i(7) slice_end.hyps(3) obtain c' ys where
    p: "at_rest s'" "sem_state s' sem x c' ys ws" "c' # ys = rotate1 (c # xs)" "sems s' = sems s" "\<forall>p. tstatus s' p = tstatus s p"
    by auto
  have "set (c' # ys) = set (c # xs)" using p(3) by (metis set_rotate1)
  then show ?case using p(5) i(6,7) by (intro sem_invI [OF p(1,2) i(2,5)]) auto
qed

text \<open>What one call of a running thread does, in any state the invariant allows.\<close>

lemma lock_outcome:
  assumes "at_rest s" and "sem_state s sem x c xs ws"
  shows "\<exists>s'. lock_semaphore sem s = Inr s' \<and>
    (if sint (current_count x) < sint (max_count x)
     then current_running_tcb s' = c \<and> halted s' = None \<and> sems s' = (sems s)(sem \<mapsto> x\<lparr>current_count := current_count x + 1\<rparr>)
     else tstatus s' c = Some THREAD_PAUSED \<and> ready_threads s' (tl xs) \<and>
       (if xs = [] then halted s' = Some c else current_running_tcb s' = hd xs \<and> halted s' = None))"
proof (cases "sint (current_count x) < sint (max_count x)")
  case True
  then show ?thesis using lock_semaphore_free [OF assms True] assms by (simp add: sem_state_def at_rest_def)
next
  case False
  then have "sint (max_count x) \<le> sint (current_count x)" by simp
  from lock_semaphore_busy [OF assms this] False show ?thesis by (auto simp: at_rest_def split: if_splits)
qed

lemma unlock_outcome:
  assumes "at_rest s" and "sem_state s sem x c xs ws"
  shows "\<exists>s'. unlock_semaphore sem s = Inr s' \<and> current_running_tcb s' = c \<and> halted s' = None"
proof (cases ws)
  case Nil
  then show ?thesis using unlock_semaphore_none [of s sem x c xs] assms by (simp add: sem_state_def at_rest_def)
next
  case (Cons w vs)
  with assms unlock_semaphore_handoff [of s sem x c xs w vs] show ?thesis
    by (fastforce simp: sem_state_def at_rest_def)
qed

text \<open>C28: Take any run that starts with nobody holding or waiting for a semaphore of count 0
  and consists of lock calls by running threads that do not hold it, unlock calls by
  holders, and ends of time slices. The number of holders is the recorded count and never
  exceeds the maximum. As long as the processor has not halted, neither call fails: lock on
  a semaphore with a free place takes it and the caller goes on; on a full one the caller is
  paused, and the first ready thread runs, or the processor halts when none is ready; unlock
  returns to its caller, which goes on.\<close>
theorem semaphore_excludes:
  assumes "sem_run sem s H"
  shows "\<exists>x. sems s sem = Some x \<and> finite H \<and> int (card H) = sint (current_count x) \<and>
    int (card H) \<le> sint (max_count x) \<and>
    (halted s = None \<longrightarrow> (\<exists>c xs. current_running_tcb s = c \<and> ready_threads s xs \<and>
      (\<exists>s'. lock_semaphore sem s = Inr s' \<and>
        (if int (card H) < sint (max_count x)
         then current_running_tcb s' = c \<and> halted s' = None \<and>
           sems s' = (sems s)(sem \<mapsto> x\<lparr>current_count := current_count x + 1\<rparr>)
         else tstatus s' c = Some THREAD_PAUSED \<and> ready_threads s' (tl xs) \<and>
           (if xs = [] then halted s' = Some c else current_running_tcb s' = hd xs \<and> halted s' = None))) \<and>
      (\<exists>s'. unlock_semaphore sem s = Inr s' \<and> current_running_tcb s' = c \<and> halted s' = None)))"
proof -
  obtain x where x: "sems s sem = Some x" "counted x H" "finite H" "int (card H) = sint (current_count x)"
    "int (card H) \<le> sint (max_count x)"
    using sem_run_inv [OF assms] by (auto simp: sem_inv_def counted_def)
  show ?thesis
  proof (cases "halted s = None")
    case True
    obtain c xs ws where i: "at_rest s" "sem_state s sem x c xs ws"
      using sem_run_inv [OF assms] True x(1) by (auto simp: sem_inv_def)
    then have "current_running_tcb s = c" "ready_threads s xs" by (simp_all add: sem_state_def)
    with lock_outcome [OF i] unlock_outcome [OF i] show ?thesis
      unfolding x(4) [symmetric] using x by (intro exI [of _ x] conjI impI exI [of _ c] exI [of _ xs]) assumption+
  next
    case False
    then show ?thesis using x by auto
  qed
qed

section \<open>Handing over\<close>

text \<open>C29: unlock_semaphore with waiting threads hands the semaphore to the first of them: it
  becomes ready behind the others, the count stays, and the remaining threads keep waiting
  in order.\<close>
theorem unlock_hands_over:
  assumes "at_rest s" and "sem_state s sem x c xs (w # ws)"
  shows "\<exists>s' x'. unlock_semaphore sem s = Inr s' \<and> at_rest s' \<and> sem_state s' sem x' c (xs @ [w]) ws \<and>
    current_count x' = current_count x \<and> tstatus s' w = Some THREAD_RUNNING \<and>
    (\<forall>p. p \<noteq> w \<longrightarrow> tstatus s' p = tstatus s p)"
  using unlock_semaphore_handoff [OF assms] by (metis (no_types, lifting))

lemma post_semaphore_none:
  assumes "at_rest s" and "sem_state s sem x c xs []"
  shows "post_semaphore sem s = Inr (s\<lparr>irq_on := True\<rparr>)"
  using assms waiters_first [of "tcbs s" x "[]"] by (cases s)
    (simp add: post_semaphore_def lock_postpone_def sem_state_def at_rest_def unlock_postpone_and_schedule_def
      finish_unlock_def Let_def)

text \<open>With a waiting thread the first one becomes ready; the queues of the threads stay.\<close>

lemma post_semaphore_wakes:
  assumes "at_rest s" and "sem_state s sem x c xs ws"
  shows "\<exists>s' x'. post_semaphore sem s = Inr s' \<and> at_rest s' \<and> sem_state s' sem x' c (xs @ take 1 ws) (tl ws) \<and>
    queues s' = queues s \<and> packets s' = packets s \<and> current_focus_tcb s' = current_focus_tcb s \<and>
    (\<forall>p. map_option kbp_queue (tcbs s' p) = map_option kbp_queue (tcbs s p)) \<and>
    (\<forall>p. tstatus s' p = (if p \<in> set (take 1 ws) then Some THREAD_RUNNING else tstatus s p))"
proof (cases ws)
  case Nil
  then show ?thesis using post_semaphore_none [of s sem x c xs] assms
    by (intro exI [of _ "s\<lparr>irq_on := True\<rparr>"] exI [of _ x]) (simp add: at_rest_def sem_state_def tstatus_def)
next
  case (Cons w vs)
  have w: "waiters (tcbs s) x (w # vs)" using assms(2) Cons by (simp add: sem_state_def)
  obtain t where t: "tcbs s w = Some t" "chain (tcbs s) (next_tcb t) vs" "w \<noteq> 0"
    using w by (auto simp: waiters_def split: option.splits)
  have nx: "next_tcb t = hd (vs @ [0])" using t(2) by (cases vs) auto
  let ?x = "x\<lparr>first_waiting_task := next_tcb t, current_count := current_count x + 1\<rparr>"
  let ?s = "(lock_postpone s)\<lparr>sems := (sems s)(sem \<mapsto> ?x)\<rparr>"
  have post: "post_semaphore sem s = res_bind (unblock_task w ?s) unlock_postpone_and_schedule"
    using assms(2) t(1,3) waiters_first [OF w] by (simp add: post_semaphore_def sem_state_def Let_def)
  from unblock_waiter [OF assms(1) _ nx t(1), of sem x c xs ?s ?x] assms(2) nx Cons obtain s' where
    u: "res_bind (unblock_task w ?s) unlock_postpone_and_schedule = Inr s'" "at_rest s'"
    "sem_state s' sem ?x c (xs @ [w]) vs" "\<forall>p. tstatus s' p = (if p = w then Some THREAD_RUNNING else tstatus s p)"
    "same_cores ((tcbs s)(w \<mapsto> t\<lparr>state := THREAD_RUNNING\<rparr>)) (tcbs s')" "queues s' = queues s" "packets s' = packets s"
    "current_focus_tcb s' = current_focus_tcb s"
    by auto
  have "map_option kbp_queue (tcbs s' p) = map_option kbp_queue (tcbs s p)" for p
    using same_cores_queue [OF u(5), of p] t(1) by simp
  then show ?thesis using post u Cons by (intro exI [of _ s'] exI [of _ ?x]) simp
qed

text \<open>A post that finds nobody waiting leaves no trace: the next wait blocks all the same.\<close>

text \<open>C30: post_semaphore with no waiting thread leaves no trace, and the next wait_semaphore
  blocks all the same.\<close>
theorem post_is_forgotten:
  assumes "at_rest s" and "sem_state s sem x c xs []" and "sint (current_count x - 1) < sint (max_count x)"
  shows "post_semaphore sem s = Inr (s\<lparr>irq_on := True\<rparr>) \<and>
    (\<exists>s'. wait_semaphore sem (s\<lparr>irq_on := True\<rparr>) = Inr s' \<and> tstatus s' c = Some THREAD_PAUSED \<and>
      (if xs = [] then halted s' = Some c else current_running_tcb s' = hd xs))"
proof
  show "post_semaphore sem s = Inr (s\<lparr>irq_on := True\<rparr>)" using assms(1,2) by (rule post_semaphore_none)
  let ?x = "x\<lparr>current_count := current_count x - 1\<rparr>"
  let ?s = "(lock_postpone (s\<lparr>irq_on := True\<rparr>))\<lparr>sems := (sems s)(sem \<mapsto> ?x)\<rparr>"
  have "locked ?s" using assms(1) by (simp add: locked_def at_rest_def)
  moreover have "sem_state ?s sem ?x c xs []" using assms(2) by (simp add: sem_state_def waiters_def)
  moreover have "wait_semaphore sem (s\<lparr>irq_on := True\<rparr>) = res_bind (wait_in_line sem ?s) unlock_postpone_and_schedule"
    using assms(2,3) by (simp add: wait_semaphore_def sem_state_def)
  ultimately show "\<exists>s'. wait_semaphore sem (s\<lparr>irq_on := True\<rparr>) = Inr s' \<and> tstatus s' c = Some THREAD_PAUSED \<and>
      (if xs = [] then halted s' = Some c else current_running_tcb s' = hd xs)"
    using wait_in_line_unlock [of ?s sem ?x c xs "[]"] by (auto split: if_splits)
qed

section \<open>A concrete semaphore\<close>

definition four_sem :: "i32 \<Rightarrow> sched" where
  "four_sem mx = four_threads\<lparr>sems := [0x100 \<mapsto>
     \<lparr>max_count = mx, current_count = 0, first_waiting_task = 0, last_waiting_task = 0\<rparr>]\<rparr>"

lemma four_sem_state:
  "at_rest (four_sem mx)" "sem_state (four_sem mx) 0x100
     \<lparr>max_count = mx, current_count = 0, first_waiting_task = 0, last_waiting_task = 0\<rparr> 0x40 [0x10, 0x20, 0x30] []"
  using four_ready by (simp_all add: four_sem_def sem_state_def waiters_def at_rest_def)
    (simp_all add: four_threads_def)

theorem semaphore_excludes_witness:
  "\<exists>s. lock_semaphore 0x100 (four_sem 1) = Inr s \<and> sem_run 0x100 s {0x40} \<and> (\<exists>s'. lock_semaphore 0x100 s = Inr s')"
proof -
  let ?x = "\<lparr>max_count = 1, current_count = 0, first_waiting_task = 0, last_waiting_task = 0\<rparr>"
  have st: "tstatus (four_sem 1) p = Some THREAD_RUNNING" if that': "p \<in> {0x10, 0x20, 0x30, 0x40}" for p
    using four_status [OF that'] by (simp add: tstatus_def four_sem_def del: map_option_eq_Some)
  have run: "sem_run 0x100 (four_sem 1) {}"
    by (rule sem_run.start [OF four_sem_state]) (use st in auto)
  obtain s where s: "lock_semaphore 0x100 (four_sem 1) = Inr s" "halted s = None"
    using lock_semaphore_free [OF four_sem_state] by (auto simp: four_sem_def)
  have f: "halted (four_sem 1) = None" "current_running_tcb (four_sem 1) = 0x40" "sems (four_sem 1) 0x100 = Some ?x"
    by (simp_all add: four_sem_def)
  have "sem_run 0x100 s {0x40}" using sem_run.take_free [OF run f(1) _ f(3) _ s(1)] f(2) by simp
  from semaphore_excludes [OF this] this s show ?thesis by auto
qed

theorem unlock_hands_over_witness:
  "\<exists>s s' s''. lock_semaphore 0x100 (four_sem 0) = Inr s \<and> unlock_semaphore 0x100 s = Inr s' \<and>
    tstatus s' 0x40 = Some THREAD_RUNNING"
proof -
  let ?x = "\<lparr>max_count = 0, current_count = 0, first_waiting_task = 0x40, last_waiting_task = 0x40\<rparr>"
  obtain s where s: "lock_semaphore 0x100 (four_sem 0) = Inr s" "at_rest s" "sems s = (sems (four_sem 0))(0x100 \<mapsto> ?x)"
    "waiters (tcbs s) ?x [0x40]" "ready_threads s [0x20, 0x30]" "current_running_tcb s = 0x10"
    "known_tcb (tcbs s) = known_tcb (tcbs (four_sem 0))"
    using lock_semaphore_busy [OF four_sem_state, of 0] by auto
  have "sem_state s 0x100 ?x 0x10 [0x20, 0x30] [0x40]"
    using s four_status [of "0x10"] by (simp add: sem_state_def four_sem_def)
  from unlock_hands_over [OF s(2) this] s(1) show ?thesis by blast
qed

theorem post_is_forgotten_witness:
  "\<exists>s'. wait_semaphore 0x100 (four_sem 0\<lparr>irq_on := True\<rparr>) = Inr s' \<and> tstatus s' 0x40 = Some THREAD_PAUSED"
  using post_is_forgotten [OF four_sem_state, of 0] by auto

end
