(* ===== verification/Thread_Time.thy ===== *)
theory Thread_Time
  imports Thread_Sync
begin

text \<open>
  Sleeping, the timer interrupt, and the life of a thread: \<^verbatim>\<open>src/src/multitask/thread_time.c\<close>,
  \<^verbatim>\<open>thread_terminate.c\<close>, \<^verbatim>\<open>thread_create.c\<close>, \<^verbatim>\<open>thread_gates.c\<close> and \<^verbatim>\<open>threads.c\<close>.
\<close>

section \<open>The timer interrupt (thread\_time.c)\<close>

text \<open>One sleeping thread: woken when its time has come.\<close>

definition pit_visit :: "u32 \<Rightarrow> sched \<Rightarrow> sched res" where
  "pit_visit ptr s =
     res_bind (thread_at ''src/multitask/thread_time.c'' 25 ptr s) (\<lambda>t.
       if sint (paused_until t) \<le> sint (timer_tick s) then
         res_bind (list_thread_remove (threads_sleeping s) ptr (tcbs s)) (\<lambda>(r, q, m).
           unblock_task ptr (s\<lparr>threads_sleeping := q, tcbs := m\<rparr>))
       else Inr s)"

text \<open>The link is read after the visit.\<close>

partial_function (option) pit_loop :: "u32 \<Rightarrow> sched \<Rightarrow> sched res option" where
  "pit_loop ptr s =
     (if ptr = 0 then Some (Inr s)
      else case pit_visit ptr s of
        Inl e \<Rightarrow> Some (Inl e)
      | Inr s \<Rightarrow>
          (case thread_at ''src/multitask/thread_time.c'' 31 ptr s of
             Inl e \<Rightarrow> Some (Inl e)
           | Inr t \<Rightarrow> pit_loop (next_tcb t) s))"

declare pit_loop.simps [code]

definition pit_interrupt :: "sched \<Rightarrow> sched res" where
  "pit_interrupt s =
     (let s = lock_postpone s; s = s\<lparr>timer_tick := timer_tick s + 1\<rparr>
      in res_bind
           (case threads_sleeping s of
              None \<Rightarrow> Inl Stuck
            | Some l \<Rightarrow> if size l > 0 then loop_res (pit_loop (head l) s) else Inr s) (\<lambda>s.
         res_bind
           (if current_running_tcb s \<noteq> 0 \<and> sint (timer_tick s) mod 3 = 0
            then res_bind (schedule s) (\<lambda>(idle, s). Inr s) else Inr s) (\<lambda>s.
           unlock_postpone_and_schedule s)))"

section \<open>Sleeping (thread\_time.c)\<close>

text \<open>
  The first half of \<^verbatim>\<open>mili_sleep_until\<close>, up to the unlock after which interrupts are enabled; the
  flag tells whether the thread goes on to block.
\<close>

definition mili_sleep_begin :: "i32 \<Rightarrow> sched \<Rightarrow> (bool \<times> sched) res" where
  "mili_sleep_begin until s =
     (let s = lock_postpone s
      in if sint until < sint (timer_tick s) then
           res_bind (unlock_postpone_and_schedule s) (\<lambda>s. Inr (False, s))
         else
           res_bind (set_thread ''src/multitask/thread_time.c'' 61 (current_running_tcb s)
             (\<lambda>t. t\<lparr>paused_until := until\<rparr>) s) (\<lambda>s.
           res_bind (list_thread_push_back (threads_sleeping s) (current_running_tcb s) (tcbs s)) (\<lambda>(r, q, m).
           res_bind (unlock_postpone_and_schedule (s\<lparr>threads_sleeping := q, tcbs := m\<rparr>)) (\<lambda>s.
             Inr (True, s)))))"

definition mili_sleep_until :: "i32 \<Rightarrow> sched \<Rightarrow> sched res" where
  "mili_sleep_until until s =
     res_bind (mili_sleep_begin until s) (\<lambda>(blocks, s). if blocks then block_task THREAD_SLEEPING s else Inr s)"

definition mili_sleep :: "i32 \<Rightarrow> sched \<Rightarrow> sched res" where
  "mili_sleep mili_seconds s = mili_sleep_until (timer_tick s + mili_seconds) s"

definition MILI :: i32 where "MILI = 1000"

definition sleep :: "i32 \<Rightarrow> sched \<Rightarrow> sched res" where
  "sleep seconds s = mili_sleep (seconds * MILI) (s\<lparr>irq_on := False\<rparr>)"

section \<open>Termination (thread\_terminate.c)\<close>

definition terminate_task :: "sched \<Rightarrow> sched res" where
  "terminate_task s =
     (let s = lock_postpone s
      in res_bind (list_thread_push_back (threads_terminated s) (current_running_tcb s) (tcbs s)) (\<lambda>(r, q, m).
         res_bind (block_task THREAD_TERMINATED (s\<lparr>threads_terminated := q, tcbs := m\<rparr>)) (\<lambda>s.
         res_bind (unblock_task (butler s) s) (\<lambda>s.
           unlock_postpone_and_schedule s))))"

text \<open>\<^verbatim>\<open>free\<close>: the block goes back to the heap, and with it the object at its address.\<close>

definition free_object :: "u32 \<Rightarrow> sched \<Rightarrow> sched res" where
  "free_object p s =
     res_bind (heap_free p (hp s)) (\<lambda>h.
       Inr (s\<lparr>hp := h, tcbs := (tcbs s)(p := None), sems := (sems s)(p := None), queues := (queues s)(p := None),
         packets := (packets s)(p := None)\<rparr>))"

definition thread_free :: "u32 \<Rightarrow> sched \<Rightarrow> sched res" where
  "thread_free tcb s =
     res_bind (thread_at ''src/multitask/thread_create.c'' 21 tcb s) (\<lambda>t.
     res_bind (deref ''src/multitask/thread_create.c'' 21 (queues s) (kbp_queue t)) (\<lambda>q.
     res_bind (free_object (sync q) s) (\<lambda>s.
     res_bind (free_object (kbp_queue t) s) (\<lambda>s.
     res_bind (free_object (stack_alloc_ptr t) s) (\<lambda>s.
       free_object tcb s)))))"

definition cleanup_terminated_task :: "u32 \<Rightarrow> sched \<Rightarrow> sched res" where
  "cleanup_terminated_task task s = thread_free task s"

text \<open>One round of \<^verbatim>\<open>butler_mr_cleaner\<close>'s loop.\<close>

definition butler_round :: "sched \<Rightarrow> sched res" where
  "butler_round s =
     (let s = lock_postpone s
      in case threads_terminated s of
           None \<Rightarrow> Inl Stuck
         | Some l \<Rightarrow>
             if head l = 0 then
               res_bind (block_task THREAD_PAUSED s) (\<lambda>s. unlock_postpone_and_schedule s)
             else
               res_bind (list_thread_pop_front (Some l) (tcbs s)) (\<lambda>(work, q).
               res_bind (cleanup_terminated_task work (s\<lparr>threads_terminated := q\<rparr>)) (\<lambda>s.
                 unlock_postpone_and_schedule s)))"

section \<open>Creation (thread\_create.c, threads.c, thread\_gates.c)\<close>

text \<open>
  The block of a thread as the memory at \<open>p\<close> holds it; both creators store \<^verbatim>\<open>THREAD_RUNNING\<close> in
  the state before anything reads it.
\<close>

definition load_tcb :: "mem \<Rightarrow> u32 \<Rightarrow> thread_control_block" where
  "load_tcb m p = \<lparr>esp = load32 m p, cr3 = load32 m (p + 4), next_tcb = load32 m (p + 8), state = THREAD_RUNNING,
     paused_until = load32 m (p + 16), time_used = load32 m (p + 20), pid = load32 m (p + 24),
     stack_alloc_ptr = load32 m (p + 28), kbp_queue = load32 m (p + 32)\<rparr>"

definition sizeof_tcb :: u32 where "sizeof_tcb = 36"
definition MIB :: "u32 \<Rightarrow> u32" where "MIB x = x * 0x400 * 0x400"

text \<open>The frame that the first switch to the thread pops: four registers and three return addresses.\<close>

definition thread_stack_t :: "u32 \<Rightarrow> u32 \<Rightarrow> u32 \<Rightarrow> u32 list" where
  "thread_stack_t thread_entry func thread_exit = [0, 0, 0, 0, thread_entry, func, thread_exit]"

fun store_words :: "u32 \<Rightarrow> u32 list \<Rightarrow> mem \<Rightarrow> mem" where
  "store_words p [] m = m"
| "store_words p (w # ws) m = store_words (p + 4) ws (store32 m p w)"

definition thread_create :: "u32 \<Rightarrow> u32 \<Rightarrow> u32 \<Rightarrow> sched \<Rightarrow> (u32 \<times> sched) res" where
  "thread_create thread_entry thread_exit func s =
     res_bind (calloc 1 sizeof_tcb (hp s)) (\<lambda>(thread, h).
       if thread = 0 then Inr (0, s\<lparr>hp := h\<rparr>)
       else
         res_bind (calloc (MIB 1) 1 h) (\<lambda>(stack, h).
         res_bind (calloc 1 16 h) (\<lambda>(queue, h).
           if queue = 0 then Inl Stuck
           else
             let s = s\<lparr>hp := h, queues := (queues s)(queue \<mapsto> \<lparr>sync = 0, front = 0, backq = 0, status_flags = 0\<rparr>)\<rparr>
             in res_bind (create_semaphore 0 s) (\<lambda>(sem, s).
                  let s = s\<lparr>queues := (queues s)(queue \<mapsto> \<lparr>sync = sem, front = 0, backq = 0, status_flags = 0\<rparr>)\<rparr>;
                      sp = stack + MIB 1 - 28
                  in if stack = 0 then Inl Stuck
                     else
                       let t = (load_tcb (ram h) thread)\<lparr>stack_alloc_ptr := stack, kbp_queue := queue, esp := sp,
                             state := THREAD_RUNNING, pid := thread_create_counter s, cr3 := cr3_reg s\<rparr>;
                           h = (hp s)\<lparr>ram := store_words sp (thread_stack_t thread_entry func thread_exit) (ram (hp s))\<rparr>;
                           s = lock_postpone (s\<lparr>hp := h, thread_create_counter := thread_create_counter s + 1,
                             tcbs := (tcbs s)(thread \<mapsto> t)\<rparr>)
                       in res_bind (push_ready thread s) (\<lambda>s.
                          res_bind (unlock_postpone_and_schedule s) (\<lambda>s. Inr (thread, s)))))))"

definition thread_entry_gate :: "sched \<Rightarrow> sched" where
  "thread_entry_gate s = unlock_scheduler s"

definition thread_exit_gate :: "sched \<Rightarrow> sched res" where
  "thread_exit_gate s = terminate_task s"

definition list_thread_create :: "sched \<Rightarrow> (thread_list option \<times> sched) res" where
  "list_thread_create s =
     res_bind (malloc 12 (hp s)) (\<lambda>(p, h).
       Inr (if p = 0 then None else Some \<lparr>head = 0, tail = 0, size = 0\<rparr>, s\<lparr>hp := h\<rparr>))"

definition init_task :: "sched \<Rightarrow> sched res" where
  "init_task s =
     res_bind (list_thread_create s) (\<lambda>(l, s).
     res_bind (list_thread_create (s\<lparr>threads_ready := l\<rparr>)) (\<lambda>(l, s).
     res_bind (list_thread_create (s\<lparr>threads_sleeping := l\<rparr>)) (\<lambda>(l, s).
       let s = s\<lparr>threads_terminated := l\<rparr>
       in res_bind (malloc sizeof_tcb (hp s)) (\<lambda>(p, h).
            if p = 0 then Inl Stuck
            else
              let t = (load_tcb (ram h) p)\<lparr>cr3 := cr3_reg s, pid := 0, state := THREAD_RUNNING\<rparr>
              in Inr (s\<lparr>hp := h, tcbs := (tcbs s)(p \<mapsto> t), current_running_tcb := p, current_focus_tcb := p,
                   butler := p\<rparr>)))))"

section \<open>What a tick wakes\<close>

lemma pit_visit_waiting:
  "tcbs s p = Some t \<Longrightarrow> sint (timer_tick s) < sint (paused_until t) \<Longrightarrow> pit_visit p s = Inr s"
  by (simp add: pit_visit_def)

lemma pit_loop_skip:
  "seg_chain (tcbs s) p us q \<Longrightarrow> (\<forall>u \<in> set us. \<forall>t. tcbs s u = Some t \<longrightarrow> sint (timer_tick s) < sint (paused_until t)) \<Longrightarrow>
    pit_loop p s = pit_loop q s"
proof (induction us arbitrary: p)
  case (Cons u us)
  then obtain t where t: "tcbs s u = Some t" "seg_chain (tcbs s) (next_tcb t) us q" "p = u" "u \<noteq> 0"
    by (auto split: option.splits)
  then have "pit_loop p s = pit_loop (next_tcb t) s"
    using Cons.prems(2) by (subst pit_loop.simps) (simp add: pit_visit_waiting)
  then show ?case using Cons.IH [OF t(2)] Cons.prems(2) by simp
qed simp

text \<open>
  \<open>zs\<close> sleep and \<open>xs\<close> are ready. The list of sleepers may record a size that is too large, see
  \<open>remove_tlist\<close>; its chain is intact.
\<close>

definition sleepers :: "sched \<Rightarrow> u32 list \<Rightarrow> bool" where
  "sleepers s zs \<longleftrightarrow> (\<exists>l. threads_sleeping s = Some l \<and> 0 < size l \<and>
     tlist (tcbs s) (l\<lparr>size := word_of_nat (length zs)\<rparr>) zs)"

text \<open>
  Waking a sleeper clears its link, so the walk over the list ends there: later sleepers whose
  time has come as well stay asleep until a later tick.
\<close>

lemma pit_loop_wakes:
  assumes "postpone_task_switches_counter s \<noteq> 0" and "IRQ_disable_counter s \<noteq> 0" and "\<not> irq_on s"
    and "ready_threads s xs" and "threads_sleeping s = Some l" and "tlist (tcbs s) l (us @ z # vs)"
    and "set xs \<inter> set (us @ z # vs) = {}"
    and "\<forall>u \<in> set us. \<forall>t. tcbs s u = Some t \<longrightarrow> sint (timer_tick s) < sint (paused_until t)"
    and "tcbs s z = Some tz" and "sint (paused_until tz) \<le> sint (timer_tick s)"
  shows "\<exists>m q l'. pit_loop (head l) s = Some (Inr (s\<lparr>tcbs := m, threads_ready := q, threads_sleeping := Some l'\<rparr>)) \<and>
    tview q m (xs @ [z]) \<and> tlist m (l'\<lparr>size := word_of_nat (length (us @ vs))\<rparr>) (us @ vs) \<and>
    same_cores ((tcbs s)(z \<mapsto> tz\<lparr>state := THREAD_RUNNING\<rparr>)) m \<and>
    (\<forall>p. p \<notin> set xs \<and> p \<notin> set (us @ z # vs) \<longrightarrow> m p = tcbs s p)"
proof -
  have d: "distinct (us @ z # vs)" using assms(6) by (simp add: tlist_def)
  have z0: "z \<noteq> 0" using tlist_valid [OF assms(6), of z] by simp
  have "seg_chain (tcbs s) (head l) us z" using assms(6) by (auto simp: tlist_def seg_chain_append)
  then have skip: "pit_loop (head l) s = pit_loop z s" using assms(8) by (rule pit_loop_skip)
  obtain l' m1 where r: "list_thread_remove (Some l) z (tcbs s) = Inr (z, Some l', m1)"
    "links_only (tcbs s) m1" "tlist m1 (l'\<lparr>size := word_of_nat (length (remove1 z (us @ z # vs)))\<rparr>) (remove1 z (us @ z # vs))"
    "\<forall>q. q \<notin> set (us @ z # vs) \<longrightarrow> m1 q = tcbs s q"
    using remove_tlist [OF assms(6) z0] by auto
  have rem: "remove1 z (us @ z # vs) = us @ vs" using d by (simp add: remove1_append)
  let ?s1 = "s\<lparr>threads_sleeping := Some l', tcbs := m1\<rparr>"
  obtain n where n: "m1 z = Some (tz\<lparr>next_tcb := n\<rparr>)" using links_only_state [OF r(2) assms(9)] by blast
  have "tview (threads_ready s) m1 xs" using assms(4)
  proof (rule tview_cong)
    show "m1 p = tcbs s p" if "p \<in> set xs" for p using that assms(7) r(4) by auto
  qed
  with unblock_task_locked [of ?s1 xs z "tz\<lparr>next_tcb := n\<rparr>"] assms n z0 obtain m q where
    u: "unblock_task z ?s1 = Inr (?s1\<lparr>tcbs := m, threads_ready := q\<rparr>)" "tview q m (xs @ [z])"
    "m z = Some (tz\<lparr>next_tcb := 0, state := THREAD_RUNNING\<rparr>)"
    "same_cores (m1(z \<mapsto> tz\<lparr>next_tcb := n, state := THREAD_RUNNING\<rparr>)) m" "\<forall>x. x \<notin> set xs \<and> x \<noteq> z \<longrightarrow> m x = m1 x"
    by auto
  have "pit_loop z s = Some (Inr (?s1\<lparr>tcbs := m, threads_ready := q\<rparr>))"
  proof -
    have "pit_visit z s = Inr (?s1\<lparr>tcbs := m, threads_ready := q\<rparr>)"
      using assms(5,9,10) r(1) u(1) by (simp add: pit_visit_def)
    moreover have "pit_loop 0 (?s1\<lparr>tcbs := m, threads_ready := q\<rparr>) = Some (Inr (?s1\<lparr>tcbs := m, threads_ready := q\<rparr>))"
      by (subst pit_loop.simps) simp
    ultimately show ?thesis using u(3) z0 by (subst pit_loop.simps) simp
  qed
  moreover have "tlist m (l'\<lparr>size := word_of_nat (length (us @ vs))\<rparr>) (us @ vs)"
  proof (rule tlist_cong)
    show "tlist m1 (l'\<lparr>size := word_of_nat (length (us @ vs))\<rparr>) (us @ vs)" using r(3) by (simp only: rem)
    show "m p = m1 p" if "p \<in> set (us @ vs)" for p using that u(5) assms(7) d by auto
  qed
  moreover have "same_cores ((tcbs s)(z \<mapsto> tz\<lparr>state := THREAD_RUNNING\<rparr>)) m"
  proof -
    have "map_option core ((m1(z \<mapsto> tz\<lparr>next_tcb := n, state := THREAD_RUNNING\<rparr>)) p)
        = map_option core (((tcbs s)(z \<mapsto> tz\<lparr>state := THREAD_RUNNING\<rparr>)) p)" for p
      using links_only_cores [OF r(2)] by (auto simp: same_cores_def core_def)
    then show ?thesis using u(4) by (auto simp: same_cores_def)
  qed
  moreover have "m p = tcbs s p" if "p \<notin> set xs \<and> p \<notin> set (us @ z # vs)" for p
    using that u(5) r(4) by auto
  ultimately show ?thesis using u(2) skip by (intro exI [of _ m] exI [of _ q] exI [of _ l']) simp
qed

text \<open>
  Interrupts are possible while a thread \<open>c\<close> runs, and in the hlt loop of \<^verbatim>\<open>schedule\<close>, where no
  thread is current, none is ready and one level of the interrupt lock is held.
\<close>

definition interruptible :: "sched \<Rightarrow> u32 \<Rightarrow> u32 list \<Rightarrow> bool" where
  "interruptible s c xs \<longleftrightarrow> postpone_task_switches_counter s = 0 \<and> task_switches_postponed_flag s = 0 \<and>
     current_running_tcb s = c \<and> ready_threads s xs \<and>
     (if c = 0 then xs = [] \<and> IRQ_disable_counter s = 1 \<and> halted s \<noteq> None
      else c \<notin> set xs \<and> IRQ_disable_counter s = 0 \<and> halted s = None \<and> tstatus s c = Some THREAD_RUNNING)"

definition after_tick :: "sched \<Rightarrow> tcb_store \<Rightarrow> thread_list option \<Rightarrow> thread_list option \<Rightarrow> sched" where
  "after_tick s m q l = (lock_postpone s)\<lparr>timer_tick := timer_tick s + 1, tcbs := m, threads_ready := q, threads_sleeping := l\<rparr>"

lemma after_tick_fields [simp]:
  "tcbs (after_tick s m q l) = m" "threads_ready (after_tick s m q l) = q" "threads_sleeping (after_tick s m q l) = l"
  "timer_tick (after_tick s m q l) = timer_tick s + 1" "halted (after_tick s m q l) = halted s"
  "current_running_tcb (after_tick s m q l) = current_running_tcb s" "irq_on (after_tick s m q l) = False"
  "IRQ_disable_counter (after_tick s m q l) = IRQ_disable_counter s + 1"
  "postpone_task_switches_counter (after_tick s m q l) = postpone_task_switches_counter s + 1"
  "task_switches_postponed_flag (after_tick s m q l) = task_switches_postponed_flag s"
  by (simp_all add: after_tick_def)

lemma pit_interrupt_loop:
  assumes "postpone_task_switches_counter s = 0" and "IRQ_disable_counter s + 1 \<noteq> 0"
    and "ready_threads s xs" and "tview (threads_sleeping s) (tcbs s) (us @ z # vs)"
    and "set xs \<inter> set (us @ z # vs) = {}"
    and "\<forall>u \<in> set us. \<forall>t. tcbs s u = Some t \<longrightarrow> sint (timer_tick s + 1) < sint (paused_until t)"
    and "tcbs s z = Some tz" and "sint (paused_until tz) \<le> sint (timer_tick s + 1)"
  shows "\<exists>m q l'. pit_interrupt s = (let s2 = after_tick s m q (Some l')
      in unlock_postpone_and_schedule
        (if current_running_tcb s \<noteq> 0 \<and> sint (timer_tick s + 1) mod 3 = 0 then s2\<lparr>task_switches_postponed_flag := 1\<rparr> else s2)) \<and>
    tview q m (xs @ [z]) \<and> tlist m (l'\<lparr>size := word_of_nat (length (us @ vs))\<rparr>) (us @ vs) \<and>
    same_cores ((tcbs s)(z \<mapsto> tz\<lparr>state := THREAD_RUNNING\<rparr>)) m \<and>
    (\<forall>p. p \<notin> set xs \<and> p \<notin> set (us @ z # vs) \<longrightarrow> m p = tcbs s p)"
proof -
  let ?s = "(lock_postpone s)\<lparr>timer_tick := timer_tick s + 1\<rparr>"
  obtain l where l: "threads_sleeping s = Some l" "tlist (tcbs s) l (us @ z # vs)" using assms(4) by (auto simp: tview_def)
  have sz: "size l > 0" using tlist_size_zero [OF l(2)] by (simp add: word_less_nat_alt)
  from pit_loop_wakes [of ?s xs l us z vs tz] assms l obtain m q l' where
    p: "pit_loop (head l) ?s = Some (Inr (?s\<lparr>tcbs := m, threads_ready := q, threads_sleeping := Some l'\<rparr>))"
    "tview q m (xs @ [z])" "tlist m (l'\<lparr>size := word_of_nat (length (us @ vs))\<rparr>) (us @ vs)"
    "same_cores ((tcbs s)(z \<mapsto> tz\<lparr>state := THREAD_RUNNING\<rparr>)) m"
    "\<forall>p. p \<notin> set xs \<and> p \<notin> set (us @ z # vs) \<longrightarrow> m p = tcbs s p"
    by auto
  have "pit_interrupt s = (let s2 = after_tick s m q (Some l')
      in unlock_postpone_and_schedule
        (if current_running_tcb s \<noteq> 0 \<and> sint (timer_tick s + 1) mod 3 = 0 then s2\<lparr>task_switches_postponed_flag := 1\<rparr> else s2))"
    using p(1) l(1) sz assms(1) by (simp add: pit_interrupt_def after_tick_def schedule_postponed Let_def)
  then show ?thesis using p(2-5) by blast
qed

lemma pit_interrupt_wakes:
  assumes "at_rest s" and "sint (timer_tick s + 1) mod 3 \<noteq> 0"
    and "ready_threads s xs" and "tview (threads_sleeping s) (tcbs s) (us @ z # vs)"
    and "set xs \<inter> set (us @ z # vs) = {}"
    and "\<forall>u \<in> set us. \<forall>t. tcbs s u = Some t \<longrightarrow> sint (timer_tick s + 1) < sint (paused_until t)"
    and "tcbs s z = Some tz" and "sint (paused_until tz) \<le> sint (timer_tick s + 1)"
  shows "\<exists>m q l'. pit_interrupt s = Inr (s\<lparr>timer_tick := timer_tick s + 1, irq_on := True, tcbs := m, threads_ready := q,
      threads_sleeping := Some l'\<rparr>) \<and>
    tview q m (xs @ [z]) \<and> tlist m (l'\<lparr>size := word_of_nat (length (us @ vs))\<rparr>) (us @ vs) \<and>
    same_cores ((tcbs s)(z \<mapsto> tz\<lparr>state := THREAD_RUNNING\<rparr>)) m \<and>
    (\<forall>p. p \<notin> set xs \<and> p \<notin> set (us @ z # vs) \<longrightarrow> m p = tcbs s p)"
proof -
  from pit_interrupt_loop [of s xs us z vs tz] assms obtain m q l' where
    p: "pit_interrupt s = unlock_postpone_and_schedule (after_tick s m q (Some l'))"
    "tview q m (xs @ [z])" "tlist m (l'\<lparr>size := word_of_nat (length (us @ vs))\<rparr>) (us @ vs)"
    "same_cores ((tcbs s)(z \<mapsto> tz\<lparr>state := THREAD_RUNNING\<rparr>)) m"
    "\<forall>p. p \<notin> set xs \<and> p \<notin> set (us @ z # vs) \<longrightarrow> m p = tcbs s p"
    by (auto simp: at_rest_def)
  have "unlock_postpone_and_schedule (after_tick s m q (Some l')) = Inr (s\<lparr>timer_tick := timer_tick s + 1, irq_on := True,
      tcbs := m, threads_ready := q, threads_sleeping := Some l'\<rparr>)"
    using assms(1) by (cases s) (simp add: unlock_quiet at_rest_def lock_postpone_def after_tick_def)
  then show ?thesis using p by metis
qed

text \<open>The end of the interrupt, with and without a switch.\<close>

lemma after_tick_quiet:
  assumes "interruptible s c xs" and "\<not> (c \<noteq> 0 \<and> sint (timer_tick s + 1) mod 3 = 0)"
  shows "\<exists>s'. unlock_postpone_and_schedule (after_tick s m q l) = Inr s' \<and> halted s' = halted s \<and>
    timer_tick s' = timer_tick s + 1 \<and> current_running_tcb s' = c \<and> tcbs s' = m \<and> threads_ready s' = q \<and>
    threads_sleeping s' = l \<and> postpone_task_switches_counter s' = 0 \<and> task_switches_postponed_flag s' = 0 \<and>
    IRQ_disable_counter s' = IRQ_disable_counter s"
  using assms
  by (simp add: unlock_postpone_and_schedule_def finish_unlock_def interruptible_def Let_def split: if_splits)

lemma after_tick_switch:
  assumes "interruptible s c xs" and "c \<noteq> 0" and "tview q m (y # ys)" and "c \<notin> set (y # ys)"
    and "m c = Some tc" and "state tc = THREAD_RUNNING"
  shows "\<exists>s' m' q'. unlock_postpone_and_schedule ((after_tick s m q l)\<lparr>task_switches_postponed_flag := 1\<rparr>) = Inr s' \<and>
    halted s' = halted s \<and> timer_tick s' = timer_tick s + 1 \<and> current_running_tcb s' = y \<and> tcbs s' = m' \<and>
    threads_ready s' = q' \<and> threads_sleeping s' = l \<and> postpone_task_switches_counter s' = 0 \<and>
    task_switches_postponed_flag s' = 0 \<and> IRQ_disable_counter s' = 0 \<and> tview q' m' (ys @ [c]) \<and> same_cores m m' \<and>
    (\<forall>p. p \<notin> set ys \<and> p \<noteq> c \<longrightarrow> m' p = m p)"
proof -
  let ?s = "(after_tick s m q l)\<lparr>task_switches_postponed_flag := 1\<rparr>"
  have "locked ?s" using assms(1,2) by (simp add: interruptible_def locked_def)
  from unlock_next [OF this, of c tc y ys] assms show ?thesis by (fastforce simp: interruptible_def)
qed

text \<open>C31: A timer interrupt, whether a thread runs or the processor waits in the hlt loop,
  moves the first sleeper whose time has come to the end of the ready queue, and no other
  one, even if their time has come too; it changes no other state of a thread. On every
  third tick it also ends the time slice of the running thread, which goes behind the woken
  one, and the first ready thread runs, the woken one when it is alone. The running thread
  is in none of the two queues, and the list of sleepers records its right size.\<close>
theorem pit_interrupt_wakes_one:
  assumes "interruptible s c xs" and "tview (threads_sleeping s) (tcbs s) (us @ z # vs)"
    and "set (c # xs) \<inter> set (us @ z # vs) = {}"
    and "\<forall>u \<in> set us. \<forall>t. tcbs s u = Some t \<longrightarrow> sint (timer_tick s + 1) < sint (paused_until t)"
    and "tcbs s z = Some tz" and "sint (paused_until tz) \<le> sint (timer_tick s + 1)"
  shows "\<exists>s' l'. pit_interrupt s = Inr s' \<and> timer_tick s' = timer_tick s + 1 \<and> halted s' = halted s \<and>
    (if c \<noteq> 0 \<and> sint (timer_tick s + 1) mod 3 = 0
     then current_running_tcb s' = hd (xs @ [z]) \<and> ready_threads s' (tl (xs @ [z]) @ [c])
     else current_running_tcb s' = c \<and> ready_threads s' (xs @ [z])) \<and>
    threads_sleeping s' = Some l' \<and> chain (tcbs s') (head l') (us @ vs) \<and>
    (\<forall>p. tstatus s' p = (if p = z then Some THREAD_RUNNING else tstatus s p)) \<and>
    postpone_task_switches_counter s' = 0 \<and> task_switches_postponed_flag s' = 0 \<and>
    IRQ_disable_counter s' = IRQ_disable_counter s"
proof -
  have i: "postpone_task_switches_counter s = 0" "IRQ_disable_counter s + 1 \<noteq> 0" "ready_threads s xs"
    "current_running_tcb s = c"
    using assms(1) by (auto simp: interruptible_def split: if_splits)
  let ?switch = "c \<noteq> 0 \<and> sint (timer_tick s + 1) mod 3 = 0"
  from pit_interrupt_loop [OF i(1-3) assms(2) _ assms(4-6)] assms(3) i(4) obtain m q l' where
    p: "pit_interrupt s = unlock_postpone_and_schedule
        (if ?switch then (after_tick s m q (Some l'))\<lparr>task_switches_postponed_flag := 1\<rparr> else after_tick s m q (Some l'))"
    "tview q m (xs @ [z])" "chain m (head l') (us @ vs)"
    "same_cores ((tcbs s)(z \<mapsto> tz\<lparr>state := THREAD_RUNNING\<rparr>)) m"
    by (auto simp: Let_def tlist_def)
  have stat: "map_option state (m p) = (if p = z then Some THREAD_RUNNING else tstatus s p)" for p
    using same_cores_status [OF p(4), of p] by (simp add: tstatus_def)
  show ?thesis
  proof (cases ?switch)
    case False
    from after_tick_quiet [OF assms(1) False, of m q "Some l'"] p(1) False obtain s' where
      s': "pit_interrupt s = Inr s'" "halted s' = halted s" "timer_tick s' = timer_tick s + 1" "current_running_tcb s' = c"
      "tcbs s' = m" "threads_ready s' = q" "threads_sleeping s' = Some l'" "postpone_task_switches_counter s' = 0"
      "task_switches_postponed_flag s' = 0" "IRQ_disable_counter s' = IRQ_disable_counter s"
      by auto
    then show ?thesis using p(2,3) stat False
      by (intro exI [of _ s'] exI [of _ l']) (auto simp: tstatus_def simp del: map_option_eq_Some)
  next
    case True
    have c: "c \<noteq> z" "c \<notin> set xs" "tstatus s c = Some THREAD_RUNNING" "IRQ_disable_counter s = 0"
      using assms(1,3) True by (auto simp: interruptible_def)
    then obtain tc where tc: "m c = Some tc" "state tc = THREAD_RUNNING" using stat [of c] by auto
    obtain y ys where y: "xs @ [z] = y # ys" by (cases "xs @ [z]") auto
    have c_out: "c \<notin> set (y # ys)" unfolding y [symmetric] using c by simp
    have sub: "set ys \<subseteq> set xs \<union> {z}" using y by (metis Un_insert_right empty_set list.simps(15) set_append set_subset_Cons sup_bot_right)
    from after_tick_switch [of s c xs q m y ys tc "Some l'"] assms(1) c_out tc p(1,2) y True obtain s' m' q' where
      s': "pit_interrupt s = Inr s'" "halted s' = halted s" "timer_tick s' = timer_tick s + 1" "current_running_tcb s' = y"
      "tcbs s' = m'" "threads_ready s' = q'" "threads_sleeping s' = Some l'" "postpone_task_switches_counter s' = 0"
      "task_switches_postponed_flag s' = 0" "IRQ_disable_counter s' = 0" "tview q' m' (ys @ [c])" "same_cores m m'"
      "\<forall>p. p \<notin> set ys \<and> p \<noteq> c \<longrightarrow> m' p = m p"
      by auto
    have d: "distinct (us @ z # vs)" using assms(2) by (auto simp: tview_def tlist_def)
    have "chain m' (head l') (us @ vs)"
    proof (rule seg_chain_cong [THEN iffD2, OF _ p(3)])
      show "m' p = m p" if "p \<in> set (us @ vs)" for p using that s'(13) sub d assms(3) by auto
    qed
    moreover have "map_option state (m' p) = map_option state (m p)" for p using same_cores_status [OF s'(12)] .
    ultimately show ?thesis using s' stat y True c
      by (intro exI [of _ s'] exI [of _ l']) (simp add: tstatus_def del: map_option_eq_Some)
  qed
qed

section \<open>A wake-up that comes too early\<close>

lemma preempt_next:
  assumes "at_rest s" and "current_running_tcb s = c" and "c \<noteq> 0" and "tcbs s c = Some tc"
    and "ready_threads s (x # xs)" and "state tc = THREAD_RUNNING \<longrightarrow> c \<notin> set (x # xs)"
  shows "\<exists>m q k. preempt s = Inr (s\<lparr>tcbs := m, threads_ready := q, current_running_tcb := x, cr3_reg := k,
      last_read_tick := timer_tick s, irq_on := True\<rparr>) \<and>
    tview q m (if state tc = THREAD_RUNNING then xs @ [c] else xs) \<and> same_cores (tcbs s) m \<and>
    (\<forall>p. p \<notin> set xs \<and> p \<noteq> c \<longrightarrow> m p = tcbs s p)"
proof -
  let ?s = "(lock_postpone s)\<lparr>task_switches_postponed_flag := 1\<rparr>"
  have "locked ?s" using locked_lock [OF assms(1)] by (simp add: locked_def)
  from unlock_next [OF this, of c tc x xs] assms obtain m q k where
    u: "unlock_postpone_and_schedule ?s = Inr (?s\<lparr>tcbs := m, threads_ready := q, current_running_tcb := x,
      cr3_reg := k, last_read_tick := timer_tick s, IRQ_disable_counter := 0, postpone_task_switches_counter := 0,
      task_switches_postponed_flag := 0, irq_on := True\<rparr>)"
    "tview q m (if state tc = THREAD_RUNNING then xs @ [c] else xs)" "same_cores (tcbs s) m"
    "\<forall>p. p \<notin> set xs \<and> p \<noteq> c \<longrightarrow> m p = tcbs s p"
    by auto
  moreover have "preempt s = unlock_postpone_and_schedule ?s"
    using assms(1) by (simp add: preempt_def schedule_def at_rest_def)
  moreover have "?s\<lparr>tcbs := m, threads_ready := q, current_running_tcb := x, cr3_reg := k, last_read_tick := timer_tick s,
      IRQ_disable_counter := 0, postpone_task_switches_counter := 0, task_switches_postponed_flag := 0, irq_on := True\<rparr>
    = s\<lparr>tcbs := m, threads_ready := q, current_running_tcb := x, cr3_reg := k, last_read_tick := timer_tick s, irq_on := True\<rparr>"
    using assms(1) by (cases s) (simp add: at_rest_def lock_postpone_def)
  ultimately show ?thesis by metis
qed

lemma block_task_next:
  assumes "at_rest s" and "current_running_tcb s = c" and "c \<noteq> 0" and "tcbs s c = Some tc"
    and "ready_threads s (x # xs)" and "r \<noteq> THREAD_RUNNING"
  shows "\<exists>m q k. block_task r s = Inr (s\<lparr>tcbs := m, threads_ready := q, current_running_tcb := x, cr3_reg := k,
      last_read_tick := timer_tick s, irq_on := True\<rparr>) \<and>
    tview q m xs \<and> same_cores ((tcbs s)(c \<mapsto> tc\<lparr>state := r\<rparr>)) m \<and> (\<forall>p. p \<noteq> c \<longrightarrow> m p = tcbs s p)"
proof -
  let ?m = "(tcbs s)(c \<mapsto> tc\<lparr>state := r\<rparr>)"
  let ?s = "(lock_postpone s)\<lparr>tcbs := ?m, task_switches_postponed_flag := 1\<rparr>"
  have "locked ?s" using locked_lock [OF assms(1)] by (simp add: locked_def)
  moreover have "ready_threads ?s (x # xs)" using assms(4,5) by (simp add: tview_same_link)
  ultimately obtain m q k where
    u: "unlock_postpone_and_schedule ?s = Inr (?s\<lparr>tcbs := m, threads_ready := q, current_running_tcb := x,
      cr3_reg := k, last_read_tick := timer_tick s, IRQ_disable_counter := 0, postpone_task_switches_counter := 0,
      task_switches_postponed_flag := 0, irq_on := True\<rparr>)" "tview q m xs" "same_cores ?m m"
    "\<forall>p. p \<noteq> c \<longrightarrow> m p = tcbs s p"
    using unlock_next [of ?s c "tc\<lparr>state := r\<rparr>" x xs] assms by auto
  moreover have "block_task r s = unlock_postpone_and_schedule ?s"
    using assms(1,2,4) by (simp add: block_task_def schedule_def at_rest_def)
  moreover have "?s\<lparr>tcbs := m, threads_ready := q, current_running_tcb := x, cr3_reg := k, last_read_tick := timer_tick s,
      IRQ_disable_counter := 0, postpone_task_switches_counter := 0, task_switches_postponed_flag := 0, irq_on := True\<rparr>
    = s\<lparr>tcbs := m, threads_ready := q, current_running_tcb := x, cr3_reg := k, last_read_tick := timer_tick s, irq_on := True\<rparr>"
    using assms(1) by (cases s) (simp add: at_rest_def lock_postpone_def)
  ultimately show ?thesis by metis
qed

lemma mili_sleep_begin_queues:
  assumes "at_rest s" and "current_running_tcb s = c" and "c \<noteq> 0" and "tcbs s c = Some tc"
    and "threads_sleeping s = Some l" and "tlist (tcbs s) l zs" and "c \<notin> set zs" and "sint (timer_tick s) \<le> sint until"
  shows "\<exists>m l' n. mili_sleep_begin until s = Inr (True, s\<lparr>tcbs := m, threads_sleeping := Some l', irq_on := True\<rparr>) \<and>
    tlist m l' (zs @ [c]) \<and> m c = Some (tc\<lparr>next_tcb := n, paused_until := until\<rparr>) \<and>
    same_cores ((tcbs s)(c \<mapsto> tc\<lparr>paused_until := until\<rparr>)) m \<and>
    (\<forall>q. q \<notin> set zs \<and> q \<noteq> c \<longrightarrow> m q = tcbs s q)"
proof -
  let ?m = "(tcbs s)(c \<mapsto> tc\<lparr>paused_until := until\<rparr>)"
  have "tlist ?m l zs" by (rule tlist_cong [OF assms(6)]) (use assms(7) in auto)
  from push_back_tlist [OF this _ assms(3,7), of "tc\<lparr>paused_until := until\<rparr>"] obtain l' m where
    p: "list_thread_push_back (Some l) c ?m = Inr (0, Some l', m)" "tlist m l' (zs @ [c])" "links_only ?m m"
    "\<forall>q. q \<notin> set zs \<and> q \<noteq> c \<longrightarrow> m q = ?m q"
    by auto
  obtain n where "m c = Some (tc\<lparr>paused_until := until\<rparr>\<lparr>next_tcb := n\<rparr>)"
    using links_only_state [OF p(3), of c "tc\<lparr>paused_until := until\<rparr>"] by auto
  moreover have "tc\<lparr>paused_until := until\<rparr>\<lparr>next_tcb := n\<rparr> = tc\<lparr>next_tcb := n, paused_until := until\<rparr>" by simp
  moreover have "mili_sleep_begin until s = Inr (True, s\<lparr>tcbs := m, threads_sleeping := Some l', irq_on := True\<rparr>)"
    using assms p(1) by (cases s)
      (simp add: mili_sleep_begin_def Let_def unlock_quiet at_rest_def lock_postpone_def)
  ultimately show ?thesis using p(2,4) links_only_cores [OF p(3)] by (intro exI [of _ m] exI [of _ l'] exI [of _ n]) simp
qed

text \<open>Time slices, one after the other, until a thread further back in the queue runs.\<close>

fun preempts :: "nat \<Rightarrow> sched \<Rightarrow> sched res" where
  "preempts 0 s = Inr s"
| "preempts (Suc n) s = res_bind (preempt s) (preempts n)"

lemma preempts_reach:
  assumes "at_rest s" and "current_running_tcb s = y" and "y \<noteq> 0" and "\<forall>p \<in> set (y # ys). tstatus s p = Some THREAD_RUNNING"
    and "ready_threads s (ys @ c # zs)" and "distinct (y # ys @ c # zs)"
  shows "\<exists>s'. preempts (Suc (length ys)) s = Inr s' \<and> at_rest s' \<and> current_running_tcb s' = c \<and>
    ready_threads s' (zs @ y # ys) \<and> threads_sleeping s' = threads_sleeping s \<and> same_cores (tcbs s) (tcbs s') \<and>
    (\<forall>p. p \<notin> set (y # ys @ c # zs) \<longrightarrow> tcbs s' p = tcbs s p)"
  using assms
proof (induction ys arbitrary: s y zs)
  case Nil
  obtain ty where "tcbs s y = Some ty" "state ty = THREAD_RUNNING" using Nil.prems(4) by (auto simp: tstatus_def)
  with preempt_next [OF Nil.prems(1-3), of ty c zs] Nil.prems(1,5,6) show ?case by (fastforce simp: at_rest_def)
next
  case (Cons v vs)
  obtain ty where ty: "tcbs s y = Some ty" "state ty = THREAD_RUNNING" using Cons.prems(4) by (auto simp: tstatus_def)
  have r: "ready_threads s (v # vs @ c # zs)" using Cons.prems(5) by simp
  from preempt_next [OF Cons.prems(1-3) ty(1) r] ty(2) Cons.prems(6) obtain m q k where
    u: "preempt s = Inr (s\<lparr>tcbs := m, threads_ready := q, current_running_tcb := v, cr3_reg := k,
      last_read_tick := timer_tick s, irq_on := True\<rparr>)" "tview q m ((vs @ c # zs) @ [y])" "same_cores (tcbs s) m"
    "\<forall>p. p \<notin> set (vs @ c # zs) \<and> p \<noteq> y \<longrightarrow> m p = tcbs s p"
    by auto
  let ?s = "s\<lparr>tcbs := m, threads_ready := q, current_running_tcb := v, cr3_reg := k, last_read_tick := timer_tick s, irq_on := True\<rparr>"
  have "v \<noteq> 0" using ready.view_known [OF r, of v] by (simp add: known_tcb_def)
  moreover have "\<forall>p \<in> set (v # vs). tstatus ?s p = Some THREAD_RUNNING"
    using Cons.prems(4) same_cores_status [OF u(3)] by (simp add: tstatus_def del: map_option_eq_Some)
  ultimately obtain s' where s': "preempts (Suc (length vs)) ?s = Inr s'" "at_rest s'" "current_running_tcb s' = c"
    "ready_threads s' ((zs @ [y]) @ v # vs)" "threads_sleeping s' = threads_sleeping s" "same_cores m (tcbs s')"
    "\<forall>p. p \<notin> set (v # vs @ c # zs @ [y]) \<longrightarrow> tcbs s' p = m p"
    using Cons.IH [of ?s v "zs @ [y]"] Cons.prems(1,6) u(2) by (auto simp: at_rest_def)
  have "\<forall>p. p \<notin> set (y # (v # vs) @ c # zs) \<longrightarrow> tcbs s' p = tcbs s p" using s'(7) u(4) by auto
  then show ?case using s' u(1) same_cores_trans [OF u(3) s'(6)] by auto
qed

text \<open>
  Between queueing itself among the sleepers and blocking, a thread can be interrupted by the very
  tick that wakes it. It then blocks although it is in the ready queue, runs once more marked as
  sleeping, and at the end of that time slice is in no queue at all.
\<close>

lemma interrupted_sleep:
  assumes "at_rest s" and "current_running_tcb s = c" and "c \<noteq> 0" and "tstatus s c = Some THREAD_RUNNING"
    and "ready_threads s (y # ys)" and "c \<notin> set (y # ys)"
    and "tview (threads_sleeping s) (tcbs s) zs" and "set (c # y # ys) \<inter> set zs = {}"
    and "\<forall>z \<in> set zs. \<forall>t. tcbs s z = Some t \<longrightarrow> sint (timer_tick s + 1) < sint (paused_until t)"
    and "sint (timer_tick s) \<le> sint u" and "sint u \<le> sint (timer_tick s + 1)" and "sint (timer_tick s + 1) mod 3 \<noteq> 0"
  shows "\<exists>s1 s2 s3 l. mili_sleep_begin u s = Inr (True, s1) \<and> irq_on s1 \<and> pit_interrupt s1 = Inr s2 \<and>
    block_task THREAD_SLEEPING s2 = Inr s3 \<and> at_rest s3 \<and> current_running_tcb s3 = y \<and> ready_threads s3 (ys @ [c]) \<and>
    threads_sleeping s3 = Some l \<and> chain (tcbs s3) (head l) zs \<and>
    (\<forall>p. tstatus s3 p = (if p = c then Some THREAD_SLEEPING else tstatus s p))"
proof -
  obtain l where l: "threads_sleeping s = Some l" "tlist (tcbs s) l zs" using assms(7) by (auto simp: tview_def)
  obtain tc where tc: "tcbs s c = Some tc" "state tc = THREAD_RUNNING" using assms(4) by (auto simp: tstatus_def)
  obtain m1 l1 n1 where b: "mili_sleep_begin u s = Inr (True, s\<lparr>tcbs := m1, threads_sleeping := Some l1, irq_on := True\<rparr>)"
    "tlist m1 l1 (zs @ [c])" "m1 c = Some (tc\<lparr>next_tcb := n1, paused_until := u\<rparr>)"
    "same_cores ((tcbs s)(c \<mapsto> tc\<lparr>paused_until := u\<rparr>)) m1" "\<forall>q. q \<notin> set zs \<and> q \<noteq> c \<longrightarrow> m1 q = tcbs s q"
    using mili_sleep_begin_queues [OF assms(1-3) tc(1) l _ assms(10)] assms(8) by auto
  let ?t1 = "tc\<lparr>next_tcb := n1, paused_until := u\<rparr>"
  let ?s1 = "s\<lparr>tcbs := m1, threads_sleeping := Some l1, irq_on := True\<rparr>"
  have st1: "map_option state (m1 p) = tstatus s p" for p
    using same_cores_status [OF b(4), of p] tc by (simp add: tstatus_def)
  have r1: "ready_threads ?s1 (y # ys)"
    by simp (rule tview_cong [OF assms(5)], use b(5) assms(6,8) in auto)
  have later: "\<forall>z \<in> set zs. \<forall>t. m1 z = Some t \<longrightarrow> sint (timer_tick ?s1 + 1) < sint (paused_until t)"
  proof (intro ballI allI impI)
    fix z t assume z: "z \<in> set zs" "m1 z = Some t"
    have "z \<noteq> c" using z(1) assms(8) by auto
    then have "map_option core (m1 z) = map_option core (tcbs s z)" using b(4) by (simp add: same_cores_def)
    with z(2) obtain t' where t': "tcbs s z = Some t'" "core t' = core t" by (cases "tcbs s z") auto
    then have "paused_until t = paused_until t'" by (cases t; cases t') (simp add: core_def)
    then show "sint (timer_tick ?s1 + 1) < sint (paused_until t)" using assms(9) z(1) t'(1) by simp
  qed
  have rest1: "at_rest ?s1" using assms(1) by (simp add: at_rest_def)
  have tick: "sint (timer_tick ?s1 + 1) mod 3 \<noteq> 0" "sint (paused_until ?t1) \<le> sint (timer_tick ?s1 + 1)"
    using assms(11,12) by simp_all
  have sl1: "tview (threads_sleeping ?s1) (tcbs ?s1) (zs @ c # [])" using b(2) by (simp add: tview_def)
  have dis1: "set (y # ys) \<inter> set (zs @ c # []) = {}" using assms(6,8) by auto
  have c1: "tcbs ?s1 c = Some ?t1" using b(3) by simp
  have later1: "\<forall>z \<in> set zs. \<forall>t. tcbs ?s1 z = Some t \<longrightarrow> sint (timer_tick ?s1 + 1) < sint (paused_until t)"
    using later by simp
  from pit_interrupt_wakes [OF rest1 tick(1) r1 sl1 dis1 later1 c1 tick(2)] obtain m2 q2 l2 where
    p: "pit_interrupt ?s1 = Inr (?s1\<lparr>timer_tick := timer_tick s + 1, irq_on := True, tcbs := m2,
      threads_ready := q2, threads_sleeping := Some l2\<rparr>)" "tview q2 m2 (y # ys @ [c])"
    "tlist m2 (l2\<lparr>size := word_of_nat (length zs)\<rparr>) zs" "same_cores (m1(c \<mapsto> ?t1\<lparr>state := THREAD_RUNNING\<rparr>)) m2"
    by auto
  let ?s2 = "?s1\<lparr>timer_tick := timer_tick s + 1, irq_on := True, tcbs := m2, threads_ready := q2, threads_sleeping := Some l2\<rparr>"
  have st2: "map_option state (m2 p) = (if p = c then Some THREAD_RUNNING else tstatus s p)" for p
    using same_cores_status [OF p(4), of p] st1 by simp
  obtain t2 where t2: "m2 c = Some t2" using st2 [of c] by (cases "m2 c") simp_all
  have "at_rest ?s2" using assms(1) by (simp add: at_rest_def)
  from block_task_next [OF this _ assms(3), of t2 y "ys @ [c]" THREAD_SLEEPING] t2 p(2) assms(2) obtain m3 q3 k3 where
    k: "block_task THREAD_SLEEPING ?s2 = Inr (?s2\<lparr>tcbs := m3, threads_ready := q3, current_running_tcb := y,
      cr3_reg := k3, last_read_tick := timer_tick s + 1, irq_on := True\<rparr>)" "tview q3 m3 (ys @ [c])"
    "same_cores (m2(c \<mapsto> t2\<lparr>state := THREAD_SLEEPING\<rparr>)) m3" "\<forall>p. p \<noteq> c \<longrightarrow> m3 p = m2 p"
    by auto
  let ?s3 = "?s2\<lparr>tcbs := m3, threads_ready := q3, current_running_tcb := y, cr3_reg := k3,
      last_read_tick := timer_tick s + 1, irq_on := True\<rparr>"
  have ch: "chain m3 (head l2) zs"
  proof (rule seg_chain_cong [THEN iffD2])
    show "m3 z = m2 z" if "z \<in> set zs" for z using that k(4) assms(8) by auto
    show "chain m2 (head l2) zs" using p(3) by (simp add: tlist_def)
  qed
  have st3: "tstatus ?s3 z = (if z = c then Some THREAD_SLEEPING else tstatus s z)" for z
    using same_cores_status [OF k(3), of z] st2 [of z] by (simp add: tstatus_def)
  have "at_rest ?s3" using assms(1) by (simp add: at_rest_def)
  then show ?thesis
    using b(1) p(1) k(1,2) ch st3
    by (intro exI [of _ ?s1] exI [of _ ?s2] exI [of _ ?s3] exI [of _ l2]) simp
qed

text \<open>C32: Let a thread call mili_sleep_until for the current or the next tick while other
  running threads are ready and no sleeper is due, and let the next tick, one that does not
  also end a time slice, arrive when the first half has queued it among the sleepers and
  enabled interrupts. The tick wakes it, it blocks although it is ready, it gets the
  processor once more after the threads before it, still marked as sleeping, and when that
  time slice ends it is neither ready nor among the sleepers.\<close>
theorem sleep_race_loses_thread:
  assumes "at_rest s" and "current_running_tcb s = c" and "c \<noteq> 0" and "tstatus s c = Some THREAD_RUNNING"
    and "ready_threads s (y # ys)" and "\<forall>p \<in> set (y # ys). tstatus s p = Some THREAD_RUNNING" and "c \<notin> set (y # ys)"
    and "tview (threads_sleeping s) (tcbs s) zs" and "set (c # y # ys) \<inter> set zs = {}"
    and "\<forall>z \<in> set zs. \<forall>t. tcbs s z = Some t \<longrightarrow> sint (timer_tick s + 1) < sint (paused_until t)"
    and "sint (timer_tick s) \<le> sint u" and "sint u \<le> sint (timer_tick s + 1)" and "sint (timer_tick s + 1) mod 3 \<noteq> 0"
  shows "\<exists>s1 s2 s3 s4 s5 l. mili_sleep_begin u s = Inr (True, s1) \<and> irq_on s1 \<and> pit_interrupt s1 = Inr s2 \<and>
    block_task THREAD_SLEEPING s2 = Inr s3 \<and> preempts (length (y # ys)) s3 = Inr s4 \<and> current_running_tcb s4 = c \<and>
    preempt s4 = Inr s5 \<and> current_running_tcb s5 = y \<and> ready_threads s5 ys \<and>
    threads_sleeping s5 = Some l \<and> chain (tcbs s5) (head l) zs \<and> tstatus s5 c = Some THREAD_SLEEPING"
proof -
  from interrupted_sleep [OF assms(1-5,7-13)] obtain s1 s2 s3 l where
    b: "mili_sleep_begin u s = Inr (True, s1)" "irq_on s1" "pit_interrupt s1 = Inr s2" "block_task THREAD_SLEEPING s2 = Inr s3"
    "at_rest s3" "current_running_tcb s3 = y" "ready_threads s3 (ys @ [c])" "threads_sleeping s3 = Some l"
    "chain (tcbs s3) (head l) zs" "\<forall>p. tstatus s3 p = (if p = c then Some THREAD_SLEEPING else tstatus s p)"
    by blast
  have y: "y \<noteq> 0" using ready.view_known [OF assms(5), of y] by (simp add: known_tcb_def)
  have d: "distinct (y # ys @ c # [])" using assms(5,7) by (auto simp: tview_def tlist_def)
  have run: "\<forall>p \<in> set (y # ys). tstatus s3 p = Some THREAD_RUNNING" using b(10) assms(6,7) by (metis (no_types))
  have c3: "tstatus s3 c = Some THREAD_SLEEPING" using b(10) by simp
  from preempts_reach [OF b(5,6) y run b(7) d] obtain s4 where
    r: "preempts (Suc (length ys)) s3 = Inr s4" "at_rest s4" "current_running_tcb s4 = c" "ready_threads s4 (y # ys)"
    "threads_sleeping s4 = threads_sleeping s3" "same_cores (tcbs s3) (tcbs s4)"
    "\<forall>p. p \<notin> set (y # ys @ [c]) \<longrightarrow> tcbs s4 p = tcbs s3 p"
    by auto
  obtain t4 where t4: "tcbs s4 c = Some t4" "state t4 = THREAD_SLEEPING"
    using same_cores_status [OF r(6), of c] c3 by (auto simp: tstatus_def)
  from preempt_next [OF r(2,3) assms(3) t4(1) r(4)] t4(2) obtain m5 q5 k5 where
    g: "preempt s4 = Inr (s4\<lparr>tcbs := m5, threads_ready := q5, current_running_tcb := y, cr3_reg := k5,
      last_read_tick := timer_tick s4, irq_on := True\<rparr>)" "tview q5 m5 ys" "same_cores (tcbs s4) m5"
    "\<forall>p. p \<notin> set ys \<and> p \<noteq> c \<longrightarrow> m5 p = tcbs s4 p"
    by auto
  have ch: "chain m5 (head l) zs"
  proof (rule seg_chain_cong [THEN iffD2, OF _ b(9)])
    show "m5 z = tcbs s3 z" if "z \<in> set zs" for z
    proof -
      have "z \<notin> set (y # ys @ [c])" using that assms(9) by auto
      then show ?thesis using g(4) r(7) by simp
    qed
  qed
  have "map_option state (m5 c) = Some THREAD_SLEEPING" using same_cores_status [OF g(3), of c] t4 by simp
  then show ?thesis
    using b(1-4,8) r(1,3,5) g(1,2) ch
    by (intro exI [of _ s1] exI [of _ s2] exI [of _ s3] exI [of _ s4] exI [of _ l] exI) (auto simp: tstatus_def)
qed

section \<open>The butler in the queue twice\<close>

text \<open>Taking the front of a chain whose recorded size is larger than one.\<close>

lemma pop_front_chain:
  assumes "chain m (head l) (x # xs)" and "1 < unat (size l)"
  shows "\<exists>n. list_thread_pop_front (Some l) m = Inr (x, Some (l\<lparr>head := n, size := size l - 1\<rparr>)) \<and> chain m n xs"
proof -
  have "\<not> size l < 1" "size l \<noteq> 1" using assms(2) by (auto simp: word_less_nat_alt)
  moreover obtain t where "m x = Some t" "chain m (next_tcb t) xs" "head l = x"
    using assms(1) by (auto split: option.splits)
  ultimately show ?thesis by (auto simp: list_thread_pop_front_def)
qed

text \<open>
  \<^verbatim>\<open>terminate_task\<close> queues the butler without looking whether it is ready already. When it is,
  every thread that was ready behind it falls out of the queue.
\<close>

text \<open>C33: When the butler is already ready, terminate_task queues it a second time, and every
  thread behind it falls out of the ready queue.\<close>
theorem terminate_task_drops_ready:
  assumes "at_rest s" and "current_running_tcb s = c" and "known_tcb (tcbs s) c" and "butler s = b"
    and "ready_threads s (xs @ b # ys)" and "ys \<noteq> []" and "c \<notin> set (xs @ b # ys)"
    and "tview (threads_terminated s) (tcbs s) ts" and "set ts \<inter> set (c # xs @ b # ys) = {}"
  shows "\<exists>s' l'. terminate_task s = Inr s' \<and> at_rest s' \<and> current_running_tcb s' = hd (xs @ [b]) \<and>
    threads_ready s' = Some l' \<and> chain (tcbs s') (head l') (tl (xs @ [b])) \<and>
    tview (threads_terminated s') (tcbs s') (ts @ [c])"
proof -
  let ?r = "xs @ b # ys"
  obtain tc where tc: "tcbs s c = Some tc" "c \<noteq> 0" using assms(3) by (auto simp: known_tcb_def)
  obtain l where l: "threads_ready s = Some l" "tlist (tcbs s) l ?r" using assms(5) by (auto simp: tview_def)
  obtain lt where lt: "threads_terminated s = Some lt" "tlist (tcbs s) lt ts" using assms(8) by (auto simp: tview_def)
  obtain lt' m1 where p1: "list_thread_push_back (Some lt) c (tcbs s) = Inr (0, Some lt', m1)" "tlist m1 lt' (ts @ [c])"
    "links_only (tcbs s) m1" "\<forall>q. q \<notin> set ts \<and> q \<noteq> c \<longrightarrow> m1 q = tcbs s q"
    using push_back_tlist [OF lt(2) tc] assms(9) by auto
  obtain t1 where t1: "m1 c = Some t1" using links_only_state [OF p1(3) tc(1)] by blast
  let ?m2 = "m1(c \<mapsto> t1\<lparr>state := THREAD_TERMINATED\<rparr>)"
  have term2: "tlist ?m2 lt' (ts @ [c])" using p1(2) t1 by (simp add: tlist_def seg_chain_same_link)
  have "tlist ?m2 l ?r"
  proof (rule tlist_cong [OF l(2)])
    show "?m2 q = tcbs s q" if "q \<in> set ?r" for q using that assms(7,9) p1(4) by auto
  qed
  from push_back_cuts [OF this assms(6)] obtain l' m3 where
    p2: "list_thread_push_back (Some l) b ?m2 = Inr (0, Some l', m3)" "chain m3 (head l') (xs @ [b])"
    "size l' = word_of_nat (length ?r + 1)" "links_only ?m2 m3" "\<forall>q. q \<notin> set ?r \<longrightarrow> m3 q = ?m2 q"
    by blast
  obtain tb where tb: "m3 b = Some tb" "b \<noteq> 0" using seg_chain_valid [OF p2(2), of b] by auto
  let ?m4 = "m3(b \<mapsto> tb\<lparr>state := THREAD_RUNNING\<rparr>)"
  have ch: "chain ?m4 (head l') (xs @ [b])" using p2(2) tb(1) by (simp add: seg_chain_same_link)
  have c4: "?m4 c = Some (t1\<lparr>state := THREAD_TERMINATED\<rparr>)" using p2(5) assms(7) by auto
  have term4: "tlist ?m4 lt' (ts @ [c])"
  proof (rule tlist_cong [OF term2])
    show "?m4 q = ?m2 q" if "q \<in> set (ts @ [c])" for q using that p2(5) assms(7,9) by auto
  qed
  obtain h rest where hr: "xs @ [b] = h # rest" by (cases "xs @ [b]") auto
  have hsize: "1 < unat (size l')"
  proof -
    have "distinct (c # ?r)" using l(2) assms(7) by (simp add: tlist_def)
    moreover have "0 \<notin> set (c # ?r)" using tlist_valid [OF l(2)] tc(2) by (metis set_ConsD)
    ultimately have "length (c # ?r) < 4294967296" by (rule distinct_u32_length)
    then have "unat (word_of_nat (length ?r + 1) :: u32) = length ?r + 1" by (intro u32_of_nat) simp
    then have "unat (size l') = length ?r + 1" by (simp only: p2(3))
    then show ?thesis using assms(6) by simp
  qed
  from pop_front_chain [of ?m4 l' h rest] ch hr hsize obtain n where
    pop: "list_thread_pop_front (Some l') ?m4 = Inr (h, Some (l'\<lparr>head := n, size := size l' - 1\<rparr>))" "chain ?m4 n rest"
    by auto
  let ?l = "l'\<lparr>head := n, size := size l' - 1\<rparr>"
  have kh: "known_tcb ?m4 h" "h \<noteq> 0" using ch hr seg_chain_valid [of ?m4 "head l'" "xs @ [b]" 0 h]
    by (auto simp: known_tcb_def)
  let ?s = "s\<lparr>irq_on := False, IRQ_disable_counter := 1, postpone_task_switches_counter := 0, tcbs := ?m4,
      task_switches_postponed_flag := 0, threads_terminated := Some lt', threads_ready := Some ?l\<rparr>"
  obtain t' k where sw: "switch_to_thread h ?s = Inr (?s\<lparr>last_read_tick := timer_tick s, tcbs := ?m4(c \<mapsto> t'),
      current_running_tcb := h, cr3_reg := k\<rparr>)"
    "t' = (t1\<lparr>state := THREAD_TERMINATED\<rparr>)\<lparr>time_used := time_used (t1\<lparr>state := THREAD_TERMINATED\<rparr>) + (timer_tick s - last_read_tick s)\<rparr>"
    using switch_to_thread_eq [of ?s c "t1\<lparr>state := THREAD_TERMINATED\<rparr>" h] c4 assms(2) tc(2) kh(1) by auto
  let ?s' = "?s\<lparr>last_read_tick := timer_tick s, tcbs := ?m4(c \<mapsto> t'), current_running_tcb := h, cr3_reg := k,
      IRQ_disable_counter := 0, irq_on := True\<rparr>"
  have r: "IRQ_disable_counter s = 0" "postpone_task_switches_counter s = 0" "task_switches_postponed_flag s = 0" "halted s = None"
    using assms(1) by (simp_all add: at_rest_def)
  let ?s1 = "(lock_postpone s)\<lparr>threads_terminated := Some lt', tcbs := m1\<rparr>"
  let ?s2 = "?s1\<lparr>tcbs := ?m2, task_switches_postponed_flag := 1\<rparr>"
  let ?s3 = "?s2\<lparr>tcbs := ?m4, threads_ready := Some l'\<rparr>"
  have "block_task THREAD_TERMINATED ?s1 = Inr ?s2"
    using block_task_locked [of ?s1 t1 THREAD_TERMINATED] r t1 assms(2) by (simp add: locked_def)
  moreover have "unblock_task b ?s2 = Inr ?s3"
    using l(1) p2(1) tb(1) r
    by (simp add: unblock_task_def push_ready_def unlock_nested) (simp add: lock_postpone_def)
  moreover have "unlock_postpone_and_schedule ?s3 = Inr ?s'"
    using r pop(1) kh(2) sw(1) c4 assms(2)
    by (cases s) (simp add: unlock_postpone_and_schedule_def schedule_def pop_ready_def lock_postpone_def finish_unlock_def Let_def
        del: fun_upd_apply)
  ultimately have op: "terminate_task s = Inr ?s'"
    using lt(1) p1(1) assms(2,4) by (simp add: terminate_task_def Let_def)
  have "chain (?m4(c \<mapsto> t')) n rest" using pop(2) c4 sw(2) by (simp add: seg_chain_same_link)
  moreover have "tlist (?m4(c \<mapsto> t')) lt' (ts @ [c])" using term4 c4 sw(2) by (simp add: tlist_def seg_chain_same_link)
  ultimately show ?thesis using op r hr
    by (intro exI [of _ ?s'] exI [of _ ?l]) (simp add: at_rest_def tview_def)
qed

section \<open>Concrete states\<close>

lemma empty_tview [simp]: "tview (Some empty_list) m []"
  by (simp add: tview_def tlist_def empty_list_def)

theorem pit_interrupt_wakes_one_witness:
  "\<exists>s' l'. pit_interrupt (four_threads\<lparr>threads_ready := Some empty_list, threads_sleeping := Some three_list\<rparr>) = Inr s' \<and>
    ready_threads s' [0x10] \<and> threads_sleeping s' = Some l' \<and> chain (tcbs s') (head l') [0x20, 0x30]"
proof -
  let ?s = "four_threads\<lparr>threads_ready := Some empty_list, threads_sleeping := Some three_list\<rparr>"
  have "interruptible ?s 0x40 []" using four_fields(1) four_status [of "0x40"] by (simp add: interruptible_def at_rest_def tstatus_def)
  moreover have "three_tcbs 0x10 = Some (blank_tcb\<lparr>next_tcb := 0x20\<rparr>)" by (simp add: three_tcbs_def)
  ultimately show ?thesis
    using pit_interrupt_wakes_one [of ?s "0x40" "[]" "[]" "0x10" "[0x20, 0x30]" "blank_tcb\<lparr>next_tcb := 0x20\<rparr>"] four_ready
    by (auto simp: blank_tcb_def)
qed

theorem sleep_race_loses_thread_witness:
  "\<exists>s1 s2 s3 s4 s5. mili_sleep_begin 1 four_threads = Inr (True, s1) \<and> pit_interrupt s1 = Inr s2 \<and>
    block_task THREAD_SLEEPING s2 = Inr s3 \<and> preempts 3 s3 = Inr s4 \<and> preempt s4 = Inr s5 \<and>
    current_running_tcb s5 = 0x10 \<and> ready_threads s5 [0x20, 0x30] \<and> tstatus s5 0x40 = Some THREAD_SLEEPING"
proof -
  have "\<forall>p \<in> {0x10, 0x20, 0x30, 0x40}. tstatus four_threads p = Some THREAD_RUNNING"
    using four_status by (simp add: tstatus_def del: map_option_eq_Some)
  then show ?thesis
    using sleep_race_loses_thread [of four_threads "0x40" "0x10" "[0x20, 0x30]" "[]" 1] four_ready
    by (simp add: numeral_3_eq_3) blast
qed

theorem terminate_task_drops_ready_witness:
  "\<exists>s' l'. terminate_task four_threads = Inr s' \<and> current_running_tcb s' = 0x10 \<and>
    threads_ready s' = Some l' \<and> chain (tcbs s') (head l') []"
  using terminate_task_drops_ready [of four_threads "0x40" "0x10" "[]" "[0x20, 0x30]" "[]"] four_ready by auto

end
