(* ===== verification/Keyboard.thy ===== *)
theory Keyboard
  imports Thread_Time Console Interrupts Heap_Theorems
begin

text \<open>
  The keyboard: \<^verbatim>\<open>src/src/drivers/keyboard/keyboard.c\<close>, the queue of key packets of the focused
  thread in \<^verbatim>\<open>key_queue.c\<close>, and \<^verbatim>\<open>src/src/include/drivers/keyboard.h\<close>.
\<close>

section \<open>Scan codes\<close>

definition KEYBOARD_IRQ_LINE :: u8 where "KEYBOARD_IRQ_LINE = 1"
definition KEY_PRESSED_left_shift :: u16 where "KEY_PRESSED_left_shift = 0x2a"
definition KEY_RELEASED_left_shift :: u16 where "KEY_RELEASED_left_shift = 0xaa"
definition KEY_PRESSED_right_shift :: u16 where "KEY_PRESSED_right_shift = 0x36"
definition KEY_RELEASED_right_shift :: u16 where "KEY_RELEASED_right_shift = 0xb6"

lemmas shift_key_defs = KEY_PRESSED_left_shift_def KEY_RELEASED_left_shift_def KEY_PRESSED_right_shift_def
  KEY_RELEASED_right_shift_def

text \<open>The string literal, padded with zeros to 128 entries.\<close>

definition keymap :: "u8 list" where
  "keymap =
     [0, 27,
      49, 50, 51, 52, 53, 54, 55, 56, 57, 48, 45, 61, 8,
      9,
      113, 119, 101, 114, 116, 121, 117, 105, 111, 112, 91, 93,
      10,
      0,
      97, 115, 100, 102, 103, 104, 106, 107, 108, 59, 39, 96,
      0,
      92, 122, 120, 99, 118, 98, 110, 109, 44, 46, 47,
      0,
      42,
      0,
      32] @ replicate 70 0"

text \<open>\<^verbatim>\<open>x  - ('a' - 'A')\<close> on \<^verbatim>\<open>int\<close>, stored in a \<^verbatim>\<open>u32\<close>.\<close>

definition TO_UPPER :: "u8 \<Rightarrow> u32" where
  "TO_UPPER x = ucast x - 32"

section \<open>The queue (key\_queue.c)\<close>

definition get_keyboard_queue :: "sched \<Rightarrow> u32 res" where
  "get_keyboard_queue s =
     res_bind (thread_at ''src/drivers/keyboard/key_queue.c'' 9 (current_focus_tcb s) s) (\<lambda>t. Inr (kbp_queue t))"

definition queue_at :: "string \<Rightarrow> nat \<Rightarrow> u32 \<Rightarrow> sched \<Rightarrow> kbp_queue_t res" where
  "queue_at file line p s = deref file line (queues s) p"

definition set_queue :: "nat \<Rightarrow> u32 \<Rightarrow> (kbp_queue_t \<Rightarrow> kbp_queue_t) \<Rightarrow> sched \<Rightarrow> sched res" where
  "set_queue line p f s =
     res_bind (update_at ''src/drivers/keyboard/key_queue.c'' line p f (queues s)) (\<lambda>m. Inr (s\<lparr>queues := m\<rparr>))"

definition set_packet :: "nat \<Rightarrow> u32 \<Rightarrow> (KBP \<Rightarrow> KBP) \<Rightarrow> sched \<Rightarrow> sched res" where
  "set_packet line p f s =
     res_bind (update_at ''src/drivers/keyboard/key_queue.c'' line p f (packets s)) (\<lambda>m. Inr (s\<lparr>packets := m\<rparr>))"

text \<open>\<^verbatim>\<open>shift_pressed\<close> is bit 1 of the flags.\<close>

definition detectPressed :: "u16 \<Rightarrow> sched \<Rightarrow> sched res" where
  "detectPressed code s =
     (if code = KEY_PRESSED_left_shift \<or> code = KEY_PRESSED_right_shift then
        res_bind (get_keyboard_queue s) (\<lambda>q. set_queue 16 q (\<lambda>x. x\<lparr>status_flags := status_flags x OR 2\<rparr>) s)
      else if code = KEY_RELEASED_left_shift \<or> code = KEY_RELEASED_right_shift then
        res_bind (get_keyboard_queue s) (\<lambda>q. set_queue 20 q (\<lambda>x. x\<lparr>status_flags := status_flags x AND NOT 2\<rparr>) s)
      else Inr s)"

definition key_queue_push :: "u32 \<Rightarrow> sched \<Rightarrow> sched res" where
  "key_queue_push packet s =
     res_bind (get_keyboard_queue s) (\<lambda>current.
       if packet = 0 then Inr s
       else
         res_bind (deref ''src/drivers/keyboard/key_queue.c'' 31 (packets s) packet) (\<lambda>k.
         res_bind (detectPressed (key_code k) s) (\<lambda>s.
         res_bind (set_packet 33 packet (\<lambda>k. k\<lparr>next_kbp := 0\<rparr>) s) (\<lambda>s.
         res_bind (queue_at ''src/drivers/keyboard/key_queue.c'' 34 current s) (\<lambda>q.
         res_bind
           (if front q = 0 then set_queue 36 current (\<lambda>q. q\<lparr>front := packet, backq := packet\<rparr>) s
            else
              res_bind (set_packet 40 (backq q) (\<lambda>k. k\<lparr>next_kbp := packet\<rparr>) s) (\<lambda>s.
                set_queue 41 current (\<lambda>q. q\<lparr>backq := packet\<rparr>) s)) (\<lambda>s.
         res_bind (get_keyboard_queue s) (\<lambda>current.
         res_bind (queue_at ''src/drivers/keyboard/key_queue.c'' 43 current s) (\<lambda>q.
           post_semaphore (sync q) s))))))))"

text \<open>\<^verbatim>\<open>for (ptr = current->front; ptr->next != current->back; ptr = ptr->next);\<close>\<close>

partial_function (option) before_back_packet :: "KBP store \<Rightarrow> u32 \<Rightarrow> u32 \<Rightarrow> u32 res option" where
  "before_back_packet m last_packet ptr =
     (case deref ''src/drivers/keyboard/key_queue.c'' 64 m ptr of
        Inl e \<Rightarrow> Some (Inl e)
      | Inr k \<Rightarrow> if next_kbp k \<noteq> last_packet then before_back_packet m last_packet (next_kbp k) else Some (Inr ptr))"

declare before_back_packet.simps [code]

definition key_queue_pop :: "sched \<Rightarrow> (u32 \<times> sched) res" where
  "key_queue_pop s =
     res_bind (get_keyboard_queue s) (\<lambda>current.
     res_bind (queue_at ''src/drivers/keyboard/key_queue.c'' 50 current s) (\<lambda>q.
       if front q = 0 then Inr (0, s)
       else if backq q = front q then
         res_bind (set_queue 59 current (\<lambda>q. q\<lparr>backq := 0, front := 0\<rparr>) s) (\<lambda>s. Inr (backq q, s))
       else
         res_bind (loop_res (before_back_packet (packets s) (backq q) (front q))) (\<lambda>ptr.
         res_bind (set_queue 65 current (\<lambda>q. q\<lparr>backq := ptr\<rparr>) s) (\<lambda>s. Inr (backq q, s)))))"

section \<open>The interrupt (keyboard.c)\<close>

definition keyboard_interrupt :: "sched \<times> machine \<Rightarrow> (sched \<times> machine) res" where
  "keyboard_interrupt = (\<lambda>(s, m).
     let (scancode, m) = in_port 0x60 m
     in res_bind (malloc 16 (hp s)) (\<lambda>(p, h).
          if p = 0 then Inl Stuck
          else
            let s = s\<lparr>hp := h\<rparr>
            in res_bind (get_keyboard_queue s) (\<lambda>qp.
               res_bind (queue_at ''src/drivers/keyboard/keyboard.c'' 59 qp s) (\<lambda>q.
                 if 128 \<le> unat scancode then Inl (Undefined ''src/drivers/keyboard/keyboard.c'' 60)
                 else
                   let ch = keymap ! unat scancode;
                       k = \<lparr>unicode_code = (if bit (status_flags q) 1 then TO_UPPER ch else ucast ch),
                         key_code = ucast scancode, status = qp + 12, next_kbp = load32 (ram h) (p + 12)\<rparr>
                   in res_bind (key_queue_push p (s\<lparr>packets := (packets s)(p \<mapsto> k)\<rparr>)) (\<lambda>s. Inr (s, m))))))"

definition init_keyboard :: "u32 \<Rightarrow> u32 \<Rightarrow> handler_tables \<times> console \<Rightarrow> (handler_tables \<times> console) res" where
  "init_keyboard frame msg = (\<lambda>(h, c).
     res_bind (irq_new_call KEYBOARD_IRQ_LINE keyboard_interrupt_handler (h, io c)) (\<lambda>(h, m).
     res_bind (print frame SERIAL msg [] (c\<lparr>io := m\<rparr>)) (\<lambda>(i, c). Inr (h, c))))"

section \<open>Packets in a queue\<close>

fun packet_chain :: "KBP store \<Rightarrow> u32 list \<Rightarrow> bool" where
  "packet_chain m [] = True"
| "packet_chain m [p] = (p \<noteq> 0 \<and> m p \<noteq> None)"
| "packet_chain m (p # q # ps) =
     (p \<noteq> 0 \<and> map_option next_kbp (m p) = Some q \<and> packet_chain m (q # ps))"

text \<open>The focused thread \<open>f\<close> has the queue \<open>qp\<close> with the packets \<open>ps\<close>, the oldest first.\<close>

definition key_state :: "sched \<Rightarrow> u32 \<Rightarrow> u32 \<Rightarrow> u32 list \<Rightarrow> bool" where
  "key_state s qp sem ps \<longleftrightarrow>
     (\<exists>t q. tcbs s (current_focus_tcb s) = Some t \<and> kbp_queue t = qp \<and> queues s qp = Some q \<and> sync q = sem \<and>
       front q = (if ps = [] then 0 else hd ps) \<and> (ps \<noteq> [] \<longrightarrow> backq q = last ps) \<and>
       packet_chain (packets s) ps \<and> distinct ps)"

lemma queue_simps [simp]:
  "queues s p = Some q \<Longrightarrow> queue_at file line p s = Inr q"
  "queues s p = Some q \<Longrightarrow> set_queue line p f s = Inr (s\<lparr>queues := (queues s)(p \<mapsto> f q)\<rparr>)"
  by (simp_all add: queue_at_def set_queue_def)

lemma packet_simps [simp]:
  "packets s p = Some k \<Longrightarrow> set_packet line p f' s = Inr (s\<lparr>packets := (packets s)(p \<mapsto> f' k)\<rparr>)"
  by (simp add: set_packet_def)

lemma packet_chain_valid: "packet_chain m ps \<Longrightarrow> p \<in> set ps \<Longrightarrow> p \<noteq> 0 \<and> (\<exists>k. m p = Some k)"
  by (induction m ps rule: packet_chain.induct) auto

lemma packet_chain_other: "p \<notin> set ps \<Longrightarrow> packet_chain (m(p \<mapsto> k)) ps = packet_chain m ps"
  by (induction m ps rule: packet_chain.induct) auto

lemma packet_chain_snoc:
  "packet_chain m (ps @ [p]) \<longleftrightarrow> p \<noteq> 0 \<and> m p \<noteq> None \<and> packet_chain m ps \<and>
    (ps \<noteq> [] \<longrightarrow> map_option next_kbp (m (last ps)) = Some p)"
proof (induction m ps rule: packet_chain.induct)
  case (2 m q)
  then show ?case by (cases "m q") auto
qed auto

lemma packet_chain_link:
  assumes "packet_chain m ps" and "distinct ps" and "ps \<noteq> []" and "m (last ps) = Some k"
  shows "packet_chain (m(last ps \<mapsto> k\<lparr>next_kbp := p\<rparr>)) ps"
proof -
  have split: "butlast ps @ [last ps] = ps" using assms(3) by simp
  have "last ps \<notin> set (butlast ps)" using assms(2) split by (metis distinct_append disjoint_iff list.set_intros(1))
  moreover have "butlast ps \<noteq> [] \<Longrightarrow> last (butlast ps) \<noteq> last ps"
    using calculation last_in_set [of "butlast ps"] by metis
  ultimately show ?thesis
    using assms packet_chain_snoc [of m "butlast ps" "last ps"]
      packet_chain_snoc [of "m(last ps \<mapsto> k\<lparr>next_kbp := p\<rparr>)" "butlast ps" "last ps"]
    by (auto simp: split packet_chain_other)
qed

lemma before_back_packet_chain:
  "packet_chain m (ps @ [x, y]) \<Longrightarrow> distinct (ps @ [x, y]) \<Longrightarrow> before_back_packet m y (hd (ps @ [x])) = Some (Inr x)"
proof (induction ps)
  case Nil
  then obtain k where "m x = Some k" "next_kbp k = y" by auto
  then show ?case by (subst before_back_packet.simps) simp
next
  case (Cons z zs)
  define h where "h = hd (zs @ [x])"
  have h: "h = hd (zs @ [x])" "h \<in> set (zs @ [x])" by (simp_all add: h_def) (cases zs; simp)
  obtain r where r: "zs @ [x, y] = h # r" using h(1) by (cases zs) auto
  then obtain k where k: "m z = Some k" "next_kbp k = h" using Cons.prems(1) by auto
  have "packet_chain m (zs @ [x, y])" using Cons.prems(1) r by simp
  moreover have "h \<noteq> y" using h(2) Cons.prems(2) by auto
  ultimately show ?case
    using k Cons.IH Cons.prems(2) h(1) by (subst before_back_packet.simps) simp
qed

lemma key_queue_pop_last:
  assumes "key_state s qp sem (ps @ [p])"
  shows "\<exists>q. key_queue_pop s = Inr (p, s\<lparr>queues := (queues s)(qp \<mapsto> q)\<rparr>) \<and>
    key_state (s\<lparr>queues := (queues s)(qp \<mapsto> q)\<rparr>) qp sem ps"
proof -
  obtain t q where k: "tcbs s (current_focus_tcb s) = Some t" "kbp_queue t = qp" "queues s qp = Some q" "sync q = sem"
    "front q = hd (ps @ [p])" "backq q = p" "packet_chain (packets s) (ps @ [p])" "distinct (ps @ [p])"
    using assms by (auto simp: key_state_def)
  have f0: "front q \<noteq> 0" using packet_chain_valid [OF k(7), of "front q"] k(5) by (cases ps) auto
  have g: "get_keyboard_queue s = Inr qp" using k(1,2) by (simp add: get_keyboard_queue_def)
  show ?thesis
  proof (cases "ps = []")
    case True
    then show ?thesis using k f0 g
      by (intro exI [of _ "q\<lparr>backq := 0, front := 0\<rparr>"]) (simp add: key_queue_pop_def key_state_def)
  next
    case False
    then obtain us x where us: "ps = us @ [x]" by (metis append_butlast_last_id)
    have b: "before_back_packet (packets s) p (front q) = Some (Inr x)"
      using before_back_packet_chain [of "packets s" us x p] k us by (cases us) auto
    have "p \<noteq> front q" using k(5,8) us by (cases us) auto
    then show ?thesis using k f0 g b us packet_chain_snoc [of "packets s" ps p]
      by (intro exI [of _ "q\<lparr>backq := x\<rparr>"]) (auto simp: key_queue_pop_def key_state_def hd_append)
  qed
qed

section \<open>Pushing and popping\<close>

definition shift_flag :: "u16 \<Rightarrow> u16 \<Rightarrow> u16" where
  "shift_flag code fl =
     (if code \<in> {0x2a, 0x36} then fl OR 2 else if code \<in> {0xaa, 0xb6} then fl AND NOT 2 else fl)"

lemma detectPressed_eq:
  assumes "tcbs s (current_focus_tcb s) = Some t" and "queues s (kbp_queue t) = Some q"
  shows "detectPressed code s =
    Inr (s\<lparr>queues := (queues s)(kbp_queue t \<mapsto> q\<lparr>status_flags := shift_flag code (status_flags q)\<rparr>)\<rparr>)"
proof -
  have "(queues s)(kbp_queue t \<mapsto> q) = queues s" using assms(2) by (simp add: fun_upd_idem)
  then show ?thesis using assms
    by (auto simp: detectPressed_def get_keyboard_queue_def shift_flag_def shift_key_defs)
qed

text \<open>\<open>c\<close> runs, \<open>xs\<close> are ready and \<open>ws\<close> wait for a key; the first of them is woken.\<close>

lemma key_queue_push_appends:
  assumes "at_rest s" and "key_state s qp sem ps" and "packets s p = Some k" and "p \<noteq> 0" and "p \<notin> set ps"
    and "sem_state s sem x c xs ws"
  shows "\<exists>s' x'. key_queue_push p s = Inr s' \<and> at_rest s' \<and> key_state s' qp sem (ps @ [p]) \<and>
    sem_state s' sem x' c (xs @ take 1 ws) (tl ws) \<and>
    (\<forall>u. tstatus s' u = (if u \<in> set (take 1 ws) then Some THREAD_RUNNING else tstatus s u)) \<and>
    map_option unicode_code (packets s' p) = Some (unicode_code k) \<and> (\<forall>r. packets s r \<noteq> None \<longrightarrow> packets s' r \<noteq> None) \<and>
    (\<exists>q. queues s qp = Some q \<and> map_option status_flags (queues s' qp) = Some (shift_flag (key_code k) (status_flags q)))"
proof -
  obtain t q where h: "tcbs s (current_focus_tcb s) = Some t" "kbp_queue t = qp" "queues s qp = Some q" "sync q = sem"
    "front q = (if ps = [] then 0 else hd ps)" "ps \<noteq> [] \<longrightarrow> backq q = last ps" "packet_chain (packets s) ps" "distinct ps"
    using assms(2) by (auto simp: key_state_def)
  let ?q = "q\<lparr>status_flags := shift_flag (key_code k) (status_flags q)\<rparr>"
  let ?s1 = "s\<lparr>queues := (queues s)(qp \<mapsto> ?q)\<rparr>"
  let ?k = "k\<lparr>next_kbp := 0\<rparr>"
  have det: "detectPressed (key_code k) s = Inr ?s1" using detectPressed_eq [of s t q "key_code k"] h(1-3) by simp
  have push: ?thesis
    if op: "key_queue_push p s = post_semaphore sem (s\<lparr>packets := pk, queues := qs\<rparr>)"
      and qs: "qs qp = Some (?q\<lparr>front := (if ps = [] then p else hd ps), backq := p\<rparr>)"
      and pk: "packet_chain pk (ps @ [p])" "map_option unicode_code (pk p) = Some (unicode_code k)"
        "\<forall>r. packets s r \<noteq> None \<longrightarrow> pk r \<noteq> None" for qs pk
  proof -
    let ?s = "s\<lparr>packets := pk, queues := qs\<rparr>"
    have "at_rest ?s" "sem_state ?s sem x c xs ws" using assms(1,6) by (simp_all add: at_rest_def sem_state_def)
    from post_semaphore_wakes [OF this] obtain s' x' where
      s': "post_semaphore sem ?s = Inr s'" "at_rest s'" "sem_state s' sem x' c (xs @ take 1 ws) (tl ws)" "queues s' = qs"
      "packets s' = pk" "current_focus_tcb s' = current_focus_tcb s"
      "\<forall>p. map_option kbp_queue (tcbs s' p) = map_option kbp_queue (tcbs s p)"
      "\<forall>u. tstatus s' u = (if u \<in> set (take 1 ws) then Some THREAD_RUNNING else tstatus s u)"
      by (auto simp: tstatus_def)
    obtain t' where "tcbs s' (current_focus_tcb s') = Some t'" "kbp_queue t' = qp"
      using s'(6,7) h(1,2) by (metis (no_types, lifting) map_option_eq_Some)
    then have "key_state s' qp sem (ps @ [p])"
      using s'(4,5) qs pk(1) h(4,8) assms(5) by (auto simp: key_state_def hd_append)
    then show ?thesis using op s' qs pk(2,3) h(3) by (intro exI [of _ s'] exI [of _ x']) simp
  qed
  show ?thesis
  proof (cases "ps = []")
    case True
    show ?thesis
    proof (rule push)
      show "key_queue_push p s = post_semaphore sem (s\<lparr>packets := (packets s)(p \<mapsto> ?k),
          queues := (queues s)(qp \<mapsto> ?q\<lparr>front := p, backq := p\<rparr>)\<rparr>)"
        using True h assms(3,4) det by (simp add: key_queue_push_def get_keyboard_queue_def)
    qed (use True h assms(3-5) in auto)
  next
    case False
    have lin: "last ps \<in> set ps" using False by simp
    have f0: "front q \<noteq> 0" using packet_chain_valid [OF h(7), of "hd ps"] h(5) False by auto
    obtain u where u: "packets s (last ps) = Some u" using packet_chain_valid [OF h(7) lin] by blast
    have ne: "last ps \<noteq> p" using lin assms(5) by auto
    let ?pk = "(packets s)(p \<mapsto> ?k, last ps \<mapsto> u\<lparr>next_kbp := p\<rparr>)"
    have eq: "?pk = (packets s)(last ps \<mapsto> u\<lparr>next_kbp := p\<rparr>, p \<mapsto> ?k)" using ne [symmetric] by (rule fun_upd_twist)
    have "packet_chain ((packets s)(last ps \<mapsto> u\<lparr>next_kbp := p\<rparr>)) ps" using h(7,8) False u by (rule packet_chain_link)
    then have "packet_chain ?pk (ps @ [p])"
      unfolding packet_chain_snoc eq using assms(4,5) ne by (simp add: packet_chain_other)
    moreover have "key_queue_push p s = post_semaphore sem (s\<lparr>packets := ?pk, queues := (queues s)(qp \<mapsto> ?q\<lparr>backq := p\<rparr>)\<rparr>)"
      using False f0 h assms(3,4) det u ne by (simp add: key_queue_push_def get_keyboard_queue_def)
    moreover have "?q\<lparr>backq := p\<rparr> = ?q\<lparr>front := hd ps, backq := p\<rparr>" using h(5) False by (cases q) simp
    ultimately show ?thesis using False ne u by (intro push [where pk = ?pk and qs = "(queues s)(qp \<mapsto> ?q\<lparr>backq := p\<rparr>)"]) auto
  qed
qed

text \<open>C35: key_queue_pop takes the newest packet: two keys that were pushed are popped in the
  opposite order, and the older packets stay in the queue.\<close>
theorem keys_come_back_reversed:
  assumes "at_rest s" and "key_state s qp sem ps" and "sem_state s sem x c xs []"
    and "packets s p = Some k" and "packets s r = Some l" and "0 \<notin> {p, r}" and "p \<noteq> r" and "{p, r} \<inter> set ps = {}"
  shows "\<exists>s1 s2 s3 s4. key_queue_push p s = Inr s1 \<and> key_queue_push r s1 = Inr s2 \<and>
    key_queue_pop s2 = Inr (r, s3) \<and> key_queue_pop s3 = Inr (p, s4) \<and> key_state s4 qp sem ps"
proof -
  obtain s1 x' where s1: "key_queue_push p s = Inr s1" "at_rest s1" "key_state s1 qp sem (ps @ [p])" "sem_state s1 sem x' c xs []"
    "packets s1 r \<noteq> None"
    using key_queue_push_appends [OF assms(1,2,4) _ _ assms(3)] assms(5-8) by auto
  obtain l' where l': "packets s1 r = Some l'" using s1(5) by blast
  obtain s2 where s2: "key_queue_push r s1 = Inr s2" "key_state s2 qp sem ((ps @ [p]) @ [r])"
    using key_queue_push_appends [OF s1(2,3) l' _ _ s1(4)] assms(6-8) by auto
  obtain s3 where s3: "key_queue_pop s2 = Inr (r, s3)" "key_state s3 qp sem (ps @ [p])"
    using key_queue_pop_last [OF s2(2)] by auto
  from key_queue_pop_last [OF s3(2)] s1(1) s2(1) s3(1) show ?thesis by blast
qed

section \<open>The interrupt\<close>

lemma sem_state_frame: "sem_state (s\<lparr>hp := h, packets := pk\<rparr>) sem x c xs ws = sem_state s sem x c xs ws"
  by (simp add: sem_state_def)

text \<open>Every scan code of a key release, 128 and above, reads past the 128 entries of the
  key map.\<close>
lemma keyboard_release_overruns_keymap:
  assumes "malloc 16 (hp s) = Inr (p, h)" and "p \<noteq> 0" and "key_state s qp sem ps"
    and "dev m 0x60 (reads m 0x60) = code" and "128 \<le> unat code"
  shows "keyboard_interrupt (s, m) = Inl (Undefined ''src/drivers/keyboard/keyboard.c'' 60)"
  using assms by (auto simp: keyboard_interrupt_def in_port_def get_keyboard_queue_def key_state_def Let_def)

text \<open>Codes below 128 can set the flag but not clear it.\<close>

lemma press_flag:
  assumes "unat (code :: u8) < 128"
  shows "shift_flag (ucast code) fl = (if code = 0x2a \<or> code = 0x36 then fl OR 2 else fl)"
proof -
  have "unat (ucast code :: u16) = unat code"
    using assms by (simp add: unsigned_ucast_eq take_bit_nat_eq_self)
  then show ?thesis using assms by (auto simp: shift_flag_def word_unat_eq_iff)
qed

text \<open>C34: A keyboard interrupt while a thread runs: when malloc returns NULL the code faults; a
  release code, 128 or above, reads past the key map; a press appends the new packet to the
  queue of the focused thread, wakes the first thread that waits for it, which goes behind
  the ready ones, and lets the running thread go on. The character is the one of the key
  map, minus 32 with shift held whatever the character is, and the shift flag is set by the
  two shift keys and left alone by every other press. The address malloc returns is not in
  the queue yet.\<close>
theorem keyboard_interrupt_press:
  assumes "at_rest s" and "key_state s qp sem ps" and "sem_state s sem x c xs ws"
    and "malloc 16 (hp s) = Inr (p, h)" and "p \<notin> set ps" and "queues s qp = Some q"
    and "dev m 0x60 (reads m 0x60) = code"
  shows "if p = 0 then keyboard_interrupt (s, m) = Inl Stuck
    else if 128 \<le> unat code then keyboard_interrupt (s, m) = Inl (Undefined ''src/drivers/keyboard/keyboard.c'' 60)
    else \<exists>s' m'. keyboard_interrupt (s, m) = Inr (s', m') \<and> key_state s' qp sem (ps @ [p]) \<and>
      current_running_tcb s' = c \<and> ready_threads s' (xs @ take 1 ws) \<and>
      (\<forall>u. tstatus s' u = (if u \<in> set (take 1 ws) then Some THREAD_RUNNING else tstatus s u)) \<and>
      map_option unicode_code (packets s' p) =
        Some (if bit (status_flags q) 1 then ucast (keymap ! unat code) - 32 else ucast (keymap ! unat code)) \<and>
      map_option status_flags (queues s' qp) =
        Some (if code = 0x2a \<or> code = 0x36 then status_flags q OR 2 else status_flags q)"
proof -
  obtain t where t: "tcbs s (current_focus_tcb s) = Some t" "kbp_queue t = qp" using assms(2) by (auto simp: key_state_def)
  consider "p = 0" | "p \<noteq> 0" "128 \<le> unat code" | "p \<noteq> 0" "unat code < 128" by linarith
  then show ?thesis
  proof cases
    case 1
    then show ?thesis using assms(4) by (simp add: keyboard_interrupt_def in_port_def Let_def)
  next
    case 2
    then show ?thesis using keyboard_release_overruns_keymap [OF assms(4) _ assms(2,7)] by simp
  next
    case 3
    let ?ch = "keymap ! unat code"
    let ?k = "\<lparr>unicode_code = (if bit (status_flags q) 1 then TO_UPPER ?ch else ucast ?ch), key_code = ucast code,
        status = qp + 12, next_kbp = load32 (ram h) (p + 12)\<rparr>"
    let ?s = "s\<lparr>hp := h, packets := (packets s)(p \<mapsto> ?k)\<rparr>"
    have "key_state ?s qp sem ps" using assms(2,5) by (auto simp: key_state_def packet_chain_other)
    moreover have "sem_state ?s sem x c xs ws" using assms(3) by (simp only: sem_state_frame)
    moreover have "at_rest ?s" using assms(1) by (simp add: at_rest_def)
    ultimately obtain s' x' where s': "key_queue_push p ?s = Inr s'" "key_state s' qp sem (ps @ [p])"
      "sem_state s' sem x' c (xs @ take 1 ws) (tl ws)"
      "\<forall>u. tstatus s' u = (if u \<in> set (take 1 ws) then Some THREAD_RUNNING else tstatus s u)"
      "map_option unicode_code (packets s' p) = Some (unicode_code ?k)"
      "map_option status_flags (queues s' qp) = Some (shift_flag (ucast code) (status_flags q))"
      using key_queue_push_appends [of ?s qp sem ps p ?k x c xs ws] assms(5,6) 3(1)
      by (auto simp: tstatus_def simp del: map_option_eq_Some)
    have "keyboard_interrupt (s, m) = Inr (s', snd (in_port 0x60 m))"
      using assms(4,6,7) 3 t s'(1)
      by (simp add: keyboard_interrupt_def in_port_def get_keyboard_queue_def Let_def)
    moreover have "shift_flag (ucast code) (status_flags q) =
        (if code = 0x2a \<or> code = 0x36 then status_flags q OR 2 else status_flags q)"
      using press_flag [OF 3(2)] .
    ultimately show ?thesis using s' 3 by (auto simp: TO_UPPER_def sem_state_def simp del: map_option_eq_Some)
  qed
qed

section \<open>A concrete keyboard\<close>

lemma small_request:
  obtains t where "malloc 16 (init_heap_blocks s) = Inr (FIRST + 16, t)"
proof -
  have al: "ALIGN_SIZE 16 = 16" by (simp add: ALIGN_SIZE_def)
  have "safe_request 16 [(FIRST, first_size, True)]" by (simp add: safe_request_def al)
  from malloc_blocks(2) [OF init_heap_blocks_inv first_pick _ _ this, of s] that show thesis
    by (auto simp: al word_le_nat_alt)
qed

text \<open>The running thread is focused and has an empty queue, with shift held down.\<close>

definition desk :: sched where
  "desk = four_threads\<lparr>hp := init_heap_blocks zero_kmem,
     tcbs := three_tcbs(0x40 \<mapsto> blank_tcb\<lparr>kbp_queue := 0x200\<rparr>),
     queues := [0x200 \<mapsto> \<lparr>sync = 0x100, front = 0, backq = 0, status_flags = 2\<rparr>],
     sems := [0x100 \<mapsto> \<lparr>max_count = 0, current_count = 0, first_waiting_task = 0, last_waiting_task = 0\<rparr>],
     packets := [0x300 \<mapsto> \<lparr>unicode_code = 97, key_code = 30, status = 0, next_kbp = 0\<rparr>,
       0x310 \<mapsto> \<lparr>unicode_code = 98, key_code = 48, status = 0, next_kbp = 0\<rparr>]\<rparr>"

lemma desk_state:
  "at_rest desk" "key_state desk 0x200 0x100 []"
  "sem_state desk 0x100 \<lparr>max_count = 0, current_count = 0, first_waiting_task = 0, last_waiting_task = 0\<rparr>
     0x40 [0x10, 0x20, 0x30] []"
  "hp desk = init_heap_blocks zero_kmem" "queues desk 0x200 = Some \<lparr>sync = 0x100, front = 0, backq = 0, status_flags = 2\<rparr>"
proof -
  have "tlist (three_tcbs(0x40 \<mapsto> blank_tcb\<lparr>kbp_queue := 0x200\<rparr>)) three_list [0x10, 0x20, 0x30]"
    by (rule tlist_cong [OF three_tlist]) auto
  then show "sem_state desk 0x100 \<lparr>max_count = 0, current_count = 0, first_waiting_task = 0, last_waiting_task = 0\<rparr>
     0x40 [0x10, 0x20, 0x30] []"
    by (simp add: desk_def sem_state_def waiters_def known_tcb_def tview_def)
qed (simp_all add: desk_def at_rest_def key_state_def four_threads_def)

theorem keys_come_back_reversed_witness:
  "\<exists>s1 s2 s3 s4. key_queue_push 0x300 desk = Inr s1 \<and> key_queue_push 0x310 s1 = Inr s2 \<and>
    key_queue_pop s2 = Inr (0x310, s3) \<and> key_queue_pop s3 = Inr (0x300, s4)"
proof -
  have "packets desk 0x300 = Some \<lparr>unicode_code = 97, key_code = 30, status = 0, next_kbp = 0\<rparr>"
    "packets desk 0x310 = Some \<lparr>unicode_code = 98, key_code = 48, status = 0, next_kbp = 0\<rparr>"
    by (simp_all add: desk_def)
  from keys_come_back_reversed [OF desk_state(1-3) this] show ?thesis by (simp, blast)
qed

theorem keyboard_interrupt_press_witness:
  "(\<exists>s' m'. keyboard_interrupt (desk, quiet_machine 30) = Inr (s', m') \<and>
     map_option unicode_code (packets s' (FIRST + 16)) = Some 65) \<and>
   keyboard_interrupt (desk, quiet_machine 158) = Inl (Undefined ''src/drivers/keyboard/keyboard.c'' 60)"
proof -
  obtain h where h: "malloc 16 (hp desk) = Inr (FIRST + 16, h)" using small_request [of zero_kmem] desk_state(4) by metis
  have p: "FIRST + 16 \<noteq> 0" by (simp add: FIRST_def HEAP_SPACE_def sizeof_heap_t_def sizeof_block_t_def HEAD_def)
  have dv: "dev (quiet_machine w) 0x60 (reads (quiet_machine w) 0x60) = w" for w by (simp add: quiet_machine_def)
  have k: "bit (2 :: u16) 1" "keymap ! 30 = 97" by (simp_all add: keymap_def bit_simps)
  show ?thesis
    using keyboard_interrupt_press [OF desk_state(1-3) h _ desk_state(5) dv, of 30]
      keyboard_interrupt_press [OF desk_state(1-3) h _ desk_state(5) dv, of 158] p k
    by (auto simp del: map_option_eq_Some)
qed

end
