(* ===== verification/Devices.thy ===== *)
theory Devices
  imports Console Interrupts
begin

text \<open>
  The timer chip (\<^verbatim>\<open>src/src/drivers/pit.c\<close>), the identification of a disk
  (\<^verbatim>\<open>src/src/include/drivers/ata.h\<close>) and the ACPI stub (\<^verbatim>\<open>src/src/drivers/acpi.c\<close>).
\<close>

section \<open>Programmable interval timer (pit.c)\<close>

definition PIT_HZ :: nat where "PIT_HZ = 1193182"
definition PIT_DIVIDER_MAX :: nat where "PIT_DIVIDER_MAX = 65536"
definition PIT_SETTING :: u8 where "PIT_SETTING = 0x36"
definition PROGRAMMABLE_INTERRUPT_TIMER_LINE :: u8 where "PROGRAMMABLE_INTERRUPT_TIMER_LINE = 0"

text \<open>\<^verbatim>\<open>for (div = 1; div < (PIT_DIVIDER_MAX - 1); div++) if ((u32) (PIT_HZ / div) < hz) break;\<close>\<close>

definition pit_rate :: "u16 \<Rightarrow> u32" where
  "pit_rate d = word_of_nat (PIT_HZ div unat d)"

function pit_search :: "u32 \<Rightarrow> u16 \<Rightarrow> u16" where
  "pit_search hz d =
     (if unat d < PIT_DIVIDER_MAX - 1 then if pit_rate d < hz then d else pit_search hz (d + 1) else d)"
  by auto
termination
proof (relation "measure (\<lambda>(hz, d). 65536 - unat d)")
  fix hz :: u32 and d :: u16
  assume "unat d < PIT_DIVIDER_MAX - 1"
  then have lt: "unat d < 65535" by (simp add: PIT_DIVIDER_MAX_def)
  then have "unat (d + 1) = unat d + 1" using unat_add_lem [of d 1] by simp
  then show "((hz, d + 1), (hz, d)) \<in> measure (\<lambda>(hz, d). 65536 - unat d)" using lt by simp
qed simp

declare pit_search.simps [simp del]

definition pit_div_find_best :: "u32 \<Rightarrow> u16" where
  "pit_div_find_best hz =
     (let d = pit_search hz 1; q = pit_rate d
      in if d mod 2 \<noteq> 0 \<and> q - hz > hz - (q - 1) then d - 1 else d)"

text \<open>The arguments are the format string's address, the frame of the numerals, and \<^verbatim>\<open>hertz\<close> in the result.\<close>

definition init_pit ::
  "u32 \<Rightarrow> u32 \<Rightarrow> u32 \<Rightarrow> handler_tables \<times> console \<Rightarrow> (u32 \<times> handler_tables \<times> console) res" where
  "init_pit frame msg hz = (\<lambda>(h, c).
     let d = pit_div_find_best hz;
         m = out_all [(PIT_COMMAND, PIT_SETTING), (PIT_CHANNEL_0, ucast (d AND 0xFF)), (PIT_CHANNEL_0, ucast (drop_bit 8 d))] (io c)
     in res_bind (irq_new_call PROGRAMMABLE_INTERRUPT_TIMER_LINE pit_interrupt_handler (h, m)) (\<lambda>(h, m).
        res_bind (print frame SERIAL msg [ucast d, hz] (c\<lparr>io := m\<rparr>)) (\<lambda>(i, c). Inr (hz, h, c))))"

section \<open>Disks (ata.h)\<close>

definition PRIMARY_ATA :: u16 where "PRIMARY_ATA = 0x1F0"
definition SECONDARY_ATA :: u16 where "SECONDARY_ATA = 0x170"
definition ATA_SC_BSY :: u8 where "ATA_SC_BSY = 0x80"
definition ATA_SC_DF :: u8 where "ATA_SC_DF = 0x20"
definition ATA_SC_DRQ :: u8 where "ATA_SC_DRQ = 0x08"
definition ATA_SC_ERR :: u8 where "ATA_SC_ERR = 0x01"

definition ata_select :: "u16 \<Rightarrow> machine \<Rightarrow> u32 \<times> machine" where
  "ata_select ata m =
     (if ata = PRIMARY_ATA then (0, out (ata + 6) 0xA0 m)
      else if ata = SECONDARY_ATA then (0, out (ata + 6) 0xB0 m)
      else (1, m))"

text \<open>\<^verbatim>\<open>while (ide_read(ATA_REG_STATUS_R(ata)) & ATA_SC_BSY);\<close>\<close>

partial_function (option) wait_not_busy :: "u16 \<Rightarrow> machine \<Rightarrow> machine option" where
  "wait_not_busy ata m =
     (let (v, m) = in_port (ata + 7) m in if v AND ATA_SC_BSY \<noteq> 0 then wait_not_busy ata m else Some m)"

declare wait_not_busy.simps [code]

definition ide_polling :: "u16 \<Rightarrow> machine \<Rightarrow> machine option" where
  "ide_polling ata m =
     (let m = snd (in_port (ata + 7) m); m = snd (in_port (ata + 7) m);
          m = snd (in_port (ata + 7) m); m = snd (in_port (ata + 7) m)
      in wait_not_busy ata m)"

definition ata_identify :: "u16 \<Rightarrow> machine \<Rightarrow> (u32 \<times> machine) option" where
  "ata_identify ata m =
     (let (r, m) = ata_select ata m
      in if r \<noteq> 0 then Some (1, m)
         else
           let m = out_all [(ata + 3, 0), (ata + 4, 0), (ata + 5, 0), (ata + 2, 0), (ata + 7, 0xEC)] m
           in case ide_polling ata m of
                None \<Rightarrow> None
              | Some m \<Rightarrow>
                  let (st, m) = in_port (ata + 7) m
                  in Some (if st AND ATA_SC_ERR \<noteq> 0 then 2 else if st AND ATA_SC_DF \<noteq> 0 then 3
                       else if st AND ATA_SC_DRQ = 0 then 4 else 0, m))"

section \<open>ACPI (acpi.c)\<close>

definition init_acpi :: "u32 \<Rightarrow> u32 \<Rightarrow> console \<Rightarrow> console res" where
  "init_acpi frame msg c =
     (if acpi_address (sys c) = 0 then Inr c
      else res_bind (print frame SERIAL msg [acpi_address (sys c)] c) (\<lambda>(i, c). Inr c))"

section \<open>The divider\<close>

lemma pit_rate_nat: "unat (pit_rate d) = PIT_HZ div unat d"
proof -
  have "PIT_HZ div unat d < 4294967296"
    using div_le_dividend [of PIT_HZ "unat d"] unfolding PIT_HZ_def by linarith
  then show ?thesis by (simp add: pit_rate_def u32_of_nat)
qed

lemma u16_Suc: "unat (d :: u16) < 65535 \<Longrightarrow> unat (d + 1) = unat d + 1"
  using unat_add_lem [of d 1] by simp

text \<open>The search ends at the first divider whose rate is below \<open>hz\<close>, or at 65535.\<close>

lemma pit_search_first:
  "unat d \<le> 65535 \<Longrightarrow> unat d \<le> unat (pit_search hz d) \<and> unat (pit_search hz d) \<le> 65535 \<and>
    (\<forall>k. unat d \<le> k \<and> k < unat (pit_search hz d) \<longrightarrow> unat hz \<le> PIT_HZ div k) \<and>
    (unat (pit_search hz d) < 65535 \<longrightarrow> PIT_HZ div unat (pit_search hz d) < unat hz)"
proof (induction hz d rule: pit_search.induct)
  case (1 hz d)
  show ?case
  proof (cases "unat d < 65535 \<and> \<not> pit_rate d < hz")
    case True
    then have s: "pit_search hz d = pit_search hz (d + 1)"
      by (subst pit_search.simps) (simp add: PIT_DIVIDER_MAX_def)
    have u: "unat (d + 1) = unat d + 1" using True by (simp add: u16_Suc)
    have ih: "unat (d + 1) \<le> unat (pit_search hz (d + 1)) \<and> unat (pit_search hz (d + 1)) \<le> 65535 \<and>
      (\<forall>k. unat (d + 1) \<le> k \<and> k < unat (pit_search hz (d + 1)) \<longrightarrow> unat hz \<le> PIT_HZ div k) \<and>
      (unat (pit_search hz (d + 1)) < 65535 \<longrightarrow> PIT_HZ div unat (pit_search hz (d + 1)) < unat hz)"
      using 1(1) True u by (simp add: PIT_DIVIDER_MAX_def)
    have "unat hz \<le> PIT_HZ div unat d" using True pit_rate_nat [of d] by (simp add: word_less_nat_alt)
    moreover have "unat d \<le> k \<Longrightarrow> k = unat d \<or> unat (d + 1) \<le> k" for k using u by linarith
    ultimately show ?thesis unfolding s using ih u by auto
  next
    case False
    then have "pit_search hz d = d" by (subst pit_search.simps) (auto simp: PIT_DIVIDER_MAX_def)
    then show ?thesis using False 1(2) pit_rate_nat [of d] by (auto simp: word_less_nat_alt)
  qed
qed

lemma odd_u16: "d mod 2 \<noteq> (0 :: u16) \<longleftrightarrow> odd (unat d)"
proof -
  have "d mod 2 = 0 \<longleftrightarrow> unat (d mod 2) = 0" by (rule unat_eq_0 [symmetric])
  then show ?thesis by (simp add: unat_mod even_iff_mod_2_eq_zero)
qed

text \<open>
  Below the rate the unsigned difference wraps around and is far larger than the other one, so an
  odd divider is always rounded down to an even one.
\<close>

lemma wrapped_difference:
  assumes "unat (q :: u32) < unat hz" and "unat hz - unat q \<le> 0x40000000"
  shows "q - hz > hz - (q - 1)"
proof -
  have b: "unat (hz - q) = unat hz - unat q" using assms(1) by (simp add: u32_sub_nowrap)
  have "unat (q - hz) + unat (hz - q) \<ge> 4294967296"
  proof (rule ccontr)
    assume "\<not> ?thesis"
    then have "unat (q - hz + (hz - q)) = unat (q - hz) + unat (hz - q)" by (intro u32_add_nowrap) linarith
    then show False using b assms(1) by simp
  qed
  moreover have "unat (hz - (q - 1)) = unat (hz - q) + 1"
  proof -
    have "hz - (q - 1) = hz - q + 1" by simp
    moreover have "unat (hz - q + 1) = unat (hz - q) + 1" using assms(2) b by (simp add: u32_add_nowrap)
    ultimately show ?thesis by (simp only:)
  qed
  ultimately have "unat (hz - (q - 1)) < unat (q - hz)" using assms b by linarith
  then show ?thesis by (simp add: word_less_nat_alt)
qed

text \<open>C36: For frequencies above 18 Hz and up to the input clock pit_div_find_best returns an
  even divider of at least 2 whose neighbours bracket the frequency.\<close>
theorem pit_div_find_best_spec:
  assumes "18 < unat hz" and "unat hz \<le> 1193182"
  shows "even (unat (pit_div_find_best hz)) \<and> 2 \<le> unat (pit_div_find_best hz) \<and>
    1193182 div (unat (pit_div_find_best hz) + 1) < unat hz \<and>
    unat hz \<le> 1193182 div (unat (pit_div_find_best hz) - 1)"
proof -
  define d where "d = pit_search hz 1"
  have f: "1 \<le> unat d" "unat d \<le> 65535" "\<And>k. 1 \<le> k \<Longrightarrow> k < unat d \<Longrightarrow> unat hz \<le> 1193182 div k"
    "unat d < 65535 \<Longrightarrow> 1193182 div unat d < unat hz"
    using pit_search_first [of 1 hz] by (simp_all add: d_def PIT_HZ_def)
  have d1: "unat d \<noteq> 65535" using f(3) [of 65534] assms(1) by auto
  then have below: "1193182 div unat d < unat hz" using f(2,4) by simp
  then have d2: "2 \<le> unat d" using f(1) assms(2) by (cases "unat d = 1") auto
  have q: "unat (pit_rate d) = 1193182 div unat d" by (simp add: pit_rate_nat PIT_HZ_def)
  have wrap: "pit_rate d - hz > hz - (pit_rate d - 1)"
    by (rule wrapped_difference) (use q below assms(2) in linarith)+
  show ?thesis
  proof (cases "even (unat d)")
    case True
    then have "pit_div_find_best hz = d" using odd_u16 [of d] by (simp add: pit_div_find_best_def d_def [symmetric])
    moreover have "1193182 div (unat d + 1) \<le> 1193182 div unat d" by (rule div_le_mono2) (use d2 in simp_all)
    ultimately show ?thesis using True d2 below f(3) [of "unat d - 1"] by simp
  next
    case False
    then have r: "pit_div_find_best hz = d - 1"
      using odd_u16 [of d] wrap by (simp add: pit_div_find_best_def d_def [symmetric])
    have u: "unat (d - 1) = unat d - 1" using d2 unat_sub [of 1 d] by (simp add: word_le_nat_alt)
    have "3 \<le> unat d"
    proof -
      have "unat d \<noteq> 2" using False by auto
      then show ?thesis using d2 by simp
    qed
    have "unat hz \<le> 1193182 div (unat d - 1 - 1)" "even (unat d - 1)" "2 \<le> unat d - 1" "unat d - 1 + 1 = unat d"
    proof -
      have "unat d - 1 - 1 = unat d - 2" by simp
      then show "unat hz \<le> 1193182 div (unat d - 1 - 1)" using f(3) [of "unat d - 2"] \<open>3 \<le> unat d\<close> by simp
    qed (use False \<open>3 \<le> unat d\<close> in simp_all)
    then show ?thesis using below unfolding r u by simp
  qed
qed

theorem pit_div_find_best_spec_witness:
  "even (unat (pit_div_find_best 1000)) \<and> 1193182 div (unat (pit_div_find_best 1000) + 1) < 1000"
  using pit_div_find_best_spec [of 1000] by simp

text \<open>Above the input clock the divider becomes zero, which the chip takes for 65536.\<close>

text \<open>For frequencies above the input clock the divider is zero, which the chip takes for
  65536.\<close>
theorem pit_div_zero:
  assumes "1193182 < unat hz" and "unat hz \<le> 0x40000000"
  shows "pit_div_find_best hz = 0"
proof -
  have q: "unat (pit_rate 1) = 1193182" by (simp add: pit_rate_nat PIT_HZ_def)
  then have "pit_search hz 1 = 1"
    using assms(1) by (subst pit_search.simps) (simp add: PIT_DIVIDER_MAX_def word_less_nat_alt)
  moreover have "pit_rate 1 - hz > hz - (pit_rate 1 - 1)"
    by (rule wrapped_difference) (use q assms in linarith)+
  ultimately show ?thesis by (simp add: pit_div_find_best_def Let_def)
qed

theorem pit_div_zero_witness: "pit_div_find_best 2000000 = 0"
  using pit_div_zero [of 2000000] by simp

section \<open>Identification\<close>

text \<open>The status port is busy for a while and then ready at read \<open>j\<close>.\<close>

lemma wait_not_busy_upto:
  "reads m (ata + 7) + d = j \<Longrightarrow> dev m (ata + 7) j AND ATA_SC_BSY = 0 \<Longrightarrow>
    (\<forall>k. reads m (ata + 7) \<le> k \<and> k < j \<longrightarrow> dev m (ata + 7) k AND ATA_SC_BSY \<noteq> 0) \<Longrightarrow>
    \<exists>m'. wait_not_busy ata m = Some m' \<and> outs m' = outs m \<and> dev m' = dev m \<and> reads m' (ata + 7) = Suc j"
proof (induction d arbitrary: m)
  case 0
  then show ?case by (subst wait_not_busy.simps) (simp add: Let_def split_beta)
next
  case (Suc d)
  let ?m = "snd (in_port (ata + 7) m)"
  have "\<exists>m'. wait_not_busy ata ?m = Some m' \<and> outs m' = outs ?m \<and> dev m' = dev ?m \<and> reads m' (ata + 7) = Suc j"
    by (rule Suc.IH) (use Suc.prems in simp_all)
  moreover have "dev m (ata + 7) (reads m (ata + 7)) AND ATA_SC_BSY \<noteq> 0" using Suc.prems by auto
  ultimately show ?case by (subst wait_not_busy.simps) (simp add: Let_def split_beta)
qed

text \<open>C37: When the status of the disk becomes ready, ata_identify returns, and it returns 0
  exactly if the status read next has no error, no fault and data requested; it sends the
  selection and the IDENTIFY command with zero parameters.\<close>
theorem ata_identify_spec:
  assumes "ata = PRIMARY_ATA \<or> ata = SECONDARY_ATA"
    and "reads m (ata + 7) + 4 \<le> j" and "dev m (ata + 7) j AND 0x80 = 0"
    and "\<forall>k. reads m (ata + 7) + 4 \<le> k \<and> k < j \<longrightarrow> dev m (ata + 7) k AND 0x80 \<noteq> 0"
  shows "\<exists>r m'. ata_identify ata m = Some (r, m') \<and>
    (r = 0 \<longleftrightarrow> \<not> bit (dev m (ata + 7) (j + 1)) 0 \<and> \<not> bit (dev m (ata + 7) (j + 1)) 5 \<and> bit (dev m (ata + 7) (j + 1)) 3) \<and>
    outs m' = outs m @ [(ata + 6, if ata = PRIMARY_ATA then 0xA0 else 0xB0), (ata + 3, 0), (ata + 4, 0), (ata + 5, 0),
      (ata + 2, 0), (ata + 7, 0xEC)]"
proof -
  let ?w = "[(ata + 3, 0), (ata + 4, 0), (ata + 5, 0), (ata + 2, 0), (ata + 7, 0xEC)]"
  let ?m1 = "out_all ?w (out (ata + 6) (if ata = PRIMARY_ATA then 0xA0 else 0xB0) m)"
  let ?i = "\<lambda>m. snd (in_port (ata + 7) m)"
  let ?m2 = "?i (?i (?i (?i ?m1)))"
  have "reads ?m2 (ata + 7) + (j - (reads m (ata + 7) + 4)) = j" using assms(2) by simp
  then obtain m3 where m3: "wait_not_busy ata ?m2 = Some m3" "outs m3 = outs ?m2" "dev m3 = dev ?m2"
    "reads m3 (ata + 7) = Suc j"
    using wait_not_busy_upto [of ?m2 ata _ j] assms(3,4) by (auto simp: ATA_SC_BSY_def)
  let ?st = "dev m (ata + 7) (Suc j)"
  have bits: "?st AND 1 \<noteq> 0 \<longleftrightarrow> bit ?st 0" "?st AND 0x20 \<noteq> 0 \<longleftrightarrow> bit ?st 5" "?st AND 8 = 0 \<longleftrightarrow> \<not> bit ?st 3"
  proof -
    have b: "v AND push_bit n 1 = 0 \<longleftrightarrow> \<not> bit v n" for v :: u8 and n
      by (simp add: bit_iff_and_push_bit_not_eq_0)
    show "?st AND 1 \<noteq> 0 \<longleftrightarrow> bit ?st 0" "?st AND 0x20 \<noteq> 0 \<longleftrightarrow> bit ?st 5" "?st AND 8 = 0 \<longleftrightarrow> \<not> bit ?st 3"
      using b [of ?st 0] b [of ?st 5] b [of ?st 3] by simp_all
  qed
  have sel: "ata_select ata m = (0, out (ata + 6) (if ata = PRIMARY_ATA then 0xA0 else 0xB0) m)"
    using assms(1) by (auto simp: ata_select_def PRIMARY_ATA_def SECONDARY_ATA_def)
  have "ata_identify ata m = Some (if ?st AND 1 \<noteq> 0 then 2 else if ?st AND 0x20 \<noteq> 0 then 3
      else if ?st AND 8 = 0 then 4 else 0, snd (in_port (ata + 7) m3))"
    using m3(1,3,4) by (simp add: ata_identify_def sel ide_polling_def Let_def in_port_def [of _ m3] ATA_SC_ERR_def ATA_SC_DF_def ATA_SC_DRQ_def)
  then show ?thesis using m3(2) bits by auto
qed

theorem ata_identify_spec_witness:
  "\<exists>r m'. ata_identify 0x1F0 (quiet_machine 0x48) = Some (r, m') \<and> r = 0"
  using ata_identify_spec [of "0x1F0" "quiet_machine 0x48" 4] by (auto simp: PRIMARY_ATA_def quiet_machine_def bit_simps)

end
