(* ===== verification/Dl_List.thy ===== *)
theory Dl_List
  imports Heap_Theorems
begin

text \<open>
  \<^verbatim>\<open>src/src/include/data_structures/dl_list.h\<close>: the doubly linked list that the macro
  \<^verbatim>\<open>IMPLEMENT_LIST(Type)\<close> defines for an element type, here the type variable of the node. The
  nodes are objects in regions of the kernel heap, which the operations request and give back.
\<close>

section \<open>Structures\<close>

record 'a node_t =
  node_data :: 'a
  node_next :: u32
  node_prev :: u32

record list_t =
  list_head :: u32
  list_tail :: u32

text \<open>
  The memory of the lists: the heap, and the nodes and list headers that lie in it. \<open>node_size\<close>
  is \<^verbatim>\<open>sizeof(Type##_node)\<close>.
\<close>

record 'a lists =
  heap_mem :: kmem
  node_store :: "'a node_t store"
  list_store :: "list_t store"
  node_size :: u32

abbreviation dl_file :: string where
  "dl_file \<equiv> ''src/include/data_structures/dl_list.h''"

definition get_node :: "nat \<Rightarrow> u32 \<Rightarrow> 'a lists \<Rightarrow> 'a node_t res" where
  "get_node line p s = deref dl_file line (node_store s) p"

definition get_list :: "nat \<Rightarrow> u32 \<Rightarrow> 'a lists \<Rightarrow> list_t res" where
  "get_list line ll s = deref dl_file line (list_store s) ll"

definition set_node :: "nat \<Rightarrow> u32 \<Rightarrow> ('a node_t \<Rightarrow> 'a node_t) \<Rightarrow> 'a lists \<Rightarrow> 'a lists res" where
  "set_node line p f s = res_bind (update_at dl_file line p f (node_store s)) (\<lambda>m. Inr (s\<lparr>node_store := m\<rparr>))"

definition set_list :: "nat \<Rightarrow> u32 \<Rightarrow> (list_t \<Rightarrow> list_t) \<Rightarrow> 'a lists \<Rightarrow> 'a lists res" where
  "set_list line ll f s = res_bind (update_at dl_file line ll f (list_store s)) (\<lambda>m. Inr (s\<lparr>list_store := m\<rparr>))"

text \<open>\<^verbatim>\<open>free(p)\<close>: the region goes back to the heap, and the node is no object any more.\<close>

definition free_node :: "u32 \<Rightarrow> 'a lists \<Rightarrow> 'a lists res" where
  "free_node p s = res_bind (heap_free p (heap_mem s)) (\<lambda>h.
     Inr (s\<lparr>heap_mem := h, node_store := (node_store s)(p := None)\<rparr>))"

section \<open>Creation, state and ends\<close>

definition list_create :: "'a lists \<Rightarrow> (u32 \<times> 'a lists) res" where
  "list_create s = res_bind (malloc 8 (heap_mem s)) (\<lambda>(new_ll, h).
     if new_ll = 0 then Inr (0, s\<lparr>heap_mem := h\<rparr>)
     else Inr (new_ll, s\<lparr>heap_mem := h,
       list_store := (list_store s)(new_ll \<mapsto> \<lparr>list_head = 0, list_tail = 0\<rparr>)\<rparr>))"

text \<open>\<^verbatim>\<open>(ll->head && !ll->tail) || (!ll->head && ll->tail)\<close>\<close>

definition half_linked :: "list_t \<Rightarrow> bool" where
  "half_linked l \<longleftrightarrow> (list_head l \<noteq> 0 \<and> list_tail l = 0) \<or> (list_head l = 0 \<and> list_tail l \<noteq> 0)"

definition list_is_empty :: "u32 \<Rightarrow> 'a lists \<Rightarrow> i32 res" where
  "list_is_empty ll s =
     (if ll = 0 then Inr (- 1)
      else res_bind (get_list 47 ll s) (\<lambda>l.
        if half_linked l then Inr (- 1)
        else if list_head l \<noteq> 0 \<and> list_tail l \<noteq> 0 then Inr 0 else Inr 1))"

text \<open>\<^verbatim>\<open>!ll || !ll->head || !ll->tail\<close>\<close>

definition no_ends :: "nat \<Rightarrow> u32 \<Rightarrow> 'a lists \<Rightarrow> bool res" where
  "no_ends line ll s =
     (if ll = 0 then Inr True
      else res_bind (get_list line ll s) (\<lambda>l. Inr (list_head l = 0 \<or> list_tail l = 0)))"

definition list_begin :: "u32 \<Rightarrow> 'a lists \<Rightarrow> u32 res" where
  "list_begin ll s = res_bind (no_ends 188 ll s) (\<lambda>b.
     if b then Inr 0 else res_bind (get_list 189 ll s) (\<lambda>l. Inr (list_head l)))"

definition list_end :: "u32 \<Rightarrow> 'a lists \<Rightarrow> u32 res" where
  "list_end ll s = res_bind (no_ends 193 ll s) (\<lambda>b.
     if b then Inr 0 else res_bind (get_list 194 ll s) (\<lambda>l. Inr (list_tail l)))"

text \<open>
  Where a function reports through \<^verbatim>\<open>err_code\<close>, the result starts with the reported number; a
  caller that passes \<^verbatim>\<open>NULL\<close> drops it. \<open>0\<close> is \<^verbatim>\<open>(Type){0}\<close>.
\<close>

definition list_front :: "u32 \<Rightarrow> ('a :: zero) lists \<Rightarrow> (i32 \<times> 'a) res" where
  "list_front ll s = res_bind (no_ends 200 ll s) (\<lambda>b.
     if b then Inr (1, 0)
     else res_bind (get_list 204 ll s) (\<lambda>l.
          res_bind (get_node 204 (list_head l) s) (\<lambda>n. Inr (0, node_data n))))"

definition list_back :: "u32 \<Rightarrow> ('a :: zero) lists \<Rightarrow> (i32 \<times> 'a) res" where
  "list_back ll s = res_bind (no_ends 210 ll s) (\<lambda>b.
     if b then Inr (1, 0)
     else res_bind (get_list 214 ll s) (\<lambda>l.
          res_bind (get_node 214 (list_tail l) s) (\<lambda>n. Inr (0, node_data n))))"

section \<open>Push\<close>

text \<open>A new node whose fields are set; \<^verbatim>\<open>NULL\<close> when the heap has no room.\<close>

definition new_node :: "'a \<Rightarrow> 'a lists \<Rightarrow> (u32 \<times> 'a lists) res" where
  "new_node v s = res_bind (malloc (node_size s) (heap_mem s)) (\<lambda>(node, h).
     if node = 0 then Inr (0, s\<lparr>heap_mem := h\<rparr>)
     else Inr (node, s\<lparr>heap_mem := h,
       node_store := (node_store s)(node \<mapsto> \<lparr>node_data = v, node_next = 0, node_prev = 0\<rparr>)\<rparr>))"

definition list_push_back :: "u32 \<Rightarrow> 'a \<Rightarrow> 'a lists \<Rightarrow> (i32 \<times> 'a lists) res" where
  "list_push_back ll v s =
     (if ll = 0 then Inr (1, s)
      else res_bind (new_node v s) (\<lambda>(node, s).
        if node = 0 then Inr (2, s)
        else res_bind (list_is_empty ll s) (\<lambda>e.
          if e = - 1 then res_bind (free_node node s) (\<lambda>s. Inr (1, s))
          else if e = 0 then
            res_bind (get_list 69 ll s) (\<lambda>l.
            res_bind (set_node 69 node (\<lambda>n. n\<lparr>node_prev := list_tail l\<rparr>) s) (\<lambda>s.
            res_bind (set_node 70 (list_tail l) (\<lambda>n. n\<lparr>node_next := node\<rparr>) s) (\<lambda>s.
            res_bind (set_list 71 ll (\<lambda>l. l\<lparr>list_tail := node\<rparr>) s) (\<lambda>s. Inr (0, s)))))
          else
            res_bind (set_list 74 ll (\<lambda>l. l\<lparr>list_head := node, list_tail := node\<rparr>) s) (\<lambda>s. Inr (0, s)))))"

definition list_push_front :: "u32 \<Rightarrow> 'a \<Rightarrow> 'a lists \<Rightarrow> (i32 \<times> 'a lists) res" where
  "list_push_front ll v s =
     (if ll = 0 then Inr (1, s)
      else res_bind (new_node v s) (\<lambda>(node, s).
        if node = 0 then Inr (2, s)
        else res_bind (list_is_empty ll s) (\<lambda>e.
          if e = - 1 then res_bind (free_node node s) (\<lambda>s. Inr (1, s))
          else if e = 0 then
            res_bind (get_list 97 ll s) (\<lambda>l.
            res_bind (set_node 97 node (\<lambda>n. n\<lparr>node_next := list_head l\<rparr>) s) (\<lambda>s.
            res_bind (set_node 98 (list_head l) (\<lambda>n. n\<lparr>node_prev := node\<rparr>) s) (\<lambda>s.
            res_bind (set_list 99 ll (\<lambda>l. l\<lparr>list_head := node\<rparr>) s) (\<lambda>s. Inr (0, s)))))
          else
            res_bind (set_list 102 ll (\<lambda>l. l\<lparr>list_head := node, list_tail := node\<rparr>) s) (\<lambda>s. Inr (0, s)))))"

section \<open>Pop\<close>

definition list_pop_front :: "u32 \<Rightarrow> ('a :: zero) lists \<Rightarrow> (i32 \<times> 'a \<times> 'a lists) res" where
  "list_pop_front ll s =
     (if ll = 0 then Inr (1, 0, s)
      else res_bind (list_is_empty ll s) (\<lambda>e.
        if e = 1 \<or> e = - 1 then Inr (1, 0, s)
        else
          res_bind (get_list 122 ll s) (\<lambda>l.
          res_bind (get_node 123 (list_head l) s) (\<lambda>n.
            if list_head l = list_tail l then
              res_bind (free_node (list_head l) s) (\<lambda>s.
              res_bind (set_list 127 ll (\<lambda>l. l\<lparr>list_head := 0, list_tail := 0\<rparr>) s) (\<lambda>s.
                Inr (0, node_data n, s)))
            else
              res_bind (set_list 134 ll (\<lambda>l. l\<lparr>list_head := node_next n\<rparr>) s) (\<lambda>s.
              res_bind (set_node 135 (node_next n) (\<lambda>n. n\<lparr>node_prev := 0\<rparr>) s) (\<lambda>s.
              res_bind (free_node (list_head l) s) (\<lambda>s. Inr (0, node_data n, s))))))))"

text \<open>\<^verbatim>\<open>while (temp_ptr->next != ll->tail) temp_ptr = temp_ptr->next;\<close>\<close>

partial_function (option) before_tail :: "'a lists \<Rightarrow> u32 \<Rightarrow> u32 \<Rightarrow> u32 res option" where
  "before_tail s last_node temp_ptr =
     (case get_node 170 temp_ptr s of
        Inl e \<Rightarrow> Some (Inl e)
      | Inr n \<Rightarrow> if node_next n \<noteq> last_node then before_tail s last_node (node_next n) else Some (Inr temp_ptr))"

declare before_tail.simps [code]

definition list_pop_back :: "u32 \<Rightarrow> ('a :: zero) lists \<Rightarrow> (i32 \<times> 'a \<times> 'a lists) res" where
  "list_pop_back ll s =
     (if ll = 0 then Inr (1, 0, s)
      else res_bind (list_is_empty ll s) (\<lambda>e.
        if e = 1 \<or> e = - 1 then Inr (1, 0, s)
        else
          res_bind (get_list 157 ll s) (\<lambda>l.
            if list_head l = list_tail l then
              res_bind (get_node 158 (list_head l) s) (\<lambda>n.
              res_bind (free_node (list_head l) s) (\<lambda>s.
              res_bind (set_list 162 ll (\<lambda>l. l\<lparr>list_head := 0, list_tail := 0\<rparr>) s) (\<lambda>s.
                Inr (0, node_data n, s))))
            else
              res_bind (loop_res (before_tail s (list_tail l) (list_head l))) (\<lambda>temp_ptr.
              res_bind (get_node 173 temp_ptr s) (\<lambda>t.
              res_bind (get_node 173 (node_next t) s) (\<lambda>n.
              res_bind (free_node (node_next t) s) (\<lambda>s.
              res_bind (set_node 176 temp_ptr (\<lambda>n. n\<lparr>node_next := 0\<rparr>) s) (\<lambda>s.
              res_bind (set_list 178 ll (\<lambda>l. l\<lparr>list_tail := temp_ptr\<rparr>) s) (\<lambda>s.
                Inr (0, node_data n, s))))))))))"

section \<open>Size and access by index\<close>

partial_function (option) count_to :: "'a lists \<Rightarrow> u32 \<Rightarrow> u32 \<Rightarrow> i32 \<Rightarrow> i32 res option" where
  "count_to s last_node ptr counter =
     (if ptr \<noteq> last_node then
        (case get_node 230 ptr s of
           Inl e \<Rightarrow> Some (Inl e)
         | Inr n \<Rightarrow> count_to s last_node (node_next n) (counter + 1))
      else Some (Inr counter))"

declare count_to.simps [code]

definition list_size :: "u32 \<Rightarrow> 'a lists \<Rightarrow> i32 res" where
  "list_size ll s =
     (if ll = 0 then Inr (- 1)
      else res_bind (get_list 218 ll s) (\<lambda>l.
        if half_linked l then Inr (- 1)
        else if list_head l = 0 then Inr 0
        else if list_head l = list_tail l then Inr 1
        else loop_res (count_to s (list_tail l) (list_head l) 1)))"

text \<open>\<open>ptr = ptr->next\<close>, \<open>k\<close> times.\<close>

fun follow :: "nat \<Rightarrow> nat \<Rightarrow> u32 \<Rightarrow> 'a lists \<Rightarrow> u32 res" where
  "follow line 0 ptr s = Inr ptr"
| "follow line (Suc k) ptr s = res_bind (get_node line ptr s) (\<lambda>n. follow line k (node_next n) s)"

text \<open>The guard \<^verbatim>\<open>!ll || half linked || over((unsigned) size)\<close>, evaluated from left to right.\<close>

definition bad_index :: "nat \<Rightarrow> u32 \<Rightarrow> (u32 \<Rightarrow> bool) \<Rightarrow> 'a lists \<Rightarrow> bool res" where
  "bad_index line ll over s =
     (if ll = 0 then Inr True
      else res_bind (get_list line ll s) (\<lambda>l.
        if half_linked l then Inr True
        else res_bind (list_size ll s) (\<lambda>n. Inr (over n))))"

definition list_node_at :: "u32 \<Rightarrow> u32 \<Rightarrow> 'a lists \<Rightarrow> (i32 \<times> u32) res" where
  "list_node_at ll index s = res_bind (bad_index 260 ll (\<lambda>n. index \<ge> n) s) (\<lambda>b.
     if b then Inr (1, 0)
     else res_bind (get_list 264 ll s) (\<lambda>l.
       if list_head l = 0 then Inr (1, 0)
       else res_bind (follow 271 (unat index) (list_head l) s) (\<lambda>ptr. Inr (0, ptr))))"

definition list_at :: "u32 \<Rightarrow> u32 \<Rightarrow> ('a :: zero) lists \<Rightarrow> (i32 \<times> 'a) res" where
  "list_at ll index s = res_bind (bad_index 240 ll (\<lambda>n. index \<ge> n) s) (\<lambda>b.
     if b then Inr (1, 0)
     else res_bind (get_list 244 ll s) (\<lambda>l.
       if list_head l = 0 then Inr (1, 0)
       else res_bind (follow 251 (unat index) (list_head l) s) (\<lambda>ptr.
            res_bind (get_node 253 ptr s) (\<lambda>n. Inr (0, node_data n)))))"

section \<open>Insertion and removal\<close>

definition list_insert :: "u32 \<Rightarrow> u32 \<Rightarrow> 'a \<Rightarrow> 'a lists \<Rightarrow> (i32 \<times> 'a lists) res" where
  "list_insert ll index v s = res_bind (bad_index 277 ll (\<lambda>n. index > n) s) (\<lambda>b.
     if b then Inr (1, s)
     else if index = 0 then list_push_front ll v s
     else res_bind (list_size ll s) (\<lambda>n.
       if index = n then list_push_back ll v s
       else res_bind (get_list 285 ll s) (\<lambda>l.
         if list_head l = 0 then Inr (1, s)
         else res_bind (calloc 1 (node_size s) (heap_mem s)) (\<lambda>(new, h).
           if new = 0 then Inr (2, s\<lparr>heap_mem := h\<rparr>)
           else
             let s = s\<lparr>heap_mem := h\<rparr>
             in res_bind (follow 294 (unat index - 1) (list_head l) s) (\<lambda>ptr.
                res_bind (get_node 298 ptr s) (\<lambda>p.
                let s = s\<lparr>node_store := (node_store s)(new \<mapsto>
                      \<lparr>node_data = v, node_next = node_next p, node_prev = ptr\<rparr>)\<rparr>
                in res_bind (set_node 301 (node_next p) (\<lambda>n. n\<lparr>node_prev := new\<rparr>) s) (\<lambda>s.
                   res_bind (set_node 302 ptr (\<lambda>n. n\<lparr>node_next := new\<rparr>) s) (\<lambda>s. Inr (0, s)))))))))"

text \<open>\<^verbatim>\<open>temp = ptr->next; ptr->next = ptr->next->next; ptr->next->prev = ptr; free(temp);\<close>\<close>

definition unlink_next :: "nat \<Rightarrow> u32 \<Rightarrow> 'a lists \<Rightarrow> 'a lists res" where
  "unlink_next line ptr s =
     res_bind (get_node line ptr s) (\<lambda>p.
     let temp = node_next p
     in res_bind (get_node line temp s) (\<lambda>t.
        res_bind (set_node line ptr (\<lambda>n. n\<lparr>node_next := node_next t\<rparr>) s) (\<lambda>s.
        res_bind (set_node line (node_next t) (\<lambda>n. n\<lparr>node_prev := ptr\<rparr>) s) (\<lambda>s.
          free_node temp s))))"

definition list_remove :: "u32 \<Rightarrow> u32 \<Rightarrow> ('a :: zero) lists \<Rightarrow> (i32 \<times> 'a \<times> 'a lists) res" where
  "list_remove ll index s =
     (if index = 0 then list_pop_front ll s
      else res_bind (list_size ll s) (\<lambda>n.
        if index = n - 1 then list_pop_back ll s
        else res_bind (bad_index 315 ll (\<lambda>n. index \<ge> n) s) (\<lambda>b.
          if b then Inr (1, 0, s)
          else res_bind (get_list 320 ll s) (\<lambda>l.
            if list_head l = 0 then Inr (1, 0, s)
            else
              res_bind (follow 328 (unat index - 1) (list_head l) s) (\<lambda>ptr.
              res_bind (get_node 330 ptr s) (\<lambda>p.
              res_bind (get_node 330 (node_next p) s) (\<lambda>t.
              res_bind (unlink_next 333 ptr s) (\<lambda>s. Inr (0, node_data t, s)))))))))"

text \<open>\<^verbatim>\<open>for (; ptr && ptr->next != _ptr; ptr = ptr->next);\<close>\<close>

partial_function (option) before_node :: "'a lists \<Rightarrow> u32 \<Rightarrow> u32 \<Rightarrow> u32 res option" where
  "before_node s p ptr =
     (if ptr = 0 then Some (Inr 0)
      else
        (case get_node 359 ptr s of
           Inl e \<Rightarrow> Some (Inl e)
         | Inr n \<Rightarrow> if node_next n \<noteq> p then before_node s p (node_next n) else Some (Inr ptr)))"

declare before_node.simps [code]

definition list_remove_node :: "u32 \<Rightarrow> u32 \<Rightarrow> ('a :: zero) lists \<Rightarrow> (i32 \<times> 'a \<times> 'a lists) res" where
  "list_remove_node ll p s =
     res_bind (get_list 342 ll s) (\<lambda>l.
       if p = list_head l then list_pop_front ll s
       else if p = list_tail l then list_pop_back ll s
       else if ll = 0 \<or> half_linked l then Inr (1, 0, s)
       else if list_head l = 0 then Inr (1, 0, s)
       else
         res_bind (loop_res (before_node s p (list_head l))) (\<lambda>ptr.
         res_bind (unlink_next 361 ptr s) (\<lambda>s. Inr (0, 0, s))))"

partial_function (option) clear_loop :: "u32 \<Rightarrow> i32 \<Rightarrow> ('a :: zero) lists \<Rightarrow> 'a lists res option" where
  "clear_loop ll err_code s =
     (if err_code = 0 then
        (case list_pop_back ll s of
           Inl e \<Rightarrow> Some (Inl e)
         | Inr (e, v, s) \<Rightarrow> clear_loop ll e s)
      else Some (Inr s))"

declare clear_loop.simps [code]

definition list_clear :: "u32 \<Rightarrow> ('a :: zero) lists \<Rightarrow> 'a lists res" where
  "list_clear ll s =
     res_bind (list_pop_back ll s) (\<lambda>(e, v, s). loop_res (clear_loop ll e s))"

section \<open>Display\<close>

text \<open>The arguments of the successive calls of \<^verbatim>\<open>display\<close>; \<open>step\<close> is the link the loop follows.\<close>

partial_function (option) display_loop ::
  "nat \<Rightarrow> ('a node_t \<Rightarrow> u32) \<Rightarrow> 'a lists \<Rightarrow> u32 \<Rightarrow> 'a list \<Rightarrow> 'a list res option" where
  "display_loop line step s ptr shown =
     (if ptr \<noteq> 0 then
        (case get_node line ptr s of
           Inl e \<Rightarrow> Some (Inl e)
         | Inr n \<Rightarrow> display_loop line step s (step n) (shown @ [node_data n]))
      else Some (Inr shown))"

declare display_loop.simps [code]

definition list_display :: "u32 \<Rightarrow> 'a lists \<Rightarrow> 'a list res" where
  "list_display ll s = res_bind (no_ends 24 ll s) (\<lambda>b.
     if b then Inr []
     else res_bind (get_list 26 ll s) (\<lambda>l. loop_res (display_loop 27 node_next s (list_head l) [])))"

definition list_display_reverse :: "u32 \<Rightarrow> 'a lists \<Rightarrow> 'a list res" where
  "list_display_reverse ll s = res_bind (no_ends 31 ll s) (\<lambda>b.
     if b then Inr []
     else res_bind (get_list 33 ll s) (\<lambda>l. loop_res (display_loop 34 node_prev s (list_tail l) [])))"

end
