(* ===== verification/Dl_Refine.thy ===== *)
theory Dl_Refine
  imports Dl_List
begin

text \<open>
  The doubly linked list refines a sequence: segments of linked nodes, the regions the nodes own,
  and what each operation of \<open>Dl_List\<close> does to the sequence of elements.
\<close>

section \<open>Segments\<close>

text \<open>
  \<open>dseg m a p xs b q\<close>: from \<open>p\<close>, whose predecessor is \<open>a\<close>, the nodes \<open>xs\<close> (address and element)
  are linked both ways; \<open>b\<close> is the last of them and \<open>q\<close> its successor.
\<close>

fun dseg :: "'a node_t store \<Rightarrow> u32 \<Rightarrow> u32 \<Rightarrow> (u32 \<times> 'a) list \<Rightarrow> u32 \<Rightarrow> u32 \<Rightarrow> bool" where
  "dseg m a p [] b q \<longleftrightarrow> p = q \<and> b = a"
| "dseg m a p ((x, v) # xs) b q \<longleftrightarrow> p = x \<and> x \<noteq> 0 \<and>
     (case m x of None \<Rightarrow> False
      | Some n \<Rightarrow> node_data n = v \<and> node_prev n = a \<and> dseg m x (node_next n) xs b q)"

abbreviation addrs :: "(u32 \<times> 'a) list \<Rightarrow> u32 list" where
  "addrs xs \<equiv> map fst xs"

lemma dseg_append:
  "dseg m a p (xs @ ys) b q \<longleftrightarrow> (\<exists>c r. dseg m a p xs c r \<and> dseg m c r ys b q)"
  by (induction m a p xs b q rule: dseg.induct) (auto split: option.splits)

lemma dseg_first: "dseg m a p xs b q \<Longrightarrow> p = hd (addrs xs @ [q])"
  by (cases xs) auto

lemma dseg_last: "dseg m a p xs b q \<Longrightarrow> b = last (a # addrs xs)"
  by (induction m a p xs b q rule: dseg.induct) (auto split: option.splits)

lemma dseg_nonzero: "dseg m a p xs b q \<Longrightarrow> 0 \<notin> set (addrs xs)"
  by (induction m a p xs b q rule: dseg.induct) (auto split: option.splits)

lemma dseg_cong:
  "(\<And>x. x \<in> set (addrs xs) \<Longrightarrow> m' x = m x) \<Longrightarrow> dseg m' a p xs b q = dseg m a p xs b q"
  by (induction m a p xs b q rule: dseg.induct) (auto split: option.splits)

lemma dseg_upd [simp]: "x \<notin> set (addrs xs) \<Longrightarrow> dseg (m(x := n)) a p xs b q = dseg m a p xs b q"
  by (rule dseg_cong) auto

text \<open>A node in the middle.\<close>

lemma dseg_node:
  "dseg m a p (xs @ (x, v) # ys) b q \<longleftrightarrow>
    (\<exists>n. dseg m a p xs (node_prev n) x \<and> x \<noteq> 0 \<and> m x = Some n \<and> node_data n = v \<and>
      dseg m x (node_next n) ys b q)"
  by (auto simp: dseg_append split: option.splits)

text \<open>Redirecting the links at both ends of a segment.\<close>

lemma dseg_set_next:
  assumes "dseg m a p (xs @ [(x, v)]) b q" "distinct (addrs (xs @ [(x, v)]))"
  shows "\<exists>n. m x = Some n \<and> node_next n = q \<and> dseg (m(x \<mapsto> n\<lparr>node_next := r\<rparr>)) a p (xs @ [(x, v)]) x r"
  using assms by (auto simp: dseg_append split: option.splits)

lemma dseg_set_prev:
  assumes "dseg m a p ((x, v) # xs) b q" "distinct (addrs ((x, v) # xs))"
  shows "\<exists>n. m x = Some n \<and> node_prev n = a \<and> dseg (m(x \<mapsto> n\<lparr>node_prev := c\<rparr>)) c p ((x, v) # xs) b q"
  using assms by (auto split: option.splits)

definition dlist :: "'a node_t store \<Rightarrow> list_t \<Rightarrow> (u32 \<times> 'a) list \<Rightarrow> bool" where
  "dlist m l xs \<longleftrightarrow> dseg m 0 (list_head l) xs (list_tail l) 0 \<and> distinct (addrs xs)"

lemma dlist_ends:
  assumes "dlist m l xs"
  shows "list_head l = hd (addrs xs @ [0])" "list_tail l = last (0 # addrs xs)" "0 \<notin> set (addrs xs)"
  using assms dseg_first dseg_last dseg_nonzero unfolding dlist_def by blast+

lemma dlist_empty_iff:
  assumes "dlist m l xs"
  shows "list_head l = 0 \<longleftrightarrow> xs = []" "list_tail l = 0 \<longleftrightarrow> xs = []" "half_linked l = False"
proof -
  note E = dlist_ends [OF assms]
  show h: "list_head l = 0 \<longleftrightarrow> xs = []" using E(1,3) by (cases xs) auto
  show t: "list_tail l = 0 \<longleftrightarrow> xs = []" using E(2,3) by (cases xs rule: rev_cases) auto
  show "half_linked l = False" using h t by (simp add: half_linked_def)
qed

lemma dlist_single_iff:
  assumes "dlist m l xs" "xs \<noteq> []"
  shows "list_head l = list_tail l \<longleftrightarrow> length xs = 1"
proof (cases "length xs = 1")
  case True
  then show ?thesis using dlist_ends [OF assms(1)] by (cases xs) auto
next
  case False
  then obtain y ys z where xs: "xs = y # ys @ [z]"
    using assms(2) by (cases xs; cases "tl xs" rule: rev_cases) auto
  then show ?thesis using dlist_ends [OF assms(1)] assms(1) by (auto simp: dlist_def)
qed

lemma dlist_length:
  assumes "dlist m l xs"
  shows "length xs < 4294967296"
proof -
  have "distinct (map unat (0 # addrs xs))"
    unfolding distinct_map using assms dlist_ends(3) [OF assms]
    by (auto simp: inj_on_def word_unat_eq_iff dlist_def)
  then have "length (0 # addrs xs) = card (set (map unat (0 # addrs xs)))"
    by (metis distinct_card length_map)
  also have "\<dots> \<le> card {..<4294967296 :: nat}" by (intro card_mono) auto
  finally show ?thesis by simp
qed

section \<open>The loops\<close>

lemma get_node_simps [simp]: "node_store s p = Some n \<Longrightarrow> get_node line p s = Inr n"
  by (simp add: get_node_def)

lemma set_node_simps [simp]:
  "node_store s p = Some n \<Longrightarrow> set_node line p f s = Inr (s\<lparr>node_store := (node_store s)(p \<mapsto> f n)\<rparr>)"
  by (simp add: set_node_def)

lemma get_list_simps [simp]: "list_store s ll = Some l \<Longrightarrow> get_list line ll s = Inr l"
  by (simp add: get_list_def)

lemma set_list_simps [simp]:
  "list_store s ll = Some l \<Longrightarrow> set_list line ll f s = Inr (s\<lparr>list_store := (list_store s)(ll \<mapsto> f l)\<rparr>)"
  by (simp add: set_list_def)

lemma count_to_seg:
  "dseg (node_store s) a p xs b q \<Longrightarrow> q \<notin> set (addrs xs) \<Longrightarrow>
    count_to s q p c = Some (Inr (c + word_of_nat (length xs)))"
proof (induction xs arbitrary: a p c)
  case Nil
  then show ?case by (subst count_to.simps) simp
next
  case (Cons xv xs)
  obtain x v where xv: "xv = (x, v)" by force
  then obtain n where n: "node_store s x = Some n" "p = x" "dseg (node_store s) x (node_next n) xs b q"
    using Cons.prems by (auto split: option.splits)
  moreover have "x \<noteq> q" using Cons.prems(2) xv by auto
  ultimately show ?case using Cons.IH [OF n(3), of "c + 1"] Cons.prems(2) xv
    by (subst count_to.simps) (simp add: algebra_simps)
qed

lemma before_tail_seg:
  "dseg (node_store s) a p (xs @ [(x, v)]) b q \<Longrightarrow> q \<notin> set (addrs (xs @ [(x, v)])) \<Longrightarrow>
    before_tail s q p = Some (Inr x)"
proof (induction xs arbitrary: a p)
  case Nil
  then show ?case by (subst before_tail.simps) (auto split: option.splits)
next
  case (Cons yw xs)
  obtain y w where yw: "yw = (y, w)" by force
  then obtain n where n: "node_store s y = Some n" "p = y"
    "dseg (node_store s) y (node_next n) (xs @ [(x, v)]) b q"
    using Cons.prems by (auto split: option.splits)
  have "node_next n \<noteq> q" using dseg_first [OF n(3)] Cons.prems(2) by (cases xs) auto
  then show ?case using Cons.IH [OF n(3)] Cons.prems(2) yw n by (subst before_tail.simps) simp
qed

lemma before_node_seg:
  "dseg (node_store s) a p (xs @ [(x, v)]) b q \<Longrightarrow> q \<notin> set (addrs (xs @ [(x, v)])) \<Longrightarrow>
    before_node s q p = Some (Inr x)"
proof (induction xs arbitrary: a p)
  case Nil
  then show ?case by (subst before_node.simps) (auto split: option.splits)
next
  case (Cons yw xs)
  obtain y w where yw: "yw = (y, w)" by force
  then obtain n where n: "node_store s y = Some n" "p = y" "y \<noteq> 0"
    "dseg (node_store s) y (node_next n) (xs @ [(x, v)]) b q"
    using Cons.prems by (auto split: option.splits)
  have "node_next n \<noteq> q" using dseg_first [OF n(4)] Cons.prems(2) by (cases xs) auto
  then show ?case using Cons.IH [OF n(4)] Cons.prems(2) yw n by (subst before_node.simps) simp
qed

lemma follow_seg:
  "dseg (node_store s) a p (xs @ (x, v) # ys) b q \<Longrightarrow> follow line (length xs) p s = Inr x"
proof (induction xs arbitrary: a p)
  case (Cons yw xs)
  obtain y w where yw: "yw = (y, w)" by force
  then obtain n where n: "node_store s y = Some n" "p = y"
    "dseg (node_store s) y (node_next n) (xs @ (x, v) # ys) b q"
    using Cons.prems by (auto split: option.splits)
  then show ?case using Cons.IH [OF n(3)] yw by simp
qed (auto split: option.splits)

lemma display_forward_seg:
  "dseg (node_store s) a p xs b 0 \<Longrightarrow>
    display_loop line node_next s p shown = Some (Inr (shown @ map snd xs))"
proof (induction xs arbitrary: a p shown)
  case Nil
  then show ?case by (subst display_loop.simps) simp
next
  case (Cons xv xs)
  obtain x v where xv: "xv = (x, v)" by force
  then obtain n where n: "node_store s x = Some n" "p = x" "x \<noteq> 0" "node_data n = v"
    "dseg (node_store s) x (node_next n) xs b 0"
    using Cons.prems by (auto split: option.splits)
  then show ?case using Cons.IH [OF n(5)] xv by (subst display_loop.simps) simp
qed

lemma display_backward_seg:
  "dseg (node_store s) 0 p xs b q \<Longrightarrow>
    display_loop line node_prev s b shown = Some (Inr (shown @ rev (map snd xs)))"
proof (induction xs arbitrary: b q shown rule: rev_induct)
  case Nil
  then show ?case by (subst display_loop.simps) simp
next
  case (snoc xv xs)
  obtain x v where xv: "xv = (x, v)" by force
  have "b = x" using dseg_last [OF snoc.prems] xv by simp
  moreover from snoc.prems xv obtain n where n: "node_store s x = Some n" "x \<noteq> 0" "node_data n = v"
    "dseg (node_store s) 0 p xs (node_prev n) x"
    by (auto simp: dseg_node [where ys = "[]"])
  ultimately show ?case using snoc.IH [OF n(4)] xv by (subst display_loop.simps) simp
qed

section \<open>Regions of the nodes\<close>

text \<open>
  \<open>owns R A h\<close>: the live regions of the heap are \<open>R\<close>, which belong to others, and one region
  at each address of \<open>A\<close>.
\<close>

definition owns :: "region set \<Rightarrow> u32 set \<Rightarrow> kmem \<Rightarrow> bool" where
  "owns R A h \<longleftrightarrow> heap_ok h \<and> R \<subseteq> live h \<and> fst ` live h = fst ` R \<union> A \<and> A \<inter> fst ` R = {}"

lemma live_functional:
  assumes "heap_ok h" "(p, k) \<in> live h" "(p, k') \<in> live h"
  shows "k = k'"
proof -
  from assms(1) obtain bs where inv: "heap_inv bs h" by (auto simp: heap_ok_def)
  obtain b c where b: "b \<in> set bs" "(p, k) = blk_region b" "c \<in> set bs" "(p, k') = blk_region c"
    using assms(2,3) by (auto simp: live_eq [OF inv])
  then have "blk_addr b = blk_addr c" by (auto simp: blk_region_def)
  from blk_region_inject [OF inv b(1,3) this] b show ?thesis by (metis prod.inject)
qed

lemma owns_insert:
  assumes "owns R A h" "heap_ok t" "(q, k) \<notin> live h" "live t = insert (q, k) (live h)"
  shows "q \<notin> A \<and> owns R (insert q A) t"
proof -
  have fresh: "q \<notin> fst ` live h"
    using live_functional [OF assms(2), of q k] assms(3,4) by force
  then show ?thesis using assms by (auto simp: owns_def)
qed

lemma owns_malloc:
  assumes "owns R A h" "heap_safe n h" "malloc n h = Inr (q, t)" "q \<noteq> 0"
  shows "q \<notin> A \<and> owns R (insert q A) t"
proof -
  have "heap_ok h" using assms(1) by (simp add: owns_def)
  from kheap.alloc_region [OF this assms(2-4)] obtain k where
    "heap_ok t" "(q, k) \<notin> live h" "live t = insert (q, k) (live h)" by blast
  then show ?thesis by (rule owns_insert [OF assms(1)])
qed

lemma owns_free:
  assumes "owns R A h" "p \<in> A"
  shows "\<exists>t. heap_free p h = Inr t \<and> owns R (A - {p}) t"
proof -
  have O: "heap_ok h" "R \<subseteq> live h" "fst ` live h = fst ` R \<union> A" "A \<inter> fst ` R = {}"
    using assms(1) by (simp_all add: owns_def)
  then obtain k where k: "(p, k) \<in> live h" using assms(2) by force
  from kheap.release_region [OF O(1) k] obtain t where
    t: "heap_free p h = Inr t" "heap_ok t" "live t = live h - {(p, k)}" by blast
  have "fst ` live t = fst ` live h - {p}"
    using live_functional [OF O(1) k] by (force simp: t(3))
  moreover have "p \<notin> fst ` R" using O(4) assms(2) by auto
  moreover from this have "(p, k) \<notin> R" by force
  ultimately have "owns R (A - {p}) t" using O t by (auto simp: owns_def)
  then show ?thesis using t(1) by blast
qed

text \<open>The list \<open>ll\<close> holds the nodes \<open>xs\<close>, each in a region of its own.\<close>

definition dl_rep :: "region set \<Rightarrow> u32 \<Rightarrow> (u32 \<times> 'a) list \<Rightarrow> 'a lists \<Rightarrow> bool" where
  "dl_rep R ll xs s \<longleftrightarrow> ll \<noteq> 0 \<and> (\<exists>l. list_store s ll = Some l \<and> dlist (node_store s) l xs) \<and>
     owns R (set (addrs xs)) (heap_mem s)"

lemma dl_repE:
  assumes "dl_rep R ll xs s"
  obtains l where "ll \<noteq> 0" "list_store s ll = Some l" "dlist (node_store s) l xs"
    "owns R (set (addrs xs)) (heap_mem s)"
  using assms by (auto simp: dl_rep_def)

text \<open>The heap has room for one more node.\<close>

definition room :: "'a lists \<Rightarrow> bool" where
  "room s \<longleftrightarrow> (case malloc (node_size s) (heap_mem s) of Inl e \<Rightarrow> False | Inr (p, h) \<Rightarrow> p \<noteq> 0)"

section \<open>What the operations do\<close>

lemma list_is_empty_rep:
  assumes "dl_rep R ll xs s"
  shows "list_is_empty ll s = Inr (if xs = [] then 1 else 0)"
proof -
  from assms obtain l where l: "ll \<noteq> 0" "list_store s ll = Some l" "dlist (node_store s) l xs"
    by (rule dl_repE)
  then show ?thesis using dlist_empty_iff [OF l(3)] by (simp add: list_is_empty_def)
qed

lemma list_size_rep:
  assumes "dl_rep R ll xs s"
  shows "list_size ll s = Inr (word_of_nat (length xs))"
proof -
  from assms obtain l where l: "ll \<noteq> 0" "list_store s ll = Some l" "dlist (node_store s) l xs"
    by (rule dl_repE)
  note E = dlist_empty_iff [OF l(3)]
  show ?thesis
  proof (cases xs rule: rev_cases)
    case Nil
    then show ?thesis using E l by (simp add: list_size_def)
  next
    case (snoc ys y)
    obtain x v where y: "y = (x, v)" by force
    have D: "dseg (node_store s) 0 (list_head l) (ys @ [(x, v)]) x 0" "distinct (addrs xs)" "list_tail l = x"
      using l(3) dlist_ends(2) [OF l(3)] snoc y by (auto simp: dlist_def)
    from D(1) obtain c where n: "dseg (node_store s) 0 (list_head l) ys c x"
      unfolding dseg_node by blast
    have "x \<notin> set (addrs ys)" using D(2) snoc y by simp
    from count_to_seg [OF n this] show ?thesis
      using E l D(3) dlist_single_iff [OF l(3)] snoc by (auto simp: list_size_def)
  qed
qed

lemma new_node_rep:
  assumes "owns R A (heap_mem s)" "heap_safe (node_size s) (heap_mem s)"
  shows "\<not> room s \<Longrightarrow> new_node v s = Inr (0, s)"
    and "room s \<Longrightarrow> \<exists>q h. q \<noteq> 0 \<and> q \<notin> A \<and> owns R (insert q A) h \<and> new_node v s = Inr (q, s\<lparr>heap_mem := h,
      node_store := (node_store s)(q \<mapsto> \<lparr>node_data = v, node_next = 0, node_prev = 0\<rparr>)\<rparr>)"
proof -
  have ok: "heap_ok (heap_mem s)" using assms(1) by (simp add: owns_def)
  obtain q h where m: "malloc (node_size s) (heap_mem s) = Inr (q, h)"
    using kheap.alloc_returns [OF ok assms(2)] by blast
  show "new_node v s = Inr (0, s)" if "\<not> room s"
    using that m kheap.alloc_null [OF ok assms(2), of h] by (simp add: room_def new_node_def)
  show "\<exists>q h. q \<noteq> 0 \<and> q \<notin> A \<and> owns R (insert q A) h \<and> new_node v s = Inr (q, s\<lparr>heap_mem := h,
      node_store := (node_store s)(q \<mapsto> \<lparr>node_data = v, node_next = 0, node_prev = 0\<rparr>)\<rparr>)" if "room s"
  proof -
    have "q \<noteq> 0" using that m by (simp add: room_def)
    then show ?thesis using owns_malloc [OF assms m] m by (auto simp: new_node_def)
  qed
qed

lemma list_push_back_rep:
  assumes rep: "dl_rep R ll xs s" and safe: "heap_safe (node_size s) (heap_mem s)"
  shows "\<not> room s \<Longrightarrow> list_push_back ll v s = Inr (2, s)"
    and "room s \<Longrightarrow> \<exists>q s'. list_push_back ll v s = Inr (0, s') \<and> dl_rep R ll (xs @ [(q, v)]) s'"
proof -
  from rep obtain l where l: "ll \<noteq> 0" "list_store s ll = Some l" "dlist (node_store s) l xs"
    "owns R (set (addrs xs)) (heap_mem s)" by (rule dl_repE)
  note N = new_node_rep [OF l(4) safe, of v]
  show "list_push_back ll v s = Inr (2, s)" if "\<not> room s"
    using N(1) [OF that] l(1) by (simp add: list_push_back_def)
  assume "room s"
  from N(2) [OF this] obtain q h where q: "q \<noteq> 0" "q \<notin> set (addrs xs)" "owns R (insert q (set (addrs xs))) h"
    and new: "new_node v s = Inr (q, s\<lparr>heap_mem := h,
      node_store := (node_store s)(q \<mapsto> \<lparr>node_data = v, node_next = 0, node_prev = 0\<rparr>)\<rparr>)" by blast
  note E = dlist_empty_iff [OF l(3)]
  show "\<exists>q s'. list_push_back ll v s = Inr (0, s') \<and> dl_rep R ll (xs @ [(q, v)]) s'"
  proof (cases xs rule: rev_cases)
    case Nil
    then show ?thesis using l q new E
      by (auto simp: list_push_back_def list_is_empty_def dl_rep_def dlist_def intro!: exI [of _ q])
  next
    case (snoc ys y)
    obtain x w where y: "y = (x, w)" by force
    let ?m = "(node_store s)(q \<mapsto> \<lparr>node_data = v, node_next = 0, node_prev = x\<rparr>)"
    have D: "dseg (node_store s) 0 (list_head l) (ys @ [(x, w)]) x 0" "distinct (addrs (ys @ [(x, w)]))"
      "list_tail l = x"
      using l(3) dlist_ends(2) [OF l(3)] snoc y by (auto simp: dlist_def)
    have "dseg ?m 0 (list_head l) (ys @ [(x, w)]) x 0" using D(1) q(2) snoc y by simp
    from dseg_set_next [OF this D(2), of q] obtain n where
      n: "?m x = Some n" "dseg (?m(x \<mapsto> n\<lparr>node_next := q\<rparr>)) 0 (list_head l) (ys @ [(x, w)]) x q" by blast
    have "x \<noteq> q" using q(2) snoc y by auto
    then have "dseg (?m(x \<mapsto> n\<lparr>node_next := q\<rparr>)) x q [(q, v)] q 0" using q(1) by simp
    with n(2) have "dseg (?m(x \<mapsto> n\<lparr>node_next := q\<rparr>)) 0 (list_head l) ((ys @ [(x, w)]) @ [(q, v)]) q 0"
      unfolding dseg_append [of _ _ _ "ys @ [(x, w)]"] by blast
    then have "dlist (?m(x \<mapsto> n\<lparr>node_next := q\<rparr>)) (l\<lparr>list_tail := q\<rparr>) (xs @ [(q, v)])"
      using D(2) q(2) snoc y \<open>x \<noteq> q\<close> by (simp add: dlist_def)
    then show ?thesis using l q new E n(1) \<open>x \<noteq> q\<close> D(3) snoc
      by (auto simp: list_push_back_def list_is_empty_def dl_rep_def insert_commute intro!: exI [of _ q])
  qed
qed

lemma list_push_front_rep:
  assumes rep: "dl_rep R ll xs s" and safe: "heap_safe (node_size s) (heap_mem s)"
  shows "\<not> room s \<Longrightarrow> list_push_front ll v s = Inr (2, s)"
    and "room s \<Longrightarrow> \<exists>q s'. list_push_front ll v s = Inr (0, s') \<and> dl_rep R ll ((q, v) # xs) s'"
proof -
  from rep obtain l where l: "ll \<noteq> 0" "list_store s ll = Some l" "dlist (node_store s) l xs"
    "owns R (set (addrs xs)) (heap_mem s)" by (rule dl_repE)
  note N = new_node_rep [OF l(4) safe, of v]
  show "list_push_front ll v s = Inr (2, s)" if "\<not> room s"
    using N(1) [OF that] l(1) by (simp add: list_push_front_def)
  assume "room s"
  from N(2) [OF this] obtain q h where q: "q \<noteq> 0" "q \<notin> set (addrs xs)" "owns R (insert q (set (addrs xs))) h"
    and new: "new_node v s = Inr (q, s\<lparr>heap_mem := h,
      node_store := (node_store s)(q \<mapsto> \<lparr>node_data = v, node_next = 0, node_prev = 0\<rparr>)\<rparr>)" by blast
  note E = dlist_empty_iff [OF l(3)]
  show "\<exists>q s'. list_push_front ll v s = Inr (0, s') \<and> dl_rep R ll ((q, v) # xs) s'"
  proof (cases xs)
    case Nil
    then show ?thesis using l q new E
      by (auto simp: list_push_front_def list_is_empty_def dl_rep_def dlist_def intro!: exI [of _ q])
  next
    case (Cons y ys)
    obtain x w where y: "y = (x, w)" by force
    let ?m = "(node_store s)(q \<mapsto> \<lparr>node_data = v, node_next = x, node_prev = 0\<rparr>)"
    have D: "dseg (node_store s) 0 x ((x, w) # ys) (list_tail l) 0" "distinct (addrs ((x, w) # ys))"
      "list_head l = x"
      using l(3) dlist_ends(1) [OF l(3)] Cons y by (auto simp: dlist_def)
    have "dseg ?m 0 x ((x, w) # ys) (list_tail l) 0"
      using D(1) q(2) Cons y by (subst dseg_upd) auto
    from dseg_set_prev [OF this D(2), of q] obtain n where
      n: "?m x = Some n" "dseg (?m(x \<mapsto> n\<lparr>node_prev := q\<rparr>)) q x ((x, w) # ys) (list_tail l) 0" by blast
    have "x \<noteq> q" using q(2) Cons y by auto
    then have "dlist (?m(x \<mapsto> n\<lparr>node_prev := q\<rparr>)) (l\<lparr>list_head := q\<rparr>) ((q, v) # xs)"
      using n(2) D(2) q(1,2) Cons y by (auto simp: dlist_def)
    then show ?thesis using l q new E n(1) \<open>x \<noteq> q\<close> D(3) Cons
      by (auto simp: list_push_front_def list_is_empty_def dl_rep_def insert_commute intro!: exI [of _ q])
  qed
qed

text \<open>Two neighbours: the segments up to the first and from the second.\<close>

lemma dseg_split:
  "dseg m a p (ys @ (y, w) # (z, u) # zs) b q \<longleftrightarrow>
    dseg m a p (ys @ [(y, w)]) y z \<and> dseg m y z ((z, u) # zs) b q"
proof -
  have "dseg m a p ((ys @ [(y, w)]) @ (z, u) # zs) b q \<longleftrightarrow>
    (\<exists>c r. dseg m a p (ys @ [(y, w)]) c r \<and> dseg m c r ((z, u) # zs) b q)"
    by (rule dseg_append)
  moreover have "c = y" if "dseg m a p (ys @ [(y, w)]) c r" for c r using dseg_last [OF that] by simp
  moreover have "r = z" if "dseg m c r ((z, u) # zs) b q" for c r using that by simp
  ultimately show ?thesis by (metis append.assoc append_Cons append_Nil)
qed

lemma dseg_at_end: "dseg m a p (ys @ [(y, w)]) y q \<Longrightarrow> \<exists>n. m y = Some n \<and> node_next n = q \<and> node_data n = w"
  by (auto simp: dseg_append split: option.splits)

lemma free_node_rep:
  assumes "owns R A (heap_mem s)" "p \<in> A"
  shows "\<exists>h. free_node p s = Inr (s\<lparr>heap_mem := h, node_store := (node_store s)(p := None)\<rparr>) \<and> owns R (A - {p}) h"
  using owns_free [OF assms] by (auto simp: free_node_def)

lemma list_pop_front_rep:
  assumes "dl_rep R ll ((x, v) # ys) s"
  shows "\<exists>s'. list_pop_front ll s = Inr (0, v, s') \<and> dl_rep R ll ys s'"
proof -
  from assms obtain l where l: "ll \<noteq> 0" "list_store s ll = Some l" "dlist (node_store s) l ((x, v) # ys)"
    "owns R (set (addrs ((x, v) # ys))) (heap_mem s)" by (rule dl_repE)
  note E = dlist_empty_iff [OF l(3)] dlist_single_iff [OF l(3)]
  have D: "dseg (node_store s) 0 x ((x, v) # ys) (list_tail l) 0" "x \<notin> set (addrs ys)" "distinct (addrs ys)"
    "list_head l = x" using l(3) by (auto simp: dlist_def)
  then obtain n where n: "node_store s x = Some n" "node_data n = v"
    "dseg (node_store s) x (node_next n) ys (list_tail l) 0" by (auto split: option.splits)
  have own: "set (addrs ((x, v) # ys)) - {x} = set (addrs ys)" using D(2) by auto
  show ?thesis
  proof (cases ys)
    case Nil
    obtain h where "free_node x s = Inr (s\<lparr>heap_mem := h, node_store := (node_store s)(x := None)\<rparr>)"
      "owns R (set (addrs ys)) h"
      using free_node_rep [OF l(4), of x] own by auto
    then show ?thesis using Nil E D n l(1,2)
      by (auto simp: list_pop_front_def list_is_empty_def dl_rep_def dlist_def)
  next
    case (Cons yw zs)
    obtain y w where y: "yw = (y, w)" by force
    have nx: "node_next n = y" "x \<noteq> y" using n(3) D(2) Cons y by auto
    from dseg_set_prev [of "node_store s" x y y w zs "list_tail l" 0 0] n(3) D(3) Cons y nx obtain k where
      k: "node_store s y = Some k" "dseg ((node_store s)(y \<mapsto> k\<lparr>node_prev := 0\<rparr>)) 0 y ys (list_tail l) 0"
      by auto
    let ?s = "s\<lparr>list_store := (list_store s)(ll \<mapsto> l\<lparr>list_head := y\<rparr>),
      node_store := (node_store s)(y \<mapsto> k\<lparr>node_prev := 0\<rparr>)\<rparr>"
    have "owns R (set (addrs ((x, v) # ys))) (heap_mem ?s)" using l(4) by simp
    from free_node_rep [OF this, of x] own obtain h where
      h: "free_node x ?s = Inr (?s\<lparr>heap_mem := h, node_store := (node_store ?s)(x := None)\<rparr>)"
      "owns R (set (addrs ys)) h" by auto
    have "dlist ((node_store ?s)(x := None)) (l\<lparr>list_head := y\<rparr>) ys"
      using k(2) D(2,3) by (simp add: dlist_def)
    then show ?thesis using Cons E D(4) n(1,2) nx k(1) h l(1,2)
      by (auto simp: list_pop_front_def list_is_empty_def dl_rep_def)
  qed
qed

lemma list_pop_back_rep:
  assumes "dl_rep R ll (ys @ [(x, v)]) s"
  shows "\<exists>s'. list_pop_back ll s = Inr (0, v, s') \<and> dl_rep R ll ys s'"
proof -
  from assms obtain l where l: "ll \<noteq> 0" "list_store s ll = Some l" "dlist (node_store s) l (ys @ [(x, v)])"
    "owns R (set (addrs (ys @ [(x, v)]))) (heap_mem s)" by (rule dl_repE)
  note E = dlist_empty_iff [OF l(3)] dlist_single_iff [OF l(3)]
  have D: "dseg (node_store s) 0 (list_head l) (ys @ [(x, v)]) x 0" "x \<notin> set (addrs ys)" "distinct (addrs ys)"
    "list_tail l = x" using l(3) dlist_ends(2) [OF l(3)] by (auto simp: dlist_def)
  from dseg_at_end [OF D(1)] obtain n where n: "node_store s x = Some n" "node_data n = v" by blast
  have own: "set (addrs (ys @ [(x, v)])) - {x} = set (addrs ys)" using D(2) by auto
  from free_node_rep [OF l(4), of x] own obtain h where
    h: "free_node x s = Inr (s\<lparr>heap_mem := h, node_store := (node_store s)(x := None)\<rparr>)"
    "owns R (set (addrs ys)) h" by auto
  show ?thesis
  proof (cases ys rule: rev_cases)
    case Nil
    then show ?thesis using h E D n l(1,2)
      by (auto simp: list_pop_back_def list_is_empty_def dl_rep_def dlist_def)
  next
    case (snoc zs yw)
    obtain y w where y: "yw = (y, w)" by force
    have seg: "dseg (node_store s) 0 (list_head l) (zs @ [(y, w)]) y x"
      using D(1) snoc y dseg_split [of _ _ _ zs y w x v "[]"] by simp
    obtain k where k: "node_store s y = Some k" "node_next k = x" using dseg_at_end [OF seg] by blast
    have "x \<notin> set (addrs (zs @ [(y, w)]))" using D(2) snoc y by simp
    note b = before_tail_seg [OF seg this]
    let ?m = "(node_store s)(x := None, y \<mapsto> k\<lparr>node_next := 0\<rparr>)"
    have "dseg ((node_store s)(x := None)) 0 (list_head l) (zs @ [(y, w)]) y x"
      using seg D(2) snoc y by simp
    from dseg_set_next [OF this] D(2,3) k(1) snoc y
    have "dseg ?m 0 (list_head l) (zs @ [(y, w)]) y 0" by auto
    then have "dlist ?m (l\<lparr>list_tail := y\<rparr>) ys" using D(3) snoc y by (simp add: dlist_def)
    moreover have "y \<noteq> x" using D(2) snoc y by auto
    ultimately show ?thesis using snoc y E D(4) n b k h l(1,2)
      by (auto simp: list_pop_back_def list_is_empty_def dl_rep_def)
  qed
qed

lemma pop_empty:
  assumes "dl_rep R ll [] s"
  shows "list_pop_front ll s = Inr (1, 0, s)" "list_pop_back ll s = Inr (1, 0, s)"
  using list_is_empty_rep [OF assms] assms by (simp_all add: list_pop_front_def list_pop_back_def dl_rep_def)

text \<open>Unlinking and linking in the middle.\<close>

lemma unlink_next_rep:
  assumes "dl_rep R ll (ys @ (y, w) # (x, v) # (z, u) # zs) s"
  shows "\<exists>s'. unlink_next line y s = Inr s' \<and> dl_rep R ll (ys @ (y, w) # (z, u) # zs) s'"
proof -
  let ?all = "ys @ (y, w) # (x, v) # (z, u) # zs" and ?m = "node_store s"
  from assms obtain l where l: "ll \<noteq> 0" "list_store s ll = Some l" "dlist ?m l ?all"
    "owns R (set (addrs ?all)) (heap_mem s)" by (rule dl_repE)
  have d: "distinct (addrs ?all)" using l(3) by (simp add: dlist_def)
  have S: "dseg ?m 0 (list_head l) (ys @ [(y, w)]) y x" "dseg ?m y x ((x, v) # (z, u) # zs) (list_tail l) 0"
    using l(3) by (simp_all only: dlist_def dseg_split)
  then have S2: "dseg ?m x z ((z, u) # zs) (list_tail l) 0"
    using dseg_split [of ?m y x "[]" x v z u zs] by simp
  from dseg_at_end [OF S(1)] obtain ny where ny: "?m y = Some ny" "node_next ny = x" by blast
  obtain nx where nx: "?m x = Some nx" "node_next nx = z" using S(2) by (auto split: option.splits)
  obtain nz where nz: "?m z = Some nz" using S2 by (auto split: option.splits)
  have ne: "x \<noteq> y" "x \<noteq> z" "y \<noteq> z" using d by auto
  let ?m1 = "?m(y \<mapsto> ny\<lparr>node_next := z\<rparr>)"
  let ?m2 = "?m1(z \<mapsto> nz\<lparr>node_prev := y\<rparr>)"
  let ?s2 = "s\<lparr>node_store := ?m2\<rparr>"
  have "dseg ?m1 0 (list_head l) (ys @ [(y, w)]) y z"
    using dseg_set_next [OF S(1), of z] d ny(1) by auto
  then have L: "dseg (?m2(x := None)) 0 (list_head l) (ys @ [(y, w)]) y z"
    using d by (subst dseg_upd, fastforce, subst dseg_upd) auto
  have "dseg ?m1 x z ((z, u) # zs) (list_tail l) 0" using S2 d by (subst dseg_upd) auto
  from dseg_set_prev [OF this, of y] d nz ne
  have "dseg ?m2 y z ((z, u) # zs) (list_tail l) 0" by auto
  then have "dseg (?m2(x := None)) y z ((z, u) # zs) (list_tail l) 0" using d by (subst dseg_upd) auto
  with L have "dlist (?m2(x := None)) l (ys @ (y, w) # (z, u) # zs)"
    using d by (simp add: dlist_def dseg_split)
  moreover have "set (addrs ?all) - {x} = set (addrs (ys @ (y, w) # (z, u) # zs))" using d by auto
  moreover have "owns R (set (addrs ?all)) (heap_mem ?s2)" using l(4) by simp
  from free_node_rep [OF this, of x] obtain h where
    "free_node x ?s2 = Inr (?s2\<lparr>heap_mem := h, node_store := ?m2(x := None)\<rparr>)"
    "owns R (set (addrs ?all) - {x}) h" by auto
  ultimately show ?thesis using ny nx nz ne l(1,2)
    by (auto simp: unlink_next_def dl_rep_def simp del: set_map)
qed

text \<open>A new node after the node \<open>y\<close>, as \<open>list_insert\<close> links it.\<close>

lemma link_after_rep:
  assumes "dl_rep R ll (ys @ (y, w) # (z, u) # zs) s" and "q \<noteq> 0" "q \<notin> set (addrs (ys @ (y, w) # (z, u) # zs))"
    and "owns R (insert q (set (addrs (ys @ (y, w) # (z, u) # zs)))) h" and "get_node i y s = Inr p"
  shows "\<exists>s'. res_bind (set_node j (node_next p) (\<lambda>n. n\<lparr>node_prev := q\<rparr>) (s\<lparr>heap_mem := h,
      node_store := (node_store s)(q \<mapsto> \<lparr>node_data = v, node_next = node_next p, node_prev = y\<rparr>)\<rparr>))
      (set_node k y (\<lambda>n. n\<lparr>node_next := q\<rparr>)) = Inr s' \<and>
    dl_rep R ll (ys @ (y, w) # (q, v) # (z, u) # zs) s'"
proof -
  let ?all = "ys @ (y, w) # (z, u) # zs" and ?m = "node_store s"
  from assms(1) obtain l where l: "ll \<noteq> 0" "list_store s ll = Some l" "dlist ?m l ?all" by (rule dl_repE)
  have d: "distinct (addrs ?all)" using l(3) by (simp add: dlist_def)
  have S: "dseg ?m 0 (list_head l) (ys @ [(y, w)]) y z" "dseg ?m y z ((z, u) # zs) (list_tail l) 0"
    using l(3) by (simp_all only: dlist_def dseg_split)
  from dseg_at_end [OF S(1)] obtain ny where ny: "?m y = Some ny" "node_next ny = z" by blast
  obtain nz where nz: "?m z = Some nz" using S(2) by (auto split: option.splits)
  have p: "p = ny" using assms(5) ny(1) by simp
  have ne: "y \<noteq> z" "q \<noteq> y" "q \<noteq> z" using d assms(3) by auto
  let ?m1 = "?m(q \<mapsto> \<lparr>node_data = v, node_next = z, node_prev = y\<rparr>)"
  let ?m2 = "?m1(z \<mapsto> nz\<lparr>node_prev := q\<rparr>)"
  let ?m3 = "?m2(y \<mapsto> ny\<lparr>node_next := q\<rparr>)"
  have "dseg ?m2 0 (list_head l) (ys @ [(y, w)]) y z"
    using S(1) d assms(3) by (subst dseg_upd, fastforce, subst dseg_upd) auto
  from dseg_set_next [OF this, of q] d ny(1) ne
  have A: "dseg ?m3 0 (list_head l) (ys @ [(y, w)]) y q" by auto
  have "dseg ?m1 y z ((z, u) # zs) (list_tail l) 0" using S(2) assms(3) by (subst dseg_upd) auto
  from dseg_set_prev [OF this, of q] d nz ne
  have "dseg ?m2 q z ((z, u) # zs) (list_tail l) 0" by auto
  then have "dseg ?m3 q z ((z, u) # zs) (list_tail l) 0" using d by (subst dseg_upd) auto
  then have "dseg ?m3 y q ((q, v) # (z, u) # zs) (list_tail l) 0" using assms(2) ne by simp
  with A have "dlist ?m3 l (ys @ (y, w) # (q, v) # (z, u) # zs)"
    using d assms(3) by (auto simp: dlist_def dseg_split)
  moreover have "set (addrs (ys @ (y, w) # (q, v) # (z, u) # zs)) = insert q (set (addrs ?all))" by auto
  ultimately show ?thesis using assms(4) ny nz ne l(1,2) by (auto simp: p dl_rep_def simp del: set_map)
qed

lemma calloc_rep:
  assumes "owns R A (heap_mem s)" "heap_safe (node_size s) (heap_mem s)" "unat (node_size s) \<le> 4294967288"
  shows "\<not> room s \<Longrightarrow> calloc 1 (node_size s) (heap_mem s) = Inr (0, heap_mem s)"
    and "room s \<Longrightarrow> \<exists>q h. q \<noteq> 0 \<and> q \<notin> A \<and> owns R (insert q A) h \<and> calloc 1 (node_size s) (heap_mem s) = Inr (q, h)"
proof -
  obtain q t where c: "calloc 1 (node_size s) (heap_mem s) = Inr (q, t)"
    "q = 0 \<and> t = heap_mem s \<or> q \<noteq> 0 \<and> heap_ok t \<and>
      (\<exists>k. (q, k) \<notin> live (heap_mem s) \<and> live t = insert (q, k) (live (heap_mem s)))"
    using calloc_live [of 1 "node_size s" "heap_mem s"] assms(2,3) by auto
  have r: "room s \<longleftrightarrow> q \<noteq> 0"
    using c(1) by (auto simp: calloc_def room_def res_bind_eq_Inr split: if_splits)
  show "calloc 1 (node_size s) (heap_mem s) = Inr (0, heap_mem s)" if "\<not> room s"
    using that c r by auto
  show "\<exists>q h. q \<noteq> 0 \<and> q \<notin> A \<and> owns R (insert q A) h \<and> calloc 1 (node_size s) (heap_mem s) = Inr (q, h)"
    if "room s"
  proof -
    from that r have q: "q \<noteq> 0" by simp
    then obtain k where k: "heap_ok t" "(q, k) \<notin> live (heap_mem s)" "live t = insert (q, k) (live (heap_mem s))"
      using c(2) by auto
    then show ?thesis using owns_insert [OF assms(1) k] c(1) q by blast
  qed
qed

lemma bad_index_rep:
  assumes "dl_rep R ll xs s"
  shows "bad_index line ll over s = Inr (over (word_of_nat (length xs)))"
proof -
  from assms obtain l where l: "ll \<noteq> 0" "list_store s ll = Some l" "dlist (node_store s) l xs"
    by (rule dl_repE)
  then show ?thesis using dlist_empty_iff [OF l(3)] list_size_rep [OF assms] by (simp add: bad_index_def)
qed

lemma dl_rep_length:
  assumes "dl_rep R ll xs s"
  shows "unat (word_of_nat (length xs) :: u32) = length xs"
proof -
  from assms obtain l where "dlist (node_store s) l xs" by (rule dl_repE)
  then show ?thesis by (intro u32_of_nat dlist_length)
qed

text \<open>The node at an index.\<close>

lemma follow_rep:
  assumes "dl_rep R ll (ys @ (x, v) # zs) s" "list_store s ll = Some l"
  shows "follow line (length ys) (list_head l) s = Inr x" and "list_head l \<noteq> 0"
    and "\<exists>n. node_store s x = Some n \<and> node_data n = v"
proof -
  from assms have D: "dlist (node_store s) l (ys @ (x, v) # zs)" by (auto simp: dl_rep_def)
  then have S: "dseg (node_store s) 0 (list_head l) (ys @ (x, v) # zs) (list_tail l) 0" by (simp add: dlist_def)
  show "follow line (length ys) (list_head l) s = Inr x" by (rule follow_seg [OF S])
  show "list_head l \<noteq> 0" using dlist_empty_iff(1) [OF D] by simp
  show "\<exists>n. node_store s x = Some n \<and> node_data n = v" using S unfolding dseg_node by blast
qed

lemma nth_split: "i < length xs \<Longrightarrow> \<exists>ys x v zs. xs = ys @ (x, v) # zs \<and> length ys = i"
  using id_take_nth_drop [of i xs] by (metis length_take min.absorb4 old.prod.exhaust)

lemma list_insert_middle:
  assumes rep: "dl_rep R ll (ys @ (y, w) # (z, u) # zs) s" and safe: "heap_safe (node_size s) (heap_mem s)"
    "unat (node_size s) \<le> 4294967288" and i: "unat i = Suc (length ys)"
  shows "\<not> room s \<Longrightarrow> list_insert ll i v s = Inr (2, s)"
    and "room s \<Longrightarrow> \<exists>q s'. list_insert ll i v s = Inr (0, s') \<and> dl_rep R ll (ys @ (y, w) # (q, v) # (z, u) # zs) s'"
proof -
  let ?all = "ys @ (y, w) # (z, u) # zs"
  from rep obtain l where l: "ll \<noteq> 0" "list_store s ll = Some l" "owns R (set (addrs ?all)) (heap_mem s)"
    by (rule dl_repE)
  note C = calloc_rep [OF l(3) safe]
  note F = follow_rep [OF rep l(2)]
  define n where "n = (word_of_nat (length ?all) :: u32)"
  have "unat n = length ?all" unfolding n_def by (rule dl_rep_length [OF rep])
  then have c: "\<not> i > n" "i \<noteq> 0" "i \<noteq> n" using i by (auto simp: word_less_nat_alt)
  note start = list_insert_def bad_index_rep [OF rep, folded n_def] list_size_rep [OF rep, folded n_def] c l(2) F(2)
  show "list_insert ll i v s = Inr (2, s)" if "\<not> room s"
    using C(1) [OF that] by (simp add: start)
  assume "room s"
  from C(2) [OF this] obtain q h where q: "q \<noteq> 0" "q \<notin> set (addrs ?all)" "owns R (insert q (set (addrs ?all))) h"
    "calloc 1 (node_size s) (heap_mem s) = Inr (q, h)" by blast
  have f: "follow 294 (length ys) (list_head l) (s\<lparr>heap_mem := h\<rparr>) = Inr y"
  proof -
    have "dseg (node_store (s\<lparr>heap_mem := h\<rparr>)) 0 (list_head l) (ys @ (y, w) # (z, u) # zs) (list_tail l) 0"
      using rep l(2) by (auto simp: dl_rep_def dlist_def)
    then show ?thesis by (rule follow_seg)
  qed
  obtain p where p: "node_store s y = Some p" using F(3) by blast
  then have g: "get_node 298 y s = Inr p" by simp
  from link_after_rep [OF rep q(1-3) g, of 301 v 302] obtain s' where
    s': "res_bind (set_node 301 (node_next p) (\<lambda>n. n\<lparr>node_prev := q\<rparr>) (s\<lparr>heap_mem := h,
      node_store := (node_store s)(q \<mapsto> \<lparr>node_data = v, node_next = node_next p, node_prev = y\<rparr>)\<rparr>))
      (set_node 302 y (\<lambda>n. n\<lparr>node_next := q\<rparr>)) = Inr s'"
    "dl_rep R ll (ys @ (y, w) # (q, v) # (z, u) # zs) s'" by blast
  have "list_insert ll i v s = Inr (0, s')"
    using f p q(1,4) i s'(1) by (auto simp: start Let_def res_bind_eq_Inr)
  then show "\<exists>q s'. list_insert ll i v s = Inr (0, s') \<and> dl_rep R ll (ys @ (y, w) # (q, v) # (z, u) # zs) s'"
    using s'(2) by blast
qed

lemma list_remove_middle:
  assumes rep: "dl_rep R ll (ys @ (y, w) # (x, v) # (z, u) # zs) s" and i: "unat i = Suc (length ys)"
  shows "\<exists>s'. list_remove ll i s = Inr (0, v, s') \<and> dl_rep R ll (ys @ (y, w) # (z, u) # zs) s'"
proof -
  let ?all = "ys @ (y, w) # (x, v) # (z, u) # zs"
  from rep obtain l where l: "ll \<noteq> 0" "list_store s ll = Some l" "dlist (node_store s) l ?all"
    by (rule dl_repE)
  note F = follow_rep [OF rep l(2)]
  define n where "n = (word_of_nat (length ?all) :: u32)"
  have n: "unat n = length ?all" unfolding n_def by (rule dl_rep_length [OF rep])
  then have "unat (n - 1) = length ?all - 1" by (subst u32_sub_nowrap) auto
  then have c: "\<not> i \<ge> n" "i \<noteq> 0" "i \<noteq> n - 1" using i n by (auto simp: word_le_nat_alt)
  have S: "dseg (node_store s) 0 (list_head l) (ys @ [(y, w)]) y x" "dseg (node_store s) y x ((x, v) # (z, u) # zs) (list_tail l) 0"
    using l(3) by (simp_all only: dlist_def dseg_split)
  from dseg_at_end [OF S(1)] obtain ny where ny: "node_store s y = Some ny" "node_next ny = x" by blast
  obtain nx where nx: "node_store s x = Some nx" "node_data nx = v" using S(2) by (auto split: option.splits)
  from unlink_next_rep [OF rep, of 333] obtain s' where
    s': "unlink_next 333 y s = Inr s'" "dl_rep R ll (ys @ (y, w) # (z, u) # zs) s'" by blast
  have "list_remove ll i s = Inr (0, v, s')"
    using F(1,2) ny nx i s'(1) c l(2)
    by (simp add: list_remove_def bad_index_rep [OF rep, folded n_def] list_size_rep [OF rep, folded n_def])
  then show ?thesis using s'(2) by blast
qed

lemma list_remove_node_middle:
  assumes rep: "dl_rep R ll (ys @ (y, w) # (x, v) # (z, u) # zs) s"
  shows "\<exists>s'. list_remove_node ll x s = Inr (0, 0, s') \<and> dl_rep R ll (ys @ (y, w) # (z, u) # zs) s'"
proof -
  let ?all = "ys @ (y, w) # (x, v) # (z, u) # zs"
  from rep obtain l where l: "ll \<noteq> 0" "list_store s ll = Some l" "dlist (node_store s) l ?all"
    by (rule dl_repE)
  have d: "distinct (addrs ?all)" using l(3) by (simp add: dlist_def)
  note E = dlist_empty_iff [OF l(3)]
  have S: "dseg (node_store s) 0 (list_head l) (ys @ [(y, w)]) y x"
    "dseg (node_store s) y x ((x, v) # (z, u) # zs) (list_tail l) 0"
    using l(3) by (simp_all only: dlist_def dseg_split)
  have "list_head l \<in> set (addrs (ys @ [(y, w)]))" using dseg_first [OF S(1)] by (cases ys) auto
  moreover have "list_tail l \<in> set (addrs ((z, u) # zs))" using dseg_last [OF S(2)] by (cases zs rule: rev_cases) auto
  ultimately have ends: "x \<noteq> list_head l" "x \<noteq> list_tail l" using d by auto
  have "x \<notin> set (addrs (ys @ [(y, w)]))" using d by auto
  from before_node_seg [OF S(1) this] have "before_node s x (list_head l) = Some (Inr y)" .
  moreover from unlink_next_rep [OF rep, of 361] obtain s' where
    "unlink_next 361 y s = Inr s'" "dl_rep R ll (ys @ (y, w) # (z, u) # zs) s'" by blast
  ultimately show ?thesis using E l(1,2) ends by (simp add: list_remove_node_def)
qed

lemma clear_loop_rep:
  "dl_rep R ll xs s \<Longrightarrow> \<exists>t. clear_loop ll 0 s = Some (Inr t) \<and> dl_rep R ll [] t"
proof (induction xs arbitrary: s rule: rev_induct)
  case Nil
  have "clear_loop ll 1 s = Some (Inr s)" by (subst clear_loop.simps) simp
  then show ?case using pop_empty(2) [OF Nil] Nil by (subst clear_loop.simps) simp
next
  case (snoc xv xs)
  obtain x v where "xv = (x, v)" by force
  then obtain s' where s': "list_pop_back ll s = Inr (0, v, s')" "dl_rep R ll xs s'"
    using list_pop_back_rep snoc.prems by blast
  then show ?case using snoc.IH [OF s'(2)] by (subst clear_loop.simps) simp
qed

lemma list_clear_rep:
  assumes "dl_rep R ll xs s"
  shows "\<exists>t. list_clear ll s = Inr t \<and> dl_rep R ll [] t"
proof -
  from clear_loop_rep [OF assms] obtain t where t: "clear_loop ll 0 s = Some (Inr t)" "dl_rep R ll [] t" by blast
  from t(1) have "loop_res (clear_loop ll 0 s) = Inr t" by simp
  then have "list_clear ll s = Inr t"
    by (subst (asm) clear_loop.simps) (auto simp: list_clear_def loop_res_def split: sum.splits option.splits)
  then show ?thesis using t(2) by blast
qed

end
