(* ===== verification/Dl_Theorems.thy ===== *)
theory Dl_Theorems
  imports Dl_Refine
begin

text \<open>
  The contract of the doubly linked list: a client that calls the operations of \<open>Dl_List\<close> sees
  a sequence of elements. \<open>sequence_op\<close> is that sequence with its answers, \<open>list_call\<close> the calls.
\<close>

section \<open>Calls and the sequence they work on\<close>

datatype 'a list_op =
  Push_back 'a | Push_front 'a | Pop_front | Pop_back | Insert u32 'a | Remove u32 | Remove_node_at u32
  | At u32 | Front | Back | Size | Is_empty | Display | Display_reverse | Clear

datatype 'a answer = Code i32 | Element i32 'a | Shown "'a list" | Done

fun allocates :: "'a list_op \<Rightarrow> bool" where
  "allocates (Push_back v) = True"
| "allocates (Push_front v) = True"
| "allocates (Insert i v) = True"
| "allocates _ = False"

definition coded :: "(i32 \<times> 'a lists) res \<Rightarrow> ('a answer \<times> 'a lists) res" where
  "coded r = res_bind r (\<lambda>(c, s). Inr (Code c, s))"

definition element :: "(i32 \<times> 'a \<times> 'a lists) res \<Rightarrow> ('a answer \<times> 'a lists) res" where
  "element r = res_bind r (\<lambda>(e, v, s). Inr (Element e v, s))"

text \<open>\<open>Remove_node_at\<close> asks for the node at an index and removes that node.\<close>

fun list_call :: "u32 \<Rightarrow> ('a :: zero) list_op \<Rightarrow> 'a lists \<Rightarrow> ('a answer \<times> 'a lists) res" where
  "list_call ll (Push_back v) s = coded (list_push_back ll v s)"
| "list_call ll (Push_front v) s = coded (list_push_front ll v s)"
| "list_call ll Pop_front s = element (list_pop_front ll s)"
| "list_call ll Pop_back s = element (list_pop_back ll s)"
| "list_call ll (Insert i v) s = coded (list_insert ll i v s)"
| "list_call ll (Remove i) s = element (list_remove ll i s)"
| "list_call ll (Remove_node_at i) s = res_bind (list_node_at ll i s) (\<lambda>(e, p).
     if e \<noteq> 0 then Inr (Element e 0, s) else element (list_remove_node ll p s))"
| "list_call ll (At i) s = res_bind (list_at ll i s) (\<lambda>(e, v). Inr (Element e v, s))"
| "list_call ll Front s = res_bind (list_front ll s) (\<lambda>(e, v). Inr (Element e v, s))"
| "list_call ll Back s = res_bind (list_back ll s) (\<lambda>(e, v). Inr (Element e v, s))"
| "list_call ll Size s = res_bind (list_size ll s) (\<lambda>c. Inr (Code c, s))"
| "list_call ll Is_empty s = res_bind (list_is_empty ll s) (\<lambda>c. Inr (Code c, s))"
| "list_call ll Display s = res_bind (list_display ll s) (\<lambda>vs. Inr (Shown vs, s))"
| "list_call ll Display_reverse s = res_bind (list_display_reverse ll s) (\<lambda>vs. Inr (Shown vs, s))"
| "list_call ll Clear s = res_bind (list_clear ll s) (\<lambda>s. Inr (Done, s))"

definition nth_element :: "('a :: zero) list \<Rightarrow> nat \<Rightarrow> 'a answer" where
  "nth_element vs i = (if i < length vs then Element 0 (vs ! i) else Element 1 0)"

definition without :: "nat \<Rightarrow> 'a list \<Rightarrow> 'a list" where
  "without i vs = take i vs @ drop (Suc i) vs"

text \<open>
  The first argument says whether the heap has room for a node. \<open>list_remove_node\<close> answers with
  zero instead of the element, except at the ends.
\<close>

fun sequence_op :: "bool \<Rightarrow> ('a :: zero) list_op \<Rightarrow> 'a list \<Rightarrow> 'a answer \<times> 'a list" where
  "sequence_op r (Push_back v) vs = (if r then (Code 0, vs @ [v]) else (Code 2, vs))"
| "sequence_op r (Push_front v) vs = (if r then (Code 0, v # vs) else (Code 2, vs))"
| "sequence_op r Pop_front vs = (nth_element vs 0, drop 1 vs)"
| "sequence_op r Pop_back vs = (nth_element vs (length vs - 1), butlast vs)"
| "sequence_op r (Insert i v) vs =
     (if length vs < unat i then (Code 1, vs)
      else if \<not> r then (Code 2, vs)
      else (Code 0, take (unat i) vs @ v # drop (unat i) vs))"
| "sequence_op r (Remove i) vs = (nth_element vs (unat i), without (unat i) vs)"
| "sequence_op r (Remove_node_at i) vs =
     (if unat i = 0 \<or> unat i \<ge> length vs - 1 then nth_element vs (unat i) else Element 0 0,
      without (unat i) vs)"
| "sequence_op r (At i) vs = (nth_element vs (unat i), vs)"
| "sequence_op r Front vs = (nth_element vs 0, vs)"
| "sequence_op r Back vs = (nth_element vs (length vs - 1), vs)"
| "sequence_op r Size vs = (Code (word_of_nat (length vs)), vs)"
| "sequence_op r Is_empty vs = (Code (if vs = [] then 1 else 0), vs)"
| "sequence_op r Display vs = (Shown vs, vs)"
| "sequence_op r Display_reverse vs = (Shown (rev vs), vs)"
| "sequence_op r Clear vs = (Done, [])"

section \<open>Each call\<close>

text \<open>\<open>agrees\<close>: the call returned the answer, and the list now holds the sequence.\<close>

definition agrees :: "region set \<Rightarrow> u32 \<Rightarrow> ('a answer \<times> 'a lists) res \<Rightarrow> 'a answer \<times> 'a list \<Rightarrow> bool" where
  "agrees R ll r av \<longleftrightarrow> (\<exists>ys t. r = Inr (fst av, t) \<and> map snd ys = snd av \<and> dl_rep R ll ys t)"

lemma agreesI: "r = Inr (a, t) \<Longrightarrow> dl_rep R ll ys t \<Longrightarrow> map snd ys = vs \<Longrightarrow> agrees R ll r (a, vs)"
  by (auto simp: agrees_def)

lemma split_at:
  assumes "i < length xs"
  obtains ys x v zs where "xs = ys @ (x, v) # zs" "length ys = i"
  using nth_split [OF assms] by blast

lemma split_two:
  assumes "0 < i" "i < length xs"
  obtains ys y w z u zs where "xs = ys @ (y, w) # (z, u) # zs" "i = Suc (length ys)"
proof -
  from assms(2) obtain as z u zs where a: "xs = as @ (z, u) # zs" "length as = i" by (rule split_at)
  with assms(1) obtain ys yw where "as = ys @ [yw]" by (cases as rule: rev_cases) auto
  then show ?thesis using a that [of ys "fst yw" "snd yw" z u zs] by auto
qed

lemma split_three:
  assumes "0 < i" "Suc i < length xs"
  obtains ys y w x v z u zs where "xs = ys @ (y, w) # (x, v) # (z, u) # zs" "i = Suc (length ys)"
proof -
  from assms(2) have "0 < Suc i" by simp
  from this assms(2) obtain as x v z u zs where a: "xs = as @ (x, v) # (z, u) # zs" "Suc i = Suc (length as)"
    by (rule split_two)
  with assms(1) obtain ys yw where "as = ys @ [yw]" by (cases as rule: rev_cases) auto
  then show ?thesis using a that [of ys "fst yw" "snd yw" x v z u zs] by auto
qed

lemma pop_front_agrees:
  assumes "dl_rep R ll xs s"
  shows "agrees R ll (element (list_pop_front ll s)) (nth_element (map snd xs) 0, drop 1 (map snd xs))"
proof (cases xs)
  case Nil
  then show ?thesis using pop_empty(1) [of R ll s] assms
    by (auto simp: element_def nth_element_def intro: agreesI)
next
  case (Cons xv ys)
  obtain x v where "xv = (x, v)" by force
  then show ?thesis using list_pop_front_rep [of R ll x v ys s] assms Cons
    by (auto simp: element_def nth_element_def intro!: agreesI)
qed

lemma pop_back_agrees:
  assumes "dl_rep R ll xs s"
  shows "agrees R ll (element (list_pop_back ll s)) (nth_element (map snd xs) (length xs - 1), butlast (map snd xs))"
proof (cases xs rule: rev_cases)
  case Nil
  then show ?thesis using pop_empty(2) [of R ll s] assms
    by (auto simp: element_def nth_element_def intro: agreesI)
next
  case (snoc ys xv)
  obtain x v where "xv = (x, v)" by force
  then show ?thesis using list_pop_back_rep [of R ll ys x v s] assms snoc
    by (auto simp: element_def nth_element_def nth_append intro!: agreesI)
qed

lemma push_agrees:
  assumes "dl_rep R ll xs s" "heap_safe (node_size s) (heap_mem s)"
  shows "agrees R ll (coded (list_push_back ll v s)) (sequence_op (room s) (Push_back v) (map snd xs))"
    and "agrees R ll (coded (list_push_front ll v s)) (sequence_op (room s) (Push_front v) (map snd xs))"
  using list_push_back_rep [OF assms, of v] list_push_front_rep [OF assms, of v] assms(1)
  by (cases "room s"; fastforce simp: coded_def intro: agreesI)+

lemma index_word:
  fixes i :: u32
  assumes "dl_rep R ll xs s"
  shows "i \<le> word_of_nat (length xs) \<longleftrightarrow> unat i \<le> length xs"
    and "i = word_of_nat (length xs) \<longleftrightarrow> unat i = length xs"
    and "i < word_of_nat (length xs) \<longleftrightarrow> unat i < length xs"
  using dl_rep_length [OF assms]
  by (simp_all only: word_le_nat_alt word_less_nat_alt word_unat_eq_iff)

lemma insert_agrees:
  assumes rep: "dl_rep R ll xs s" and safe: "heap_safe (node_size s) (heap_mem s)" "unat (node_size s) \<le> 4294967288"
  shows "agrees R ll (coded (list_insert ll i v s)) (sequence_op (room s) (Insert i v) (map snd xs))"
proof -
  note start = list_insert_def bad_index_rep [OF rep] list_size_rep [OF rep]
  consider (beyond) "length xs < unat i" | (at_front) "i = 0" | (at_back) "unat i = length xs" "i \<noteq> 0"
    | (middle) "0 < unat i" "unat i < length xs" by (metis linorder_neqE_nat neq0_conv unat_0_iff)
  then show ?thesis
  proof cases
    case beyond
    then have "\<not> i \<le> word_of_nat (length xs)" using index_word(1) [OF rep] by simp
    then show ?thesis using beyond rep by (auto simp: start coded_def intro: agreesI)
  next
    case at_front
    then show ?thesis using push_agrees(2) [OF rep safe(1), of v] by (cases "room s") (simp_all add: start)
  next
    case at_back
    then have "i = word_of_nat (length xs)" using index_word(2) [OF rep] by simp
    then have "list_insert ll i v s = list_push_back ll v s" using at_back(2) by (simp add: start)
    then show ?thesis using push_agrees(1) [OF rep safe(1), of v] at_back(1) by (cases "room s") simp_all
  next
    case middle
    then obtain ys y w z u zs where xs: "xs = ys @ (y, w) # (z, u) # zs" "unat i = Suc (length ys)"
      by (rule split_two)
    note M = list_insert_middle [OF rep [unfolded xs(1)] safe xs(2), of v]
    show ?thesis
      by (cases "room s") (use M rep in \<open>fastforce simp: coded_def xs intro: agreesI\<close>)+
  qed
qed

lemma remove_agrees:
  assumes rep: "dl_rep R ll xs s"
  shows "agrees R ll (element (list_remove ll i s)) (sequence_op r (Remove i) (map snd xs))"
proof -
  define n where "n = (word_of_nat (length xs) :: u32)"
  have n: "unat n = length xs" unfolding n_def by (rule dl_rep_length [OF rep])
  have last: "i = n - 1 \<longleftrightarrow> unat i = length xs - 1" if "xs \<noteq> []"
  proof -
    have "unat (n - 1) = length xs - 1" using that n by (subst u32_sub_nowrap) (auto simp: Suc_leI)
    then show ?thesis by (metis u32_eqI)
  qed
  note start = list_remove_def bad_index_rep [OF rep, folded n_def] list_size_rep [OF rep, folded n_def]
  consider (at_front) "i = 0" | (at_back) "i = n - 1" "i \<noteq> 0" | (beyond) "unat i \<ge> length xs" "i \<noteq> 0" "i \<noteq> n - 1"
    | (middle) "0 < unat i" "Suc (unat i) < length xs"
    using last by (metis One_nat_def Suc_lessI diff_Suc_1 list.size(3) neq0_conv not_less unat_0_iff
        less_nat_zero_code linorder_not_le)
  then show ?thesis
  proof cases
    case at_front
    then show ?thesis using pop_front_agrees [OF rep] by (simp add: start without_def)
  next
    case at_back
    have w: "without (unat i) (map snd xs) = butlast (map snd xs) \<and> nth_element (map snd xs) (unat i) =
      nth_element (map snd xs) (length xs - 1)"
    proof (cases "xs = []")
      case True
      then show ?thesis by (simp add: without_def nth_element_def)
    next
      case False
      then have "unat i = length xs - 1" using at_back(1) last by simp
      then show ?thesis using False by (simp add: without_def butlast_conv_take)
    qed
    have "list_remove ll i s = list_pop_back ll s" using at_back by (simp add: start)
    then show ?thesis using pop_back_agrees [OF rep] w by simp
  next
    case beyond
    then have "n \<le> i" using n by (simp add: word_le_nat_alt)
    then have "list_remove ll i s = Inr (1, 0, s)" using beyond by (simp add: start)
    then show ?thesis using beyond(1) rep by (auto simp: element_def nth_element_def without_def intro: agreesI)
  next
    case middle
    then obtain ys y w x v z u zs where xs: "xs = ys @ (y, w) # (x, v) # (z, u) # zs" "unat i = Suc (length ys)"
      by (rule split_three)
    from list_remove_middle [OF rep [unfolded xs(1)] xs(2)] show ?thesis
      by (auto simp: element_def nth_element_def without_def xs nth_append intro!: agreesI)
  qed
qed

lemma list_node_at_rep:
  assumes rep: "dl_rep R ll xs s"
  shows "list_node_at ll i s = Inr (if unat i < length xs then (0, fst (xs ! unat i)) else (1, 0))"
proof (cases "unat i < length xs")
  case True
  then obtain ys x v zs where xs: "xs = ys @ (x, v) # zs" "length ys = unat i" by (rule split_at)
  from rep obtain l where l: "list_store s ll = Some l" by (rule dl_repE)
  note F = follow_rep [OF rep [unfolded xs(1)] l]
  have nth: "xs ! unat i = (x, v)" using xs by (metis nth_append_length)
  have "\<not> word_of_nat (length xs) \<le> i" using index_word(3) [OF rep, of i] True by simp
  then show ?thesis using F(1) [of 271] F(2) True xs(2) l nth
    by (simp add: list_node_at_def bad_index_rep [OF rep])
next
  case False
  then have "word_of_nat (length xs) \<le> i" using index_word(3) [OF rep, of i] by simp
  then show ?thesis using False by (simp add: list_node_at_def bad_index_rep [OF rep])
qed

lemma list_at_rep:
  assumes rep: "dl_rep R ll xs s"
  shows "list_at ll i s = Inr (if unat i < length xs then (0, snd (xs ! unat i)) else (1, 0))"
proof (cases "unat i < length xs")
  case True
  then obtain ys x v zs where xs: "xs = ys @ (x, v) # zs" "length ys = unat i" by (rule split_at)
  from rep obtain l where l: "list_store s ll = Some l" by (rule dl_repE)
  note F = follow_rep [OF rep [unfolded xs(1)] l]
  have nth: "xs ! unat i = (x, v)" using xs by (metis nth_append_length)
  obtain n where n: "node_store s x = Some n" "node_data n = v" using F(3) by blast
  have "\<not> word_of_nat (length xs) \<le> i" using index_word(3) [OF rep, of i] True by simp
  then show ?thesis using F(1) [of 251] F(2) n True xs(2) l nth
    by (simp add: list_at_def bad_index_rep [OF rep])
next
  case False
  then have "word_of_nat (length xs) \<le> i" using index_word(3) [OF rep, of i] by simp
  then show ?thesis using False by (simp add: list_at_def bad_index_rep [OF rep])
qed

lemma remove_node_agrees:
  assumes rep: "dl_rep R ll xs s"
  shows "agrees R ll (list_call ll (Remove_node_at i) s) (sequence_op r (Remove_node_at i) (map snd xs))"
proof -
  from rep obtain l where l: "list_store s ll = Some l" "dlist (node_store s) l xs" by (rule dl_repE)
  note N = list_node_at_rep [OF rep, of i]
  consider (beyond) "length xs \<le> unat i" | (at_front) "unat i = 0" "xs \<noteq> []"
    | (at_back) "Suc (unat i) = length xs" "unat i \<noteq> 0" | (middle) "0 < unat i" "Suc (unat i) < length xs"
    by (metis Suc_lessI length_greater_0_conv not_less neq0_conv)
  then show ?thesis
  proof cases
    case beyond
    then show ?thesis using N rep by (auto simp: nth_element_def without_def intro: agreesI)
  next
    case at_front
    then obtain x v ys where xs: "xs = (x, v) # ys" by (cases xs) auto
    have "list_remove_node ll x s = list_pop_front ll s"
      using l dlist_ends(1) [OF l(2)] xs by (simp add: list_remove_node_def)
    then show ?thesis using N at_front xs pop_front_agrees [OF rep] by (simp add: without_def)
  next
    case at_back
    then obtain ys x v where xs: "xs = ys @ [(x, v)]" "ys \<noteq> []" by (cases xs rule: rev_cases) auto
    have "hd (addrs ys) \<in> set (addrs ys)" using xs(2) by (intro hd_in_set) simp
    moreover have "x \<notin> set (addrs ys)" using l(2) xs(1) by (simp add: dlist_def)
    ultimately have "list_tail l = x" "x \<noteq> list_head l"
      using dlist_ends(1,2) [OF l(2)] xs by (auto simp del: set_map)
    then have "list_remove_node ll x s = list_pop_back ll s" using l by (simp add: list_remove_node_def)
    moreover have "unat i = length ys" using at_back(1) xs by simp
    ultimately show ?thesis using N xs pop_back_agrees [OF rep]
      by (simp add: without_def nth_append)
  next
    case middle
    then obtain ys y w x v z u zs where xs: "xs = ys @ (y, w) # (x, v) # (z, u) # zs" "unat i = Suc (length ys)"
      by (rule split_three)
    from list_remove_node_middle [OF rep [unfolded xs(1)]] show ?thesis
      using N by (auto simp: element_def without_def xs nth_append intro!: agreesI)
  qed
qed

lemma observers_agree:
  assumes rep: "dl_rep R ll xs s"
  shows "agrees R ll (list_call ll Front s) (sequence_op r Front (map snd xs))"
    and "agrees R ll (list_call ll Back s) (sequence_op r Back (map snd xs))"
    and "agrees R ll (list_call ll Display s) (sequence_op r Display (map snd xs))"
    and "agrees R ll (list_call ll Display_reverse s) (sequence_op r Display_reverse (map snd xs))"
proof -
  from rep obtain l where l: "ll \<noteq> 0" "list_store s ll = Some l" "dlist (node_store s) l xs" by (rule dl_repE)
  note E = dlist_empty_iff [OF l(3)]
  have seg: "dseg (node_store s) 0 (list_head l) xs (list_tail l) 0" using l(3) by (simp add: dlist_def)
  have no: "no_ends line ll s = Inr (xs = [])" for line using l E by (auto simp: no_ends_def)
  show "agrees R ll (list_call ll Display s) (sequence_op r Display (map snd xs))"
    using display_forward_seg [OF seg, of 27 "[]"] l rep no
    by (cases "xs = []") (auto simp: list_display_def intro: agreesI)
  show "agrees R ll (list_call ll Display_reverse s) (sequence_op r Display_reverse (map snd xs))"
    using display_backward_seg [OF seg, of 34 "[]"] l rep no
    by (cases "xs = []") (auto simp: list_display_reverse_def rev_map intro: agreesI)
  show "agrees R ll (list_call ll Front s) (sequence_op r Front (map snd xs))"
  proof (cases xs)
    case (Cons xv ys)
    obtain x v where "xv = (x, v)" by force
    then obtain n where "node_store s (list_head l) = Some n" "node_data n = v"
      using seg Cons by (auto split: option.splits)
    then show ?thesis using l no rep Cons \<open>xv = (x, v)\<close>
      by (auto simp: list_front_def nth_element_def intro: agreesI)
  qed (use l no rep in \<open>auto simp: list_front_def nth_element_def intro: agreesI\<close>)
  show "agrees R ll (list_call ll Back s) (sequence_op r Back (map snd xs))"
  proof (cases xs rule: rev_cases)
    case (snoc ys xv)
    obtain x v where xv: "xv = (x, v)" by force
    have "list_tail l = x" using dlist_ends(2) [OF l(3)] snoc xv by simp
    moreover obtain n where "node_store s x = Some n" "node_data n = v"
      using seg [unfolded snoc xv dseg_node] by blast
    moreover have "(map snd ys @ [v]) ! length ys = v" by (metis length_map nth_append_length)
    ultimately show ?thesis using l no rep snoc xv
      by (auto simp: list_back_def nth_element_def intro: agreesI)
  qed (use l no rep in \<open>auto simp: list_back_def nth_element_def intro: agreesI\<close>)
qed

section \<open>The contract\<close>

text \<open>C38: Every operation on a list of consistent nodes does to its sequence of elements, and
  answers, what the sequence operation says, bad indices and a heap that returns NULL
  included; the links stay consistent in both directions, each node owns one region of the
  heap, and the regions of others stay allocated. The list pointer is not NULL and head and
  tail are both set or both NULL; push and insert ask for a node of at most 0xFFFFFFF8 bytes
  that does not take the last block of the heap with fewer than 32 bytes to spare.\<close>
theorem list_refines_sequence:
  assumes "dl_rep R ll xs s"
    and "allocates op \<Longrightarrow> heap_safe (node_size s) (heap_mem s) \<and> unat (node_size s) \<le> 4294967288"
  shows "agrees R ll (list_call ll op s) (sequence_op (room s) op (map snd xs))"
proof (cases op)
  case (At i)
  then show ?thesis using list_at_rep [OF assms(1), of i] assms(1)
    by (auto simp: nth_element_def intro: agreesI)
next
  case Clear
  then show ?thesis using list_clear_rep [OF assms(1)] by (auto intro: agreesI)
next
  case Size
  then show ?thesis using list_size_rep [OF assms(1)] assms(1) by (auto intro: agreesI)
next
  case Is_empty
  then show ?thesis using list_is_empty_rep [OF assms(1)] assms(1) by (auto intro: agreesI)
qed (use assms push_agrees [OF assms(1)] insert_agrees [OF assms(1)] pop_front_agrees [OF assms(1)]
    pop_back_agrees [OF assms(1)] remove_agrees [OF assms(1)] remove_node_agrees [OF assms(1)]
    observers_agree [OF assms(1)] in \<open>simp_all del: sequence_op.simps(6,7)\<close>)

theorem list_refines_sequence_witness:
  "\<exists>r. agrees {} 0x1000 (list_call 0x1000 (Push_back (7 :: u32))
      \<lparr>heap_mem = init_heap_blocks zero_kmem, node_store = Map.empty,
        list_store = [0x1000 \<mapsto> \<lparr>list_head = 0, list_tail = 0\<rparr>], node_size = 12\<rparr>)
    (sequence_op r (Push_back 7) [])"
proof -
  let ?s = "\<lparr>heap_mem = init_heap_blocks zero_kmem, node_store = Map.empty :: u32 node_t store,
        list_store = [0x1000 \<mapsto> \<lparr>list_head = 0, list_tail = 0\<rparr>], node_size = 12\<rparr>"
  have al: "safe_request 12 [(FIRST, first_size, True)]" by (simp add: safe_request_def ALIGN_SIZE_def)
  then have safe: "heap_safe 12 (init_heap_blocks zero_kmem)" "heap_ok (init_heap_blocks zero_kmem)"
    using init_heap_blocks_inv by (auto simp: heap_safe_def heap_ok_def)
  have "live (init_heap_blocks zero_kmem) = {}" using live_eq [OF init_heap_blocks_inv] by simp
  then have rep: "dl_rep {} 0x1000 [] ?s" using safe(2) by (simp add: dl_rep_def dlist_def owns_def)
  have "agrees {} 0x1000 (list_call 0x1000 (Push_back 7) ?s)
      (sequence_op (room ?s) (Push_back 7) (map snd ([] :: (u32 \<times> u32) list)))"
    by (rule list_refines_sequence [OF rep]) (simp add: safe(1))
  then show ?thesis unfolding list.map by blast
qed

end
