(* ===== verification/Boot.thy ===== *)
theory Boot
  imports Page_Init Paging Console
begin

text \<open>
  \<^verbatim>\<open>src/src/boot_memory_init.c\<close> and \<^verbatim>\<open>src/src/include/boot_memory_init.h\<close>: what runs before paging is
  on, on physical memory. It lays the page directory, the 1024 page tables, the page bitmap and
  the page stack behind the kernel image, fills the tables, and turns paging on.
\<close>

section \<open>Layout\<close>

definition PAGE_TABLES_SPACE_SIZE :: u32 where "PAGE_TABLES_SPACE_SIZE = 0x400000"
definition KERNEL_HIGH_VMA :: u32 where "KERNEL_HIGH_VMA = 0xE0000000"

definition FRAMES_COUNT :: "u32 \<Rightarrow> u32" where
  "FRAMES_COUNT x = drop_bit 12 x"

definition ALIGN_TO :: "u32 \<Rightarrow> u32 \<Rightarrow> u32" where
  "ALIGN_TO x mask' = (x + mask' - 1) AND NOT (mask' - 1)"

definition clearSpace :: "u32 \<Rightarrow> u32 \<Rightarrow> mem \<Rightarrow> mem" where
  "clearSpace address len m = fill_bytes address 0 (unat len) m"

text \<open>The address, and the space that is left.\<close>

definition ke_alloc :: "u32 \<Rightarrow> u32 \<Rightarrow> u32 \<times> u32" where
  "ke_alloc space sz = (space, space + ALIGN_TO sz 0x1000)"

section \<open>Page tables in physical memory\<close>

definition map_at :: "u32 \<Rightarrow> u32 \<Rightarrow> u32 \<Rightarrow> u16 \<Rightarrow> u16 \<Rightarrow> mem \<Rightarrow> mem" where
  "map_at page_directory physical_adress virtual_address directory_flags table_flags m =
     (let unaligned = physical_adress AND 0xFFF \<noteq> 0 \<or> virtual_address AND 0xFFF \<noteq> 0;
          pa = (if unaligned then physical_adress AND NOT (physical_adress AND 0xFFF) else physical_adress);
          va = (if unaligned then virtual_address AND NOT (virtual_address AND 0xFFF) else virtual_address);
          dir = page_directory + 4 * pd_index va;
          m = (if \<not> entry_present (load32 m dir)
               then store32 m dir (load32 m dir OR ((ucast directory_flags AND 0xFFF) OR 1)) else m);
          PTE = push_bit 12 (entry_address (load32 m dir))
      in store32 m (PTE + 4 * pt_index va) (pa OR (ucast table_flags AND 0xFFF) OR 1))"

text \<open>\<^verbatim>\<open>for (u32 i = start; i < stop; i += 0x1000) map_at(page_directory, i, i + offset, 0, 0);\<close>\<close>

definition map_range :: "u32 \<Rightarrow> u32 \<Rightarrow> u32 \<Rightarrow> u32 \<Rightarrow> mem \<Rightarrow> mem res" where
  "map_range page_directory start stop offset m =
     loop_res (page_loop start (\<lambda>_. stop) (\<lambda>i m. Inr (map_at page_directory i (i + offset) 0 0 m)) m)"

text \<open>\<^verbatim>\<open>for (u32 i = 0; i < j; i++) map_at(page_directory, pa + 0x1000 * i, va + 0x1000 * i, 0, 0);\<close>\<close>

definition map_block :: "u32 \<Rightarrow> u32 \<Rightarrow> u32 \<Rightarrow> u32 \<Rightarrow> mem \<Rightarrow> mem" where
  "map_block page_directory pa va j m =
     fold (\<lambda>i. map_at page_directory (pa + 0x1000 * word_of_nat i) (va + 0x1000 * word_of_nat i) 0 0) [0..<unat j] m"

text \<open>The pages of a reserved region of the memory map that starts below the kernel.\<close>

definition map_reserved :: "u32 \<Rightarrow> u32 \<Rightarrow> mem \<Rightarrow> mem res" where
  "map_reserved page_directory mmap m =
     (if mmap_type m mmap = MULTIBOOT_MMAP_RESERVED \<and> mmap_baselow m mmap < KERNEL_BOOT_VMA then
        loop_res (page_loop 0 (\<lambda>m. mmap_lenlow m mmap)
          (\<lambda>i m. Inr (map_at page_directory (mmap_baselow m mmap + i) (mmap_baselow m mmap + i) 0 0 m)) m)
      else Inr m)"

text \<open>The empty directory and tables.\<close>

definition clear_tables :: "u32 \<Rightarrow> u32 \<Rightarrow> mem \<Rightarrow> mem" where
  "clear_tables page_directory page_table_space m =
     clearSpace page_table_space PAGE_TABLES_SPACE_SIZE
       (fold (\<lambda>i m. store32 m (page_directory + 4 * word_of_nat i) (page_table_space + 0x1000 * word_of_nat i))
         [0..<1024] m)"

section \<open>The boot sequence\<close>

text \<open>
  What the sequence has computed when paging is turned on: the directory, the virtual addresses
  of the bitmap and of the stack, the end of the space it took, and physical memory.
\<close>

record boot_space =
  boot_dir :: u32
  mem_bitmap_ptr :: u32
  mem_stack_ptr :: u32
  kAllocSpace :: u32
  phys :: mem

definition boot_paging :: "u32 \<Rightarrow> u32 \<Rightarrow> u32 \<Rightarrow> u32 \<Rightarrow> mem \<Rightarrow> boot_space res" where
  "boot_paging uninit mbi kernelStart kernelEnd m =
     res_bind (get_highest_adrress uninit m mbi) (\<lambda>highest_address.
     let k_struct_space = KERNEL_STRUCTURES_SPACE;
         mem_stack_bytes = FRAMES_COUNT highest_address * 4 + 4;
         mem_bitmap_bytes = FRAMES_COUNT highest_address div 4;
         (page_directory, space) = ke_alloc kernelEnd PAGE_DIRECTORY_SIZE;
         (page_table_space, space) = ke_alloc space PAGE_TABLES_SPACE_SIZE;
         m = clear_tables page_directory page_table_space m
     in res_bind (map_range page_directory KERNEL_BOOT_VMA kernelEnd 0 m) (\<lambda>m.
        res_bind (map_range page_directory kernelStart kernelEnd KERNEL_HIGH_VMA m) (\<lambda>m.
        let m = map_at page_directory page_directory k_struct_space 0 0 m;
            k_struct_space = k_struct_space + PAGE_DIRECTORY_SIZE;
            m = map_block page_directory page_table_space k_struct_space 1024 m;
            k_struct_space = k_struct_space + PAGE_TABLES_SPACE_SIZE;
            (bitmap, space) = ke_alloc space mem_bitmap_bytes;
            m = clearSpace bitmap (ALIGN_TO mem_bitmap_bytes 0x1000) m;
            m = map_block page_directory bitmap k_struct_space (drop_bit 12 (ALIGN_TO mem_bitmap_bytes 0x1000)) m;
            mem_bitmap_ptr = k_struct_space;
            k_struct_space = k_struct_space + ALIGN_TO mem_bitmap_bytes 0x1000;
            (stack, space) = ke_alloc space mem_stack_bytes;
            m = map_block page_directory stack k_struct_space (drop_bit 12 mem_stack_bytes) m;
            mem_stack_ptr = k_struct_space;
            m = map_at page_directory mbi mbi 0 0 m
        in res_bind (loop_res (mmap_loop (\<lambda>m. m) mbi (map_reserved page_directory) (mbi_mmap_address m mbi) m)) (\<lambda>m.
           Inr \<lparr>boot_dir = page_directory, mem_bitmap_ptr = mem_bitmap_ptr, mem_stack_ptr = mem_stack_ptr,
             kAllocSpace = space, phys = m\<rparr>))))"

text \<open>
  What the processor makes of a page number: the frame, when both entries are present. With
  paging on, the kernel sees physical memory through this translation.
\<close>

definition walk :: "u32 \<Rightarrow> mem \<Rightarrow> nat \<Rightarrow> u32 option" where
  "walk D m n =
     (let e = load32 m (word_at D (n div 1024));
          t = load32 m (push_bit 12 (entry_address e) + 4 * word_of_nat (n mod 1024))
      in if entry_present e \<and> entry_present t then Some (entry_address t) else None)"

text \<open>Memory through the tables; a page that is not mapped reads as zero here, the processor faults.\<close>

definition paged :: "u32 \<Rightarrow> mem \<Rightarrow> mem" where
  "paged D m va =
     (case walk D m (page_no va) of None \<Rightarrow> 0 | Some frame \<Rightarrow> m (push_bit 12 frame OR (va AND 0xFFF)))"

definition enablePaging :: "boot_space \<Rightarrow> kmem" where
  "enablePaging b = zero_kmem\<lparr>ram := paged (boot_dir b) (phys b)\<rparr>"

definition boot_init_mem :: "u32 \<Rightarrow> u32 \<Rightarrow> u32 \<Rightarrow> u32 \<Rightarrow> u32 \<Rightarrow> u32 \<Rightarrow> console \<Rightarrow> console res" where
  "boot_init_mem uninit msg mboot_magic mbi kernel_start kernel_end c =
     (if mboot_magic \<noteq> MULTIBOOT_EAX_MAGIC then Inl (KPanic ''src/boot_memory_init.c'' 14)
      else if mbi_flags (ram (sys c)) mbi AND MULTIBOOT_FLAG_MMAP = 0 then Inl (KPanic ''src/boot_memory_init.c'' 16)
      else if kernel_end AND 0xFFF \<noteq> 0 then Inl (KPanic ''src/boot_memory_init.c'' 18)
      else
        res_bind (boot_paging uninit mbi kernel_start kernel_end (ram (sys c))) (\<lambda>b.
        res_bind (returned (init_serial msg (c\<lparr>sys := enablePaging b\<rparr>))) (\<lambda>c.
        let s = setMStackAdress (mem_stack_ptr b) (setBitmapAddress (mem_bitmap_ptr b) (sys c))
        in res_bind (init_kalloc mbi KERNEL_BOOT_VMA (kAllocSpace b) s) (\<lambda>s. Inr (c\<lparr>sys := s\<rparr>)))))"

end
