(* ===== verification/Boot_Paging.thy ===== *)
theory Boot_Paging
  imports Boot
begin

text \<open>
  The page tables that the boot code builds: what \<open>map_at\<close> does to the translation of the
  processor, the translation after the whole sequence as a list of blocks of pages, and the window
  at \<open>KERNEL_STRUCTURES_SPACE\<close> through which \<open>Paging\<close> sees the same tables.
\<close>

section \<open>The tables as arrays\<close>

definition dir_entry :: "u32 \<Rightarrow> mem \<Rightarrow> nat \<Rightarrow> u32" where
  "dir_entry D m p = load32 m (word_at D p)"

definition page_entry :: "u32 \<Rightarrow> mem \<Rightarrow> nat \<Rightarrow> u32" where
  "page_entry D m n = load32 m (word_at D (1024 + n))"

text \<open>
  The directory points to the tables behind it, and a present page lies in a present table.
\<close>

definition boot_ok :: "u32 \<Rightarrow> mem \<Rightarrow> bool" where
  "boot_ok D m \<longleftrightarrow> va_ok D \<and>
     (\<forall>p < 1024. entry_address (dir_entry D m p) = drop_bit 12 (word_at D (1024 + 1024 * p))) \<and>
     (\<forall>n < 1048576. entry_present (page_entry D m n) \<longrightarrow> entry_present (dir_entry D m (n div 1024)))"

lemma va_ok_aligned4:
  assumes "va_ok D"
  shows "aligned4 D"
proof -
  have "unat D mod 4096 = 0" using assms by (simp only: va_ok_def page_aligned_nat)
  then have "4096 dvd unat D" by (simp only: dvd_eq_mod_eq_0)
  then have "4 dvd unat D" by (rule dvd_trans [rotated]) simp
  then show ?thesis unfolding aligned4_def by (rule dvd_imp_mod_0)
qed

lemma va_ok_add:
  assumes "va_ok a" "va_ok b"
  shows "va_ok (a + b)"
proof -
  have "unat (a + b) mod 4096 = (unat a + unat b) mod 4096"
    by (simp add: unat_word_ariths mod_mod_cancel)
  also have "\<dots> = (unat a mod 4096 + unat b mod 4096) mod 4096" by (rule mod_add_eq [symmetric])
  also have "\<dots> = 0" using assms by (simp only: va_ok_def page_aligned_nat)
  finally show ?thesis by (simp only: va_ok_def page_aligned_nat)
qed

lemma va_ok_push: "va_ok (push_bit 12 w)"
  unfolding va_ok_def page_low_bits by (simp add: take_bit_push_bit)

lemma va_ok_page:
  assumes "va_ok D"
  shows "va_ok (word_at D (1024 * k))"
proof -
  have eq: "4 * (word_of_nat (1024 * k) :: u32) = push_bit 12 (word_of_nat k)"
    by (simp add: push_bit_eq_mult)
  show ?thesis unfolding word_at_def eq by (intro va_ok_add assms va_ok_push)
qed

lemma walk_entries:
  assumes "boot_ok D m" "n < 1048576"
  shows "walk D m n = (if entry_present (dir_entry D m (n div 1024)) \<and> entry_present (page_entry D m n)
    then Some (entry_address (page_entry D m n)) else None)"
proof -
  have p: "n div 1024 < 1024" using assms(2) by (simp add: less_mult_imp_div_less)
  have "va_ok (word_at D (1024 * (1 + n div 1024)))" using assms(1) by (intro va_ok_page) (simp add: boot_ok_def)
  then have a: "push_bit 12 (drop_bit 12 (word_at D (1024 + 1024 * (n div 1024)))) = word_at D (1024 + 1024 * (n div 1024))"
    by (intro va_ok_restore) (simp add: algebra_simps)
  have "word_at D (1024 + 1024 * (n div 1024)) + 4 * word_of_nat (n mod 1024)
      = D + 4 * word_of_nat (1024 + (1024 * (n div 1024) + n mod 1024))"
    by (simp only: word_at_def of_nat_add distrib_left add.assoc)
  also have "\<dots> = word_at D (1024 + n)" by (simp only: mult_div_mod_eq word_at_def)
  finally have "word_at D (1024 + 1024 * (n div 1024)) + 4 * word_of_nat (n mod 1024) = word_at D (1024 + n)" .
  then show ?thesis using assms(1) p a
    by (simp add: walk_def boot_ok_def dir_entry_def page_entry_def Let_def)
qed

section \<open>map\_at\<close>

lemma page_down: "(x :: u32) AND NOT (x AND 0xFFF) = push_bit 12 (drop_bit 12 x)"
  unfolding page_low_bits by (rule bit_word_eqI) (auto simp: bit_simps)

lemma page_down_indices:
  "pd_index (push_bit 12 (drop_bit 12 va)) = pd_index va" "pt_index (push_bit 12 (drop_bit 12 va)) = pt_index va"
  "page_no (push_bit 12 (drop_bit 12 va)) = page_no va"
proof -
  have "drop_bit 12 (push_bit 12 (drop_bit 12 va)) = drop_bit 12 va"
    by (rule bit_word_eqI) (auto simp: bit_simps dest: bit_imp_le_length)
  then show pt: "pt_index (push_bit 12 (drop_bit 12 va)) = pt_index va" unfolding pt_index_def by simp
  show pd: "pd_index (push_bit 12 (drop_bit 12 va)) = pd_index va"
    unfolding pd_index_def by (rule bit_word_eqI) (auto simp: bit_simps dest: bit_imp_le_length)
  show "page_no (push_bit 12 (drop_bit 12 va)) = page_no va" unfolding page_no_index pt pd ..
qed

lemma entry_or_one [simp]:
  "entry_present (e OR 1)" "entry_address (e OR 1) = entry_address e"
  "entry_address (push_bit 12 f OR 1) = entry_address (push_bit 12 f)"
proof -
  show "entry_present (e OR 1)" by (simp add: entry_present_def bit_simps)
  show "entry_address (e OR 1) = entry_address e" for e
    unfolding entry_address_def by (rule bit_word_eqI) (auto simp: bit_simps)
  then show "entry_address (push_bit 12 f OR 1) = entry_address (push_bit 12 f)" .
qed

lemma page_down_address: "entry_address (push_bit 12 (drop_bit 12 pa)) = drop_bit 12 pa"
  unfolding entry_address_def by (rule bit_word_eqI) (auto simp: bit_simps dest: bit_imp_le_length)

lemma dir_slot: "D + 4 * pd_index va = word_at D (page_no va div 1024)"
proof -
  have "page_no va div 1024 = unat (pd_index va)"
    using pt_index_less [of va] by (simp add: page_no_index)
  then show ?thesis by (simp add: word_at_def)
qed

lemma page_slot: "word_at D (1024 + 1024 * (page_no va div 1024)) + 4 * pt_index va = word_at D (1024 + page_no va)"
proof -
  have "page_no va div 1024 = unat (pd_index va)"
    using pt_index_less [of va] by (simp add: page_no_index)
  then show ?thesis by (simp add: word_at_def page_no_index algebra_simps)
qed

text \<open>Both stores, as updates of the two arrays.\<close>

lemma map_at_stores:
  fixes pa va :: u32
  assumes "boot_ok D m"
  defines "p \<equiv> page_no va div 1024"
  defines "m1 \<equiv> (if entry_present (dir_entry D m p) then m
    else store32 m (word_at D p) (dir_entry D m p OR 1))"
  shows "map_at D pa va 0 0 m = store32 m1 (word_at D (1024 + page_no va)) (push_bit 12 (drop_bit 12 pa) OR 1)"
proof -
  have p: "p < 1024" unfolding p_def using page_no_less [of va] by (simp add: less_mult_imp_div_less)
  have ok: "va_ok x \<Longrightarrow> x = push_bit 12 (drop_bit 12 x)" for x using va_ok_restore [of x] by simp
  let ?u = "pa AND 0xFFF \<noteq> 0 \<or> va AND 0xFFF \<noteq> 0"
  have pa: "(if ?u then pa AND NOT (pa AND 0xFFF) else pa) = push_bit 12 (drop_bit 12 pa)"
    using page_down [of pa] ok [of pa] by (auto simp: va_ok_def)
  have va: "(if ?u then va AND NOT (va AND 0xFFF) else va) = push_bit 12 (drop_bit 12 va)"
    using page_down [of va] ok [of va] by (auto simp: va_ok_def)
  have addr: "entry_address (load32 m (word_at D p)) = drop_bit 12 (word_at D (1024 + 1024 * p))"
    using assms(1) p by (simp add: boot_ok_def dir_entry_def)
  have "va_ok (word_at D (1024 * (1 + p)))" using assms(1) by (intro va_ok_page) (simp add: boot_ok_def)
  then have "push_bit 12 (drop_bit 12 (word_at D (1024 + 1024 * p))) = word_at D (1024 + 1024 * p)"
    by (intro va_ok_restore) (simp add: algebra_simps)
  then show ?thesis
    unfolding map_at_def Let_def pa va dir_slot page_down_indices p_def [symmetric]
    using addr page_slot [of D va, folded p_def] by (simp add: m1_def dir_entry_def)
qed

lemma entries_upd:
  assumes "va_ok D"
  shows "p < 1024 \<Longrightarrow> q < 1024 \<Longrightarrow> dir_entry D (store32 m (word_at D p) v) q = (if p = q then v else dir_entry D m q)"
    and "p < 1024 \<Longrightarrow> n < 1048576 \<Longrightarrow> dir_entry D (store32 m (word_at D (1024 + n)) v) p = dir_entry D m p"
    and "n < 1048576 \<Longrightarrow> k < 1048576 \<Longrightarrow> page_entry D (store32 m (word_at D (1024 + n)) v) k = (if n = k then v else page_entry D m k)"
    and "p < 1024 \<Longrightarrow> n < 1048576 \<Longrightarrow> page_entry D (store32 m (word_at D p) v) n = page_entry D m n"
  using va_ok_aligned4 [OF assms] by (simp_all add: dir_entry_def page_entry_def ram.array_upd)

lemma map_at_walk:
  assumes ok: "boot_ok D m"
  shows "boot_ok D (map_at D pa va 0 0 m)"
    and "n < 1048576 \<Longrightarrow> walk D (map_at D pa va 0 0 m) n = (if n = page_no va then Some (drop_bit 12 pa) else walk D m n)"
proof -
  define p where "p = page_no va div 1024"
  define m1 where "m1 = (if entry_present (dir_entry D m p) then m
    else store32 m (word_at D p) (dir_entry D m p OR 1))"
  define m2 where "m2 = map_at D pa va 0 0 m"
  have D: "va_ok D" using ok by (simp add: boot_ok_def)
  have n0: "page_no va < 1048576" "p < 1024"
    unfolding p_def using page_no_less [of va] by (simp_all add: less_mult_imp_div_less)
  have m2: "m2 = store32 m1 (word_at D (1024 + page_no va)) (push_bit 12 (drop_bit 12 pa) OR 1)"
    unfolding m2_def m1_def p_def by (rule map_at_stores [OF ok])
  note U = entries_upd [OF D]
  have dir: "dir_entry D m2 q = (if q = p then dir_entry D m1 p else dir_entry D m q)" if "q < 1024" for q
    unfolding m2 using that n0 U(2) by (auto simp: m1_def U(1))
  have dir1: "entry_present (dir_entry D m1 p)" "entry_address (dir_entry D m1 p) = entry_address (dir_entry D m p)"
    using n0(2) by (auto simp: m1_def U(1))
  have page: "page_entry D m2 k = (if k = page_no va then push_bit 12 (drop_bit 12 pa) OR 1 else page_entry D m k)"
    if "k < 1048576" for k
    unfolding m2 using that n0 by (auto simp: m1_def U(3,4))
  have pres: "entry_present (dir_entry D m2 q) = (q = p \<or> entry_present (dir_entry D m q))" if "q < 1024" for q
    using dir [OF that] dir1(1) by auto
  have div: "k div 1024 < 1024" if "k < 1048576" for k :: nat using that by (simp add: less_mult_imp_div_less)
  have ok2: "boot_ok D m2"
    unfolding boot_ok_def
  proof (intro conjI allI impI)
    show "va_ok D" by (rule D)
    show "entry_address (dir_entry D m2 q) = drop_bit 12 (word_at D (1024 + 1024 * q))" if "q < 1024" for q
      using ok that dir [OF that] dir1(2) n0(2) by (auto simp: boot_ok_def)
    show "entry_present (dir_entry D m2 (k div 1024))"
      if k: "k < 1048576" "entry_present (page_entry D m2 k)" for k
    proof (cases "k = page_no va")
      case False
      then have "entry_present (page_entry D m k)" using k page by simp
      then show ?thesis using ok k(1) pres [OF div [OF k(1)]] by (simp add: boot_ok_def)
    qed (use k pres div in \<open>simp add: p_def\<close>)
  qed
  then show "boot_ok D (map_at D pa va 0 0 m)" by (simp add: m2_def)
  show "walk D (map_at D pa va 0 0 m) n = (if n = page_no va then Some (drop_bit 12 pa) else walk D m n)"
    if n: "n < 1048576"
  proof (cases "n = page_no va")
    case True
    then have "walk D m2 n = Some (drop_bit 12 pa)"
      using walk_entries [OF ok2 n] page [OF n] pres [OF div [OF n]] by (simp add: p_def page_down_address)
    then show ?thesis using True by (simp add: m2_def)
  next
    case False
    then have pe: "page_entry D m2 n = page_entry D m n" using page [OF n] by simp
    have "entry_present (dir_entry D m (n div 1024))" if "entry_present (page_entry D m n)"
      using ok that n by (simp add: boot_ok_def)
    then show ?thesis
      using False walk_entries [OF ok2 n] walk_entries [OF ok n] pe pres [OF div [OF n]]
      by (auto simp: m2_def)
  qed
qed

section \<open>Bytes the boot code writes\<close>

text \<open>Nothing changes from \<open>L\<close> bytes above the directory onwards.\<close>

definition same_from :: "u32 \<Rightarrow> nat \<Rightarrow> mem \<Rightarrow> mem \<Rightarrow> bool" where
  "same_from D L m m' \<longleftrightarrow> (\<forall>x. L \<le> unat (x - D) \<longrightarrow> m' x = m x)"

lemma same_from_refl [simp]: "same_from D L m m"
  by (simp add: same_from_def)

lemma same_from_trans: "same_from D L m m' \<Longrightarrow> same_from D L m' m'' \<Longrightarrow> same_from D L m m''"
  by (simp add: same_from_def)

lemma same_from_mono: "same_from D L m m' \<Longrightarrow> L \<le> K \<Longrightarrow> same_from D K m m'"
  by (simp add: same_from_def)

lemma word_bytes:
  assumes "j < 1049600" "k \<in> {0, 1, 2, 3}"
  shows "unat (word_at D j + k - D) = 4 * j + unat k"
proof -
  have k: "unat k \<le> 3" using assms(2) by auto
  have "unat (4 * (word_of_nat j :: u32)) = 4 * j" using assms(1) by (simp add: u32_mult_nowrap u32_of_nat)
  then have "unat (4 * word_of_nat j + k) = 4 * j + unat k" using assms(1) k by (simp add: u32_add_nowrap)
  moreover have "word_at D j + k - D = 4 * word_of_nat j + k" by (simp add: word_at_def)
  ultimately show ?thesis by (simp only:)
qed

lemma load_entry_cong:
  assumes "j < 1049600" "\<And>x. unat (x - D) < 0x401000 \<Longrightarrow> m' x = m x"
  shows "load32 m' (word_at D j) = load32 m (word_at D j)"
proof (rule load32_cong)
  fix x assume "x \<in> {word_at D j, word_at D j + 1, word_at D j + 2, word_at D j + 3}"
  then obtain k where k: "k \<in> {0, 1, 2, 3}" "x = word_at D j + k" by fastforce
  then have "unat k \<le> 3" by auto
  then show "m' x = m x" using assms k(2) word_bytes [OF assms(1) k(1)] by simp
qed

lemma store_entry_same:
  assumes "j < 1049600"
  shows "same_from D 0x401000 m (store32 m (word_at D j) v)"
  unfolding same_from_def
proof (intro allI impI, rule store32_byte_other)
  fix x assume x: "0x401000 \<le> unat (x - D)"
  have "x \<noteq> word_at D j + k" if "k \<in> {0, 1, 2, 3}" for k
  proof -
    have "unat k \<le> 3" using that by auto
    then show ?thesis using word_bytes [OF assms that, of D] x assms by auto
  qed
  from this [of 0] this [of 1] this [of 2] this [of 3]
  show "x \<notin> {word_at D j, word_at D j + 1, word_at D j + 2, word_at D j + 3}" by simp
qed

lemma map_at_same: "boot_ok D m \<Longrightarrow> same_from D 0x401000 m (map_at D pa va 0 0 m)"
proof -
  assume ok: "boot_ok D m"
  have "page_no va < 1048576" "page_no va div 1024 < 1049600"
    using page_no_less [of va] by (simp_all add: less_mult_imp_div_less)
  then show ?thesis unfolding map_at_stores [OF ok]
    by (cases "entry_present (dir_entry D m (page_no va div 1024))")
      (simp_all add: store_entry_same same_from_trans [OF store_entry_same store_entry_same])
qed

text \<open>The tables depend only on their own bytes.\<close>

lemma entries_cong:
  assumes "\<And>x. unat (x - D) < 0x401000 \<Longrightarrow> m' x = m x"
  shows "p < 1024 \<Longrightarrow> dir_entry D m' p = dir_entry D m p" "n < 1048576 \<Longrightarrow> page_entry D m' n = page_entry D m n"
  unfolding dir_entry_def page_entry_def by (intro load_entry_cong assms; simp)+

lemma boot_ok_cong:
  assumes "\<And>x. unat (x - D) < 0x401000 \<Longrightarrow> m' x = m x" "boot_ok D m"
  shows "boot_ok D m'" and "n < 1048576 \<Longrightarrow> walk D m' n = walk D m n"
proof -
  note C = entries_cong [OF assms(1)]
  have div: "k div 1024 < 1024" if "k < 1048576" for k :: nat using that by (simp add: less_mult_imp_div_less)
  show ok: "boot_ok D m'" using assms(2) C div by (simp add: boot_ok_def)
  show "walk D m' n = walk D m n" if "n < 1048576"
    using that walk_entries [OF ok that] walk_entries [OF assms(2) that] C div by simp
qed

section \<open>Blocks of pages\<close>

text \<open>A block \<open>(a, f, k)\<close> takes the pages \<open>a\<close>, \<dots>, \<open>a + k - 1\<close> to the frames from \<open>f\<close>; the first one counts.\<close>

fun look :: "(nat \<times> u32 \<times> nat) list \<Rightarrow> nat \<Rightarrow> u32 option" where
  "look [] n = None"
| "look ((a, f, k) # bs) n = (if a \<le> n \<and> n < a + k then Some (f + word_of_nat (n - a)) else look bs n)"

lemma look_append: "look (bs @ cs) n = (case look bs n of None \<Rightarrow> look cs n | Some f \<Rightarrow> Some f)"
  by (induction bs n rule: look.induct) auto

definition maps :: "u32 \<Rightarrow> mem \<Rightarrow> mem \<Rightarrow> (nat \<times> u32 \<times> nat) list \<Rightarrow> bool" where
  "maps D m m' bs \<longleftrightarrow> boot_ok D m' \<and> same_from D 0x401000 m m' \<and>
     (\<forall>n < 1048576. walk D m' n = (case look bs n of None \<Rightarrow> walk D m n | Some f \<Rightarrow> Some f))"

lemma maps_refl: "boot_ok D m \<Longrightarrow> maps D m m []"
  by (simp add: maps_def)

lemma maps_ok: "maps D m m' bs \<Longrightarrow> boot_ok D m'"
  by (simp add: maps_def)

lemma maps_trans: "maps D m m' bs \<Longrightarrow> maps D m' m'' cs \<Longrightarrow> maps D m m'' (cs @ bs)"
  by (auto simp: maps_def look_append intro: same_from_trans split: option.splits)

lemma maps_eq: "maps D m m' bs \<Longrightarrow> (\<And>n. look bs n = look cs n) \<Longrightarrow> maps D m m' cs"
  by (simp add: maps_def)

lemma map_at_maps: "boot_ok D m \<Longrightarrow> maps D m (map_at D pa va 0 0 m) [(page_no va, drop_bit 12 pa, 1)]"
  using map_at_walk [where D = D and m = m and pa = pa and va = va] map_at_same [where D = D and m = m and pa = pa and va = va]
  by (auto simp: maps_def)

lemma maps_run:
  assumes "boot_ok D m" "\<And>i. i < k \<Longrightarrow> page_no (va i) = a + i \<and> drop_bit 12 (pa i) = f + word_of_nat i"
  shows "maps D m (fold (\<lambda>i. map_at D (pa i) (va i) 0 0) [0..<k] m) [(a, f, k)]"
  using assms(2)
proof (induction k)
  case 0
  then show ?case by (auto intro: maps_eq [OF maps_refl [OF assms(1)]])
next
  case (Suc k)
  let ?m = "fold (\<lambda>i. map_at D (pa i) (va i) 0 0) [0..<k] m"
  have IH: "maps D m ?m [(a, f, k)]" using Suc by simp
  from map_at_maps [OF maps_ok [OF IH], where pa = "pa k" and va = "va k"]
  have "maps D ?m (map_at D (pa k) (va k) 0 0 ?m) [(a + k, f + word_of_nat k, 1)]" using Suc.prems [of k] by simp
  from maps_trans [OF IH this]
  have "maps D m (map_at D (pa k) (va k) 0 0 ?m) [(a + k, f + word_of_nat k, 1), (a, f, k)]" by simp
  then have "maps D m (map_at D (pa k) (va k) 0 0 ?m) [(a, f, Suc k)]"
  proof (rule maps_eq)
    show "look [(a + k, f + word_of_nat k, 1), (a, f, k)] n = look [(a, f, Suc k)] n" for n
      by (cases "n = a + k") auto
  qed
  then show ?case by simp
qed

lemma page_frame: "drop_bit 12 y = (word_of_nat (page_no y) :: u32)"
proof (rule u32_eqI)
  have "unat y div 4096 < 4294967296" using unat_u32_less [of y] by linarith
  then show "unat (drop_bit 12 y) = unat (word_of_nat (page_no y) :: u32)"
    unfolding page_no_def by (simp only: u32_of_nat) (simp add: unsigned_drop_bit_eq drop_bit_eq_div unat_div)
qed

lemma page_no_plus:
  assumes "unat x + 4096 * k < 4294967296"
  shows "page_no (x + word_of_nat (4096 * k)) = page_no x + k"
proof -
  have "unat (word_of_nat (4096 * k) :: u32) = 4096 * k" using assms by (intro u32_of_nat) simp
  then have "unat (x + word_of_nat (4096 * k)) = unat x + 4096 * k" using assms by (simp add: u32_add_nowrap)
  then show ?thesis by (simp add: page_no_def)
qed

lemma frame_plus:
  fixes x :: u32
  assumes "unat x + 4096 * k < 4294967296"
  shows "drop_bit 12 (x + word_of_nat (4096 * k)) = drop_bit 12 x + word_of_nat k"
  unfolding page_frame page_no_plus [OF assms] by simp

lemma map_block_maps:
  assumes "boot_ok D m" "unat pa + 4096 * unat j \<le> 4294967296" "unat va + 4096 * unat j \<le> 4294967296"
  shows "maps D m (map_block D pa va j m) [(page_no va, drop_bit 12 pa, unat j)]"
proof -
  have eq: "0x1000 * word_of_nat i = (word_of_nat (4096 * i) :: u32)" for i by simp
  show ?thesis unfolding map_block_def eq
    by (rule maps_run [OF assms(1)]) (use assms(2,3) in \<open>simp add: page_no_plus frame_plus del: of_nat_mult\<close>)
qed

lemma map_range_maps:
  assumes "boot_ok D m" "unat stop \<le> 4294963200" "unat start + unat off \<le> 4294967295"
    "start < stop \<Longrightarrow> unat stop + unat off \<le> 4294967296"
  shows "\<exists>m'. map_range D start stop off m = Inr m' \<and>
    maps D m m' [(page_no (start + off), drop_bit 12 start, page_steps start stop)]"
proof -
  let ?m = "fold (\<lambda>i. map_at D (start + word_of_nat (4096 * i)) (start + off + word_of_nat (4096 * i)) 0 0)
    [0..<page_steps start stop] m"
  have "map_range D start stop off m = Inr (fold (\<lambda>i m. map_at D i (i + off) 0 0 m) (page_offsets start stop) m)"
    unfolding map_range_def page_loop_eq [OF assms(2)] by (simp add: fold_res_total)
  also have "fold (\<lambda>i m. map_at D i (i + off) 0 0 m) (page_offsets start stop) m = ?m"
    unfolding page_offsets_def fold_map comp_def by (simp only: ac_simps)
  finally have "map_range D start stop off m = Inr ?m" .
  moreover have "maps D m ?m [(page_no (start + off), drop_bit 12 start, page_steps start stop)]"
  proof (rule maps_run [OF assms(1)])
    fix i assume i: "i < page_steps start stop"
    have "unat start + 4096 * i < unat stop" by (rule page_offset_value(2) [OF i assms(2)])
    moreover from this have "start < stop" by (simp add: word_less_nat_alt)
    moreover have "unat (start + off) = unat start + unat off" using assms(3) by (intro u32_add_nowrap) simp
    ultimately show "page_no (start + off + word_of_nat (4096 * i)) = page_no (start + off) + i \<and>
        drop_bit 12 (start + word_of_nat (4096 * i)) = drop_bit 12 start + word_of_nat i"
      using assms(4) unat_u32_less [of stop] by (simp add: page_no_plus frame_plus del: of_nat_mult)
  qed
  ultimately show ?thesis by blast
qed

end
