(* ===== verification/Boot_Theorems.thy ===== *)
theory Boot_Theorems
  imports Boot_Paging
begin

text \<open>
  The whole boot sequence: the translation it leaves behind, as a list of blocks, and the
  agreement of \<open>getPhysicalAddress\<close>, which reads the tables through their window, with the
  translation of the processor.
\<close>

section \<open>Reading the memory map while mapping\<close>

text \<open>The bytes of an entry, and the fields of the boot information, lie outside what the boot code writes.\<close>

definition word_from :: "u32 \<Rightarrow> nat \<Rightarrow> u32 \<Rightarrow> bool" where
  "word_from D L a \<longleftrightarrow> (\<forall>k \<in> {0, 1, 2, 3}. L \<le> unat (a + k - D))"

definition entry_from :: "u32 \<Rightarrow> nat \<Rightarrow> u32 \<Rightarrow> bool" where
  "entry_from D L e \<longleftrightarrow> word_from D L e \<and> word_from D L (e + 4) \<and> word_from D L (e + 8) \<and>
     word_from D L (e + 12) \<and> word_from D L (e + 20)"

definition mbi_from :: "u32 \<Rightarrow> nat \<Rightarrow> u32 \<Rightarrow> bool" where
  "mbi_from D L mbi \<longleftrightarrow> word_from D L (mbi + 44) \<and> word_from D L (mbi + 48)"

lemma load_from: "same_from D L m m' \<Longrightarrow> word_from D L a \<Longrightarrow> load32 m' a = load32 m a"
  by (rule load32_cong) (auto simp: same_from_def word_from_def)

lemma entry_from_fields:
  assumes "same_from D L m m'" "entry_from D L e"
  shows "mmap_size m' e = mmap_size m e" "mmap_baselow m' e = mmap_baselow m e"
    "mmap_basehigh m' e = mmap_basehigh m e" "mmap_lenlow m' e = mmap_lenlow m e" "mmap_type m' e = mmap_type m e"
  using assms(2) load_from [OF assms(1)] by (simp_all add: entry_from_def mmap_field_defs)

lemma mbi_from_fields:
  assumes "same_from D L m m'" "mbi_from D L mbi"
  shows "mbi_mmap_address m' mbi = mbi_mmap_address m mbi" "mmap_stop m' mbi = mmap_stop m mbi"
  using assms(2) load_from [OF assms(1)] by (simp_all add: mbi_from_def mbi_field_defs mmap_stop_def)

lemma entry_from_mono: "entry_from D L e \<Longrightarrow> K \<le> L \<Longrightarrow> entry_from D K e"
  by (auto simp: entry_from_def word_from_def)

lemma mbi_from_mono: "mbi_from D L e \<Longrightarrow> K \<le> L \<Longrightarrow> mbi_from D K e"
  by (auto simp: mbi_from_def word_from_def)

text \<open>Does the loop of the boot code map the region of this entry?\<close>

definition low_reserved :: "mem \<Rightarrow> u32 \<Rightarrow> bool" where
  "low_reserved m e \<longleftrightarrow> mmap_type m e = MULTIBOOT_MMAP_RESERVED \<and> mmap_baselow m e < KERNEL_BOOT_VMA"

definition reserved_block :: "mem \<Rightarrow> u32 \<Rightarrow> (nat \<times> u32 \<times> nat) list" where
  "reserved_block m e = (if low_reserved m e
     then [(page_no (mmap_baselow m e), drop_bit 12 (mmap_baselow m e), page_steps 0 (mmap_lenlow m e))] else [])"

definition reserved_ok :: "mem \<Rightarrow> u32 \<Rightarrow> bool" where
  "reserved_ok m e \<longleftrightarrow> low_reserved m e \<longrightarrow> unat (mmap_baselow m e) + unat (mmap_lenlow m e) \<le> 4294963200"

lemma reserved_kept:
  assumes "same_from D L m m'" "entry_from D L e"
  shows "reserved_block m' e = reserved_block m e" "reserved_ok m' e = reserved_ok m e"
  using entry_from_fields [OF assms] by (simp_all add: reserved_block_def reserved_ok_def low_reserved_def)

lemma reserved_fold:
  assumes "boot_ok D m" and e: "entry_from D 0x401000 e"
  defines "f b i \<equiv> map_at D (b + i) (b + i) 0 0"
  shows "fold_res (\<lambda>i m. Inr (f (mmap_baselow m e) i m)) offs m = Inr (fold (f (mmap_baselow m e)) offs m) \<and>
    same_from D 0x401000 m (fold (f (mmap_baselow m e)) offs m)"
  using assms(1)
proof (induction offs arbitrary: m)
  case (Cons i offs)
  let ?b = "mmap_baselow m e"
  have s: "same_from D 0x401000 m (f ?b i m)" unfolding f_def by (rule map_at_same [OF Cons.prems])
  have b: "mmap_baselow (f ?b i m) e = ?b" using entry_from_fields [OF s e] by simp
  have ok: "boot_ok D (f ?b i m)" unfolding f_def by (rule map_at_walk(1) [OF Cons.prems])
  note IH = Cons.IH [OF ok, unfolded b]
  then show ?case using same_from_trans [OF s] by simp
qed simp

lemma map_reserved_maps:
  assumes ok: "boot_ok D m" and e: "entry_from D 0x401000 e" and r: "reserved_ok m e"
  shows "\<exists>m'. map_reserved D e m = Inr m' \<and> maps D m m' (reserved_block m e)"
proof (cases "low_reserved m e")
  case False
  then show ?thesis using maps_refl [OF ok] by (auto simp: map_reserved_def reserved_block_def low_reserved_def)
next
  case True
  let ?b = "mmap_baselow m e" and ?n = "mmap_lenlow m e"
  let ?f = "\<lambda>i m. Inr (map_at D (mmap_baselow m e + i) (mmap_baselow m e + i) 0 0 m)"
  have bound: "unat ?b + unat ?n \<le> 4294963200" using r True by (simp add: reserved_ok_def)
  have "page_loop 0 (\<lambda>m. mmap_lenlow m e) ?f m = Some (fold_res ?f (page_offsets 0 ?n) m)"
  proof (rule page_loop_path)
    show "mmap_lenlow u e = ?n" if "fold_res ?f (take k (page_offsets 0 ?n)) m = Inr u" for k u
      using that reserved_fold [OF ok e, of "take k (page_offsets 0 ?n)"] entry_from_fields(4) [OF _ e] by auto
  qed (use bound in simp)
  then have run: "map_reserved D e m = Inr (fold (\<lambda>i. map_at D (?b + i) (?b + i) 0 0) (page_offsets 0 ?n) m)"
    using True reserved_fold [OF ok e] by (simp add: map_reserved_def low_reserved_def)
  have fold: "fold (\<lambda>i. map_at D (?b + i) (?b + i) 0 0) (page_offsets 0 ?n) m
      = fold (\<lambda>i. map_at D (?b + word_of_nat (4096 * i)) (?b + word_of_nat (4096 * i)) 0 0) [0..<page_steps 0 ?n] m"
    unfolding page_offsets_def fold_map comp_def by (simp only: add_0)
  have "maps D m (fold (\<lambda>i. map_at D (?b + word_of_nat (4096 * i)) (?b + word_of_nat (4096 * i)) 0 0)
      [0..<page_steps 0 ?n] m) [(page_no ?b, drop_bit 12 ?b, page_steps 0 ?n)]"
  proof (rule maps_run [OF ok])
    fix i assume i: "i < page_steps 0 ?n"
    have "unat (0 :: u32) + 4096 * i < unat ?n" by (rule page_offset_value(2) [OF i]) (use bound in simp)
    then show "page_no (?b + word_of_nat (4096 * i)) = page_no ?b + i \<and>
        drop_bit 12 (?b + word_of_nat (4096 * i)) = drop_bit 12 ?b + word_of_nat i"
      using bound by (simp add: page_no_plus frame_plus del: of_nat_mult)
  qed
  then show ?thesis using run fold True by (auto simp: reserved_block_def)
qed

lemma map_reserved_all:
  assumes "boot_ok D m" "\<forall>e \<in> set es. entry_from D 0x401000 e \<and> reserved_ok m e"
  shows "\<exists>m'. fold_res (map_reserved D) es m = Inr m' \<and> maps D m m' (concat (map (reserved_block m) (rev es)))"
  using assms
proof (induction es arbitrary: m)
  case Nil
  then show ?case by (simp add: maps_refl)
next
  case (Cons e es)
  obtain u where u: "map_reserved D e m = Inr u" "maps D m u (reserved_block m e)"
    using map_reserved_maps [OF Cons.prems(1)] Cons.prems(2) by auto
  have s: "same_from D 0x401000 m u" using u(2) by (simp add: maps_def)
  have kept: "reserved_block u f = reserved_block m f" "reserved_ok u f" if "f \<in> set es" for f
    using reserved_kept [OF s, of f] Cons.prems(2) that by simp_all
  from Cons.IH [OF maps_ok [OF u(2)]] Cons.prems(2) kept obtain t where
    t: "fold_res (map_reserved D) es u = Inr t" "maps D u t (concat (map (reserved_block u) (rev es)))" by auto
  have "map (reserved_block u) (rev es) = map (reserved_block m) (rev es)" using kept by simp
  with t(2) have "maps D u t (concat (map (reserved_block m) (rev es)))" by (simp only:)
  from maps_trans [OF u(2) this] show ?case using u(1) t(1) by auto
qed

lemma map_reserved_loop:
  assumes ok: "boot_ok D m" and es: "\<forall>e \<in> set es. entry_from D 0x401000 e \<and> reserved_ok m e"
    and mbi: "mbi_from D 0x401000 mbi"
    and chain: "mmap_chain m (mbi_mmap_address m mbi) (mmap_stop m mbi) es"
  shows "\<exists>m'. mmap_loop (\<lambda>m. m) mbi (map_reserved D) (mbi_mmap_address m mbi) m = Some (Inr m') \<and>
    maps D m m' (concat (map (reserved_block m) (rev es)))"
proof -
  have pre: "same_from D 0x401000 m u" if "es = as @ bs" "fold_res (map_reserved D) as m = Inr u" for as bs u
    using map_reserved_all [OF ok, of as] es that by (auto simp: maps_def)
  have "mmap_loop (\<lambda>m. m) mbi (map_reserved D) (mbi_mmap_address m mbi) m = Some (fold_res (map_reserved D) es m)"
  proof (rule mmap_loop_path [OF chain])
    show "mmap_stop u mbi = mmap_stop m mbi" if "es = as @ bs" "fold_res (map_reserved D) as m = Inr u" for as bs u
      using mbi_from_fields [OF pre [OF that] mbi] by simp
    show "mmap_size u e = mmap_size m e"
      if "es = as @ bs" "fold_res (map_reserved D) as m = Inr u" "e \<in> set es" for as bs u e
      using entry_from_fields [OF pre [OF that(1,2)]] es that(3) by simp
  qed
  then show ?thesis using map_reserved_all [OF ok es] by auto
qed

section \<open>The empty tables\<close>

lemma tables_offset:
  fixes x D :: u32
  shows "unat (x - (D + 0x1000)) = (if 4096 \<le> unat (x - D) then unat (x - D) - 4096 else unat (x - D) + 4294963200)"
proof -
  have eq: "x - (D + 0x1000) = (x - D) - 0x1000" by simp
  show ?thesis
  proof (cases "4096 \<le> unat (x - D)")
    case True
    then show ?thesis using u32_sub_nowrap [of "0x1000" "x - D"] unfolding eq by simp
  next
    case False
    have "(x - D) - 0x1000 = (x - D) + 0xFFFFF000" by simp
    also have "unat \<dots> = unat (x - D) + 4294963200" using False by (simp add: u32_add_nowrap)
    finally show ?thesis unfolding eq using False by simp
  qed
qed

lemma dir_loop:
  assumes "va_ok D" "k \<le> 1024"
  shows "same_from D 0x401000 m (fold (\<lambda>i m. store32 m (D + 4 * word_of_nat i) (T + 0x1000 * word_of_nat i)) [0..<k] m) \<and>
    (\<forall>p < k. dir_entry D (fold (\<lambda>i m. store32 m (D + 4 * word_of_nat i) (T + 0x1000 * word_of_nat i)) [0..<k] m) p
      = T + 0x1000 * word_of_nat p)"
  using assms(2)
proof (induction k)
  case (Suc k)
  let ?m = "fold (\<lambda>i m. store32 m (D + 4 * word_of_nat i) (T + 0x1000 * word_of_nat i)) [0..<k] m"
  have w: "D + 4 * word_of_nat k = word_at D k" by (simp add: word_at_def)
  have "same_from D 0x401000 ?m (store32 ?m (word_at D k) (T + 0x1000 * word_of_nat k))"
    using Suc.prems by (intro store_entry_same) simp
  moreover have "dir_entry D (store32 ?m (word_at D k) v) p = (if k = p then v else dir_entry D ?m p)"
    if "p < Suc k" for p v using entries_upd(1) [OF assms(1), of k p] Suc.prems that by simp
  ultimately show ?case using Suc w by (auto simp: less_Suc_eq intro: same_from_trans)
qed simp

lemma clear_tables_ok:
  assumes "va_ok D"
  shows "boot_ok D (clear_tables D (D + 0x1000) m)" "same_from D 0x401000 m (clear_tables D (D + 0x1000) m)"
    and "n < 1048576 \<Longrightarrow> walk D (clear_tables D (D + 0x1000) m) n = None"
proof -
  let ?T = "D + 0x1000"
  define m1 where "m1 = fold (\<lambda>i m. store32 m (D + 4 * word_of_nat i) (?T + 0x1000 * word_of_nat i)) [0..<1024] m"
  define m2 where "m2 = clear_tables D ?T m"
  have m2: "m2 = fill_bytes ?T 0 0x400000 m1"
    by (simp add: m2_def m1_def clear_tables_def clearSpace_def PAGE_TABLES_SPACE_SIZE_def)
  have m1: "same_from D 0x401000 m m1" "\<And>p. p < 1024 \<Longrightarrow> dir_entry D m1 p = ?T + 0x1000 * word_of_nat p"
    using dir_loop [OF assms, of 1024 m ?T] by (simp_all add: m1_def)
  have byte: "m2 x = (if unat (x - ?T) < 0x400000 then 0 else m1 x)" for x
    unfolding m2 using fill_bytes_value [of "0x400000" ?T 0 m1 x] by simp
  have page: "page_entry D m2 n = 0" if "n < 1048576" for n
  proof -
    have "m2 (word_at D (1024 + n) + k) = 0" if "k \<in> {0, 1, 2, 3}" for k
    proof -
      have "unat k \<le> 3" using that by auto
      then show ?thesis
        unfolding byte tables_offset using word_bytes [of "1024 + n" k D] that \<open>n < 1048576\<close> by simp
    qed
    from this [of 0] this [of 1] this [of 2] this [of 3] show ?thesis
      by (simp add: page_entry_def load32_def)
  qed
  have dir: "dir_entry D m2 p = ?T + 0x1000 * word_of_nat p" if "p < 1024" for p
  proof -
    have "load32 m2 (word_at D p) = load32 m1 (word_at D p)"
    proof (rule load32_cong)
      fix x assume "x \<in> {word_at D p, word_at D p + 1, word_at D p + 2, word_at D p + 3}"
      then obtain k where k: "k \<in> {0, 1, 2, 3}" "x = word_at D p + k" by fastforce
      then have "unat k \<le> 3" by auto
      then show "m2 x = m1 x" unfolding byte tables_offset k(2) using word_bytes [of p k D] k(1) that by simp
    qed
    then show ?thesis using m1(2) [OF that] by (simp add: dir_entry_def)
  qed
  have target: "?T + 0x1000 * word_of_nat p = word_at D (1024 + 1024 * p)" for p
    by (simp add: word_at_def algebra_simps)
  show ok: "boot_ok D (clear_tables D ?T m)"
    unfolding m2_def [symmetric] boot_ok_def
    using assms page dir target by (simp add: entry_present_def entry_address_def)
  have "same_from D 0x401000 m1 m2" by (auto simp: same_from_def byte tables_offset)
  then show "same_from D 0x401000 m (clear_tables D ?T m)"
    using same_from_trans [OF m1(1)] by (simp add: m2_def)
  show "walk D (clear_tables D ?T m) n = None" if "n < 1048576"
    using walk_entries [OF ok that] page [OF that] by (simp add: m2_def entry_present_def)
qed

section \<open>The whole sequence\<close>

text \<open>Sizes of the two arrays, in pages: the bitmap is rounded up, the mapped part of the stack is not.\<close>

definition bitmap_bytes :: "u32 \<Rightarrow> u32" where
  "bitmap_bytes highest = ALIGN_TO (FRAMES_COUNT highest div 4) 0x1000"

definition stack_bytes :: "u32 \<Rightarrow> u32" where
  "stack_bytes highest = FRAMES_COUNT highest * 4 + 4"

text \<open>
  The blocks, the last mapped first: the reserved regions, the boot information, the stack, the
  bitmap, the tables, the directory, the kernel high, and everything up to the kernel's end as it is.
\<close>

definition boot_blocks :: "u32 \<Rightarrow> u32 \<Rightarrow> u32 \<Rightarrow> u32 \<Rightarrow> (nat \<times> u32 \<times> nat) list \<Rightarrow> (nat \<times> u32 \<times> nat) list" where
  "boot_blocks h mbi ks ke rs =
     (let B = bitmap_bytes h; K = KERNEL_STRUCTURES_SPACE + 0x401000; P = ke + 0x401000
      in rs @ [(page_no mbi, drop_bit 12 mbi, 1),
        (page_no (K + B), drop_bit 12 (P + B), unat (stack_bytes h) div 4096),
        (page_no K, drop_bit 12 P, unat B div 4096),
        (page_no (KERNEL_STRUCTURES_SPACE + 0x1000), drop_bit 12 (ke + 0x1000), 1024),
        (page_no KERNEL_STRUCTURES_SPACE, drop_bit 12 ke, 1),
        (page_no (ks + KERNEL_HIGH_VMA), drop_bit 12 ks, page_steps ks ke),
        (page_no KERNEL_BOOT_VMA, drop_bit 12 KERNEL_BOOT_VMA, page_steps KERNEL_BOOT_VMA ke)])"

text \<open>
  What the boot loader and the linker provide: the image ends on a page boundary below 384 MiB, so
  that its high addresses stay below the window, and the memory map lies outside the space the
  boot code takes.
\<close>

definition boot_ready :: "u32 \<Rightarrow> u32 \<Rightarrow> u32 \<Rightarrow> u32 \<Rightarrow> u32 list \<Rightarrow> mem \<Rightarrow> bool" where
  "boot_ready h mbi ks ke es m \<longleftrightarrow> va_ok ke \<and> KERNEL_BOOT_VMA \<le> ks \<and> ks \<le> ke \<and> ke \<le> 0x18000000 \<and>
     mmap_chain m (mbi_mmap_address m mbi) (mmap_stop m mbi) es \<and>
     mbi_from ke (0x401000 + unat (bitmap_bytes h)) mbi \<and>
     (\<forall>e \<in> set es. entry_from ke (0x401000 + unat (bitmap_bytes h)) e \<and> reserved_ok m e)"

lemma align_4096: "ALIGN_TO x 0x1000 = push_bit 12 (drop_bit 12 (x + 0xFFF))"
proof -
  have "x + 0x1000 - 1 = x + 0xFFF" by simp
  moreover have "(0x1000 :: u32) - 1 = mask 12" by (simp add: mask_eq_exp_minus_1)
  ultimately have "ALIGN_TO x 0x1000 = (x + 0xFFF) AND NOT (mask 12)" by (simp only: ALIGN_TO_def)
  also have "\<dots> = push_bit 12 (drop_bit 12 (x + 0xFFF))" by (rule bit_word_eqI) (auto simp: bit_simps)
  finally show ?thesis .
qed

lemma drop12_nat: "unat (drop_bit 12 x :: u32) = unat x div 4096"
  by (simp add: unsigned_drop_bit_eq drop_bit_eq_div unat_div)

lemma push12_nat: "unat x * 4096 < 4294967296 \<Longrightarrow> unat (push_bit 12 x :: u32) = unat x * 4096"
  using u32_mult_nowrap [of x 4096] by (simp add: push_bit_eq_mult)

lemma frames_bound: "unat (FRAMES_COUNT h) \<le> 1048575"
  using less_mult_imp_div_less [of "unat h" 1048576 4096] unat_u32_less [of h]
  by (simp add: FRAMES_COUNT_def drop12_nat)

lemma align_whole:
  assumes "va_ok x"
  shows "ALIGN_TO x 0x1000 = x"
proof -
  define k where "k = unat x div 4096"
  have "unat x mod 4096 = 0" using assms by (simp only: va_ok_def page_aligned_nat)
  then have k: "unat x = 4096 * k" using mult_div_mod_eq [of 4096 "unat x"] by (simp add: k_def)
  have "k < 1048576" using unat_u32_less [of x] k by linarith
  then have "unat (x + 0xFFF) = 4096 * k + 4095" using k by (simp add: u32_add_nowrap)
  then have "unat (drop_bit 12 (x + 0xFFF)) = k" unfolding drop12_nat by simp
  then have "unat (push_bit 12 (drop_bit 12 (x + 0xFFF))) = unat x"
    using k \<open>k < 1048576\<close> by (subst push12_nat) simp_all
  then show ?thesis unfolding align_4096 by (rule u32_eqI)
qed

lemma bitmap_bytes_bound: "va_ok (bitmap_bytes h)" "unat (bitmap_bytes h) \<le> 0x40000"
proof -
  show "va_ok (bitmap_bytes h)" unfolding bitmap_bytes_def align_4096 by (rule va_ok_push)
  define n where "n = FRAMES_COUNT h div 4"
  have "unat n = unat (FRAMES_COUNT h) div 4" by (simp add: n_def unat_div)
  then have "unat n \<le> 262143" using div_le_mono [OF frames_bound [of h], of 4] by simp
  then have "unat (n + 0xFFF) \<le> 266238" by (simp add: u32_add_nowrap)
  then have d: "unat (drop_bit 12 (n + 0xFFF)) \<le> 64"
    unfolding drop12_nat using div_le_mono [of "unat (n + 0xFFF)" 266238 4096] by simp
  then have "unat (push_bit 12 (drop_bit 12 (n + 0xFFF))) = unat (drop_bit 12 (n + 0xFFF)) * 4096"
    by (intro push12_nat) simp
  with d show "unat (bitmap_bytes h) \<le> 0x40000" unfolding bitmap_bytes_def align_4096 n_def [symmetric] by simp
qed

lemma stack_bytes_bound: "unat (stack_bytes h) \<le> 0x400000"
  using frames_bound [of h] by (simp add: stack_bytes_def u32_add_nowrap u32_mult_nowrap)

lemma clear_bitmap:
  assumes "boot_ok ke m" "unat B \<le> 0x40000"
  shows "boot_ok ke (clearSpace (ke + 0x401000) B m)"
    "n < 1048576 \<Longrightarrow> walk ke (clearSpace (ke + 0x401000) B m) n = walk ke m n"
    "same_from ke (0x401000 + unat B) m (clearSpace (ke + 0x401000) B m)"
proof -
  have byte: "clearSpace (ke + 0x401000) B m x = (if unat (x - (ke + 0x401000)) < unat B then 0 else m x)" for x
    unfolding clearSpace_def by (rule fill_bytes_value) simp
  have off: "unat (x - ke) = unat (x - (ke + 0x401000)) + 0x401000"
    if "unat (x - (ke + 0x401000)) < unat B" for x
  proof -
    define y where "y = x - (ke + 0x401000)"
    have "unat y < unat B" using that by (simp only: y_def)
    then have "unat (y + 0x401000) = unat y + 0x401000" using assms(2) by (simp add: u32_add_nowrap)
    moreover have "x - ke = y + 0x401000" by (simp add: y_def)
    ultimately show ?thesis by (simp only: y_def)
  qed
  have same: "clearSpace (ke + 0x401000) B m x = m x" if "unat (x - ke) < 0x401000" for x
    using off [of x] that by (auto simp: byte)
  show "boot_ok ke (clearSpace (ke + 0x401000) B m)" by (rule boot_ok_cong(1) [OF same assms(1)])
  show "walk ke (clearSpace (ke + 0x401000) B m) n = walk ke m n" if "n < 1048576"
    by (rule boot_ok_cong(2) [OF same assms(1) that])
  show "same_from ke (0x401000 + unat B) m (clearSpace (ke + 0x401000) B m)"
    using off by (fastforce simp: same_from_def byte)
qed

lemma boot_paging_blocks:
  assumes ready: "boot_ready h mbi ks ke es m" and high: "get_highest_adrress uninit m mbi = Inr h"
  shows "\<exists>b. boot_paging uninit mbi ks ke m = Inr b \<and> boot_dir b = ke \<and>
    mem_bitmap_ptr b = KERNEL_STRUCTURES_SPACE + 0x401000 \<and>
    mem_stack_ptr b = KERNEL_STRUCTURES_SPACE + 0x401000 + bitmap_bytes h \<and>
    kAllocSpace b = ke + 0x401000 + bitmap_bytes h + ALIGN_TO (stack_bytes h) 0x1000 \<and>
    boot_ok ke (phys b) \<and> (\<forall>n < 1048576. walk ke (phys b) n =
      look (boot_blocks h mbi ks ke (concat (map (reserved_block m) (rev es)))) n)"
proof -
  note R = ready [unfolded boot_ready_def]
  let ?K = KERNEL_STRUCTURES_SPACE and ?B = "bitmap_bytes h" and ?S = "stack_bytes h"
  have K: "unat ?K = 0xF8000000" by (simp add: KERNEL_STRUCTURES_SPACE_def)
  have ke: "va_ok ke" "unat ke \<le> 0x18000000" and ks: "ks \<le> ke" "unat ks \<le> 0x18000000"
    using R by (auto simp: word_le_nat_alt)
  note B = bitmap_bytes_bound [of h] and S = stack_bytes_bound [of h]
  define m1 where "m1 = clear_tables ke (ke + 0x1000) m"
  note C = clear_tables_ok [OF ke(1), where m = m, folded m1_def]
  obtain m2 where m2: "map_range ke KERNEL_BOOT_VMA ke 0 m1 = Inr m2"
    "maps ke m1 m2 [(page_no KERNEL_BOOT_VMA, drop_bit 12 KERNEL_BOOT_VMA, page_steps KERNEL_BOOT_VMA ke)]"
    using map_range_maps [OF C(1), of ke KERNEL_BOOT_VMA 0] ke(2) by (auto simp: KERNEL_BOOT_VMA_def)
  obtain m3 where m3: "map_range ke ks ke KERNEL_HIGH_VMA m2 = Inr m3"
    "maps ke m2 m3 [(page_no (ks + KERNEL_HIGH_VMA), drop_bit 12 ks, page_steps ks ke)]"
    using map_range_maps [OF maps_ok [OF m2(2)], of ke ks KERNEL_HIGH_VMA] ke(2) ks(2)
    by (auto simp: KERNEL_HIGH_VMA_def)
  define m4 where "m4 = map_at ke ke ?K 0 0 m3"
  have m4: "maps ke m3 m4 [(page_no ?K, drop_bit 12 ke, 1)]"
    unfolding m4_def by (rule map_at_maps [OF maps_ok [OF m3(2)]])
  define m5 where "m5 = map_block ke (ke + 0x1000) (?K + 0x1000) 1024 m4"
  have m5: "maps ke m4 m5 [(page_no (?K + 0x1000), drop_bit 12 (ke + 0x1000), 1024)]"
    using map_block_maps [OF maps_ok [OF m4], of "ke + 0x1000" 1024 "?K + 0x1000"] ke(2) K
    by (simp add: m5_def u32_add_nowrap)
  define m6 where "m6 = clearSpace (ke + 0x401000) ?B m5"
  note C6 = clear_bitmap [OF maps_ok [OF m5] B(2), folded m6_def]
  have whole: "unat (drop_bit 12 ?B) = unat ?B div 4096" "unat (drop_bit 12 ?S) = unat ?S div 4096"
    by (rule drop12_nat)+
  have le: "4096 * (unat ?B div 4096) \<le> unat ?B" "4096 * (unat ?S div 4096) \<le> unat ?S"
    by (rule times_div_less_eq_dividend)+
  define m7 where "m7 = map_block ke (ke + 0x401000) (?K + 0x401000) (drop_bit 12 ?B) m6"
  have m7: "maps ke m6 m7 [(page_no (?K + 0x401000), drop_bit 12 (ke + 0x401000), unat ?B div 4096)]"
    using map_block_maps [OF C6(1), of "ke + 0x401000" "drop_bit 12 ?B" "?K + 0x401000"] ke(2) K B(2) le(1)
    by (simp add: m7_def u32_add_nowrap whole)
  define m8 where "m8 = map_block ke (ke + 0x401000 + ?B) (?K + 0x401000 + ?B) (drop_bit 12 ?S) m7"
  have m8: "maps ke m7 m8 [(page_no (?K + 0x401000 + ?B), drop_bit 12 (ke + 0x401000 + ?B), unat ?S div 4096)]"
    using map_block_maps [OF maps_ok [OF m7], of "ke + 0x401000 + ?B" "drop_bit 12 ?S" "?K + 0x401000 + ?B"]
      ke(2) K B(2) S le(2) by (simp add: m8_def u32_add_nowrap whole)
  define m9 where "m9 = map_at ke mbi mbi 0 0 m8"
  have m9: "maps ke m8 m9 [(page_no mbi, drop_bit 12 mbi, 1)]"
    unfolding m9_def by (rule map_at_maps [OF maps_ok [OF m8]])
  note from_clear = maps_trans [OF maps_trans [OF maps_trans [OF m7 m8] m9]]
  note to_clear = maps_trans [OF maps_trans [OF maps_trans [OF m2(2) m3(2)] m4] m5]
  have s: "same_from ke (0x401000 + unat ?B) m m9"
  proof -
    have "same_from ke 0x401000 m m5" using same_from_trans [OF C(2)] to_clear by (simp add: maps_def)
    moreover have "same_from ke 0x401000 m6 m9" using maps_trans [OF maps_trans [OF m7 m8] m9] by (simp add: maps_def)
    ultimately show ?thesis using C6(3) by (meson same_from_trans same_from_mono le_add1)
  qed
  have entries: "entry_from ke (0x401000 + unat ?B) e" "reserved_ok m e" if "e \<in> set es" for e
    using R that by auto
  have mbi: "mbi_from ke (0x401000 + unat ?B) mbi" using R by simp
  have "\<forall>e \<in> set es. entry_from ke 0x401000 e \<and> reserved_ok m9 e"
    using entries entry_from_mono [OF entries(1) le_add1] reserved_kept(2) [OF s] by auto
  moreover have "mmap_chain m9 (mbi_mmap_address m9 mbi) (mmap_stop m9 mbi) es"
    using R mbi_from_fields [OF s mbi] entry_from_fields(1) [OF s] entries(1)
      mmap_chain_cong [of es m9 m] by simp
  ultimately obtain m10 where m10:
    "mmap_loop (\<lambda>m. m) mbi (map_reserved ke) (mbi_mmap_address m9 mbi) m9 = Some (Inr m10)"
    "maps ke m9 m10 (concat (map (reserved_block m9) (rev es)))"
    using map_reserved_loop [OF maps_ok [OF m9], where es = es and mbi = mbi] mbi_from_mono [OF mbi, of "0x401000"] by auto
  have rs: "map (reserved_block m9) (rev es) = map (reserved_block m) (rev es)"
    using reserved_kept(1) [OF s] entries(1) by simp
  let ?b = "\<lparr>boot_dir = ke, mem_bitmap_ptr = ?K + 0x401000, mem_stack_ptr = ?K + 0x401000 + ?B,
    kAllocSpace = ke + 0x401000 + ?B + ALIGN_TO ?S 0x1000, phys = m10\<rparr>"
  have sizes: "ALIGN_TO 0x1000 0x1000 = 0x1000" "ALIGN_TO 0x400000 0x1000 = 0x400000"
    "PAGE_DIRECTORY_SIZE = 0x1000" "PAGE_TABLES_SPACE_SIZE = 0x400000" "a + 0x1000 + 0x400000 = a + 0x401000"
    for a :: u32
    by (simp_all add: ALIGN_TO_def PAGE_DIRECTORY_SIZE_def PAGE_TABLES_SPACE_SIZE_def)
  have "boot_paging uninit mbi ks ke m = Inr ?b"
    unfolding boot_paging_def Let_def ke_alloc_def prod.case sizes stack_bytes_def [symmetric] bitmap_bytes_def [symmetric]
    by (simp only: high res_bind_simps m1_def [symmetric] m2(1) m3(1) m4_def [symmetric] m5_def [symmetric]
        m6_def [symmetric] m7_def [symmetric] m8_def [symmetric] m9_def [symmetric] m10(1) loop_res_simps
        sizes stack_bytes_def [symmetric] bitmap_bytes_def [symmetric])
  moreover have "walk ke m10 n = look (boot_blocks h mbi ks ke (concat (map (reserved_block m) (rev es)))) n"
    if n: "n < 1048576" for n
  proof -
    have "walk ke m5 n = look [(page_no (?K + 0x1000), drop_bit 12 (ke + 0x1000), 1024), (page_no ?K, drop_bit 12 ke, 1),
        (page_no (ks + KERNEL_HIGH_VMA), drop_bit 12 ks, page_steps ks ke),
        (page_no KERNEL_BOOT_VMA, drop_bit 12 KERNEL_BOOT_VMA, page_steps KERNEL_BOOT_VMA ke)] n"
      using to_clear C(3) n by (simp add: maps_def split: option.splits)
    moreover have "walk ke m6 n = walk ke m5 n" by (rule C6(2) [OF n])
    ultimately show ?thesis
      using from_clear [OF m10(2)] n unfolding maps_def rs boot_blocks_def Let_def
      by (simp only: look_append) (simp add: look_append split: option.splits)
  qed
  ultimately show ?thesis using maps_ok [OF m10(2)] by (intro exI [of _ ?b]) simp
qed

section \<open>Translations after the boot\<close>

text \<open>Everything the loader leaves below the kernel's high half.\<close>

definition boot_low :: "u32 \<Rightarrow> u32 list \<Rightarrow> mem \<Rightarrow> bool" where
  "boot_low mbi es m \<longleftrightarrow> mbi < KERNEL_HIGH_VMA \<and>
     (\<forall>e \<in> set es. low_reserved m e \<longrightarrow> unat (mmap_baselow m e) + unat (mmap_lenlow m e) \<le> 0xDFFFF000)"

lemma look_above: "(\<And>a f k. (a, f, k) \<in> set bs \<Longrightarrow> a + k \<le> n) \<Longrightarrow> look bs n = None"
  by (induction bs n rule: look.induct) fastforce+

lemma reserved_below:
  assumes "boot_low mbi es m" "0xE0000 \<le> n"
  shows "look (concat (map (reserved_block m) (rev es))) n = None"
proof (rule look_above)
  fix a f k assume "(a, f, k) \<in> set (concat (map (reserved_block m) (rev es)))"
  then obtain e where e: "e \<in> set es" "low_reserved m e" "a = page_no (mmap_baselow m e)"
    "k = page_steps 0 (mmap_lenlow m e)" by (auto simp: reserved_block_def split: if_splits)
  then have "unat (mmap_baselow m e) + unat (mmap_lenlow m e) \<le> 0xDFFFF000"
    using assms(1) by (simp add: boot_low_def)
  then show "a + k \<le> n" using assms(2) by (simp add: e(3,4) page_no_def page_steps_def; presburger)
qed

lemma boot_pages:
  assumes "boot_ready h mbi ks ke es m"
  shows "page_no KERNEL_STRUCTURES_SPACE = 0xF8000" "page_no (KERNEL_STRUCTURES_SPACE + 0x1000) = 0xF8001"
    "page_no (KERNEL_STRUCTURES_SPACE + 0x401000) = 0xF8401"
    "page_no (KERNEL_STRUCTURES_SPACE + 0x401000 + bitmap_bytes h) = 0xF8401 + unat (bitmap_bytes h) div 4096"
    "page_no (ks + KERNEL_HIGH_VMA) = 0xE0000 + page_no ks"
    "page_no ks + page_steps ks ke \<le> 0x18000" "page_no KERNEL_BOOT_VMA + page_steps KERNEL_BOOT_VMA ke \<le> 0x18000"
    "drop_bit 12 (ke + 0x1000) = drop_bit 12 ke + (1 :: u32)"
proof -
  have ke: "unat ke mod 4096 = 0" "unat ke \<le> 0x18000000" "unat ks \<le> unat ke" "0x100000 \<le> unat ks"
    using assms by (auto simp: boot_ready_def va_ok_def page_aligned_nat word_le_nat_alt KERNEL_BOOT_VMA_def)
  show "page_no KERNEL_STRUCTURES_SPACE = 0xF8000" "page_no (KERNEL_STRUCTURES_SPACE + 0x1000) = 0xF8001"
    "page_no (KERNEL_STRUCTURES_SPACE + 0x401000) = 0xF8401"
    by (simp_all add: page_no_def KERNEL_STRUCTURES_SPACE_def)
  have "unat (KERNEL_STRUCTURES_SPACE + 0x401000 + bitmap_bytes h) = 0xF8401000 + unat (bitmap_bytes h)"
    using bitmap_bytes_bound(2) [of h] by (simp add: u32_add_nowrap KERNEL_STRUCTURES_SPACE_def)
  then show "page_no (KERNEL_STRUCTURES_SPACE + 0x401000 + bitmap_bytes h) = 0xF8401 + unat (bitmap_bytes h) div 4096"
    by (simp add: page_no_def)
  have "unat (ks + KERNEL_HIGH_VMA) = unat ks + 0xE0000000"
    using ke by (simp add: u32_add_nowrap KERNEL_HIGH_VMA_def)
  then show "page_no (ks + KERNEL_HIGH_VMA) = 0xE0000 + page_no ks" by (simp add: page_no_def)
  show "page_no ks + page_steps ks ke \<le> 0x18000" using ke by (simp add: page_no_def page_steps_def; presburger)
  show "page_no KERNEL_BOOT_VMA + page_steps KERNEL_BOOT_VMA ke \<le> 0x18000"
    using ke by (simp add: page_no_def page_steps_def KERNEL_BOOT_VMA_def; presburger)
  show "drop_bit 12 (ke + 0x1000) = drop_bit 12 ke + (1 :: u32)"
    using frame_plus [of ke 1] ke(2) by simp
qed

lemma boot_look:
  assumes ready: "boot_ready h mbi ks ke es m" and low: "boot_low mbi es m"
  defines "bs \<equiv> boot_blocks h mbi ks ke (concat (map (reserved_block m) (rev es)))"
  shows "i < page_steps ks ke \<Longrightarrow> look bs (page_no (ks + KERNEL_HIGH_VMA) + i) = Some (drop_bit 12 ks + word_of_nat i)"
    and "i \<le> 1024 \<Longrightarrow> look bs (0xF8000 + i) = Some (drop_bit 12 ke + word_of_nat i)"
    and "i < unat (bitmap_bytes h) div 4096 \<Longrightarrow>
      look bs (0xF8401 + i) = Some (drop_bit 12 (ke + 0x401000) + word_of_nat i)"
    and "i < unat (stack_bytes h) div 4096 \<Longrightarrow> look bs (0xF8401 + unat (bitmap_bytes h) div 4096 + i) =
      Some (drop_bit 12 (ke + 0x401000 + bitmap_bytes h) + word_of_nat i)"
    and "look bs (0xF8401 + unat (bitmap_bytes h) div 4096 + unat (stack_bytes h) div 4096) = None"
proof -
  note P = boot_pages [OF ready] and R = reserved_below [OF low]
  have mbi: "page_no mbi < 0xE0000"
    using low by (simp add: boot_low_def page_no_def word_less_nat_alt KERNEL_HIGH_VMA_def less_mult_imp_div_less)
  have look: "look bs n = look [(0xF8401 + unat (bitmap_bytes h) div 4096, drop_bit 12 (ke + 0x401000 + bitmap_bytes h),
        unat (stack_bytes h) div 4096),
      (0xF8401, drop_bit 12 (ke + 0x401000), unat (bitmap_bytes h) div 4096),
      (0xF8001, drop_bit 12 ke + 1, 1024), (0xF8000, drop_bit 12 ke, 1),
      (0xE0000 + page_no ks, drop_bit 12 ks, page_steps ks ke),
      (page_no KERNEL_BOOT_VMA, drop_bit 12 KERNEL_BOOT_VMA, page_steps KERNEL_BOOT_VMA ke)] n"
    if "0xE0000 \<le> n" for n
    using R [OF that] mbi that by (simp add: bs_def boot_blocks_def Let_def look_append P)
  show "look bs (page_no (ks + KERNEL_HIGH_VMA) + i) = Some (drop_bit 12 ks + word_of_nat i)" if "i < page_steps ks ke"
    using that P(6) by (subst look) (auto simp: P(5))
  show "look bs (0xF8000 + i) = Some (drop_bit 12 ke + word_of_nat i)" if "i \<le> 1024"
  proof (cases i)
    case 0
    then show ?thesis by (simp add: look)
  next
    case (Suc j)
    then show ?thesis using that by (simp add: look)
  qed
  show "look bs (0xF8401 + i) = Some (drop_bit 12 (ke + 0x401000) + word_of_nat i)"
    if "i < unat (bitmap_bytes h) div 4096"
    using that by (subst look) auto
  show "look bs (0xF8401 + unat (bitmap_bytes h) div 4096 + i) =
      Some (drop_bit 12 (ke + 0x401000 + bitmap_bytes h) + word_of_nat i)"
    if "i < unat (stack_bytes h) div 4096"
    using that by (subst look) auto
  show "look bs (0xF8401 + unat (bitmap_bytes h) div 4096 + unat (stack_bytes h) div 4096) = None"
    using P(6,7) by (subst look) auto
qed

text \<open>C39: When paging is turned on, the high half of the kernel, the window onto the directory
  and the 1024 tables, the bitmap and the whole pages of the stack translate to the frames
  the boot code laid out for them; the last, partly used page of the stack is not mapped.\<close>
theorem boot_paging_translates:
  assumes "boot_ready h mbi ks ke es m" and "boot_low mbi es m" and "get_highest_adrress uninit m mbi = Inr h"
  shows "\<exists>b. boot_paging uninit mbi ks ke m = Inr b \<and>
    (\<forall>i < page_steps ks ke. walk ke (phys b) (page_no (ks + KERNEL_HIGH_VMA) + i) = Some (drop_bit 12 ks + word_of_nat i)) \<and>
    (\<forall>i \<le> 1024. walk ke (phys b) (page_no KERNEL_STRUCTURES_SPACE + i) = Some (drop_bit 12 ke + word_of_nat i)) \<and>
    (\<forall>i < unat (bitmap_bytes h) div 4096. walk ke (phys b) (page_no (mem_bitmap_ptr b) + i) =
      Some (drop_bit 12 (ke + 0x401000) + word_of_nat i)) \<and>
    (\<forall>i < unat (stack_bytes h) div 4096. walk ke (phys b) (page_no (mem_stack_ptr b) + i) =
      Some (drop_bit 12 (ke + 0x401000 + bitmap_bytes h) + word_of_nat i)) \<and>
    walk ke (phys b) (page_no (mem_stack_ptr b) + unat (stack_bytes h) div 4096) = None"
proof -
  note P = boot_pages [OF assms(1)] and L = boot_look [OF assms(1,2)]
  have bounds: "page_no ks \<le> 0x18000" "unat (bitmap_bytes h) div 4096 \<le> 64" "unat (stack_bytes h) div 4096 \<le> 1024"
    using P(6) div_le_mono [OF bitmap_bytes_bound(2) [of h], of 4096] div_le_mono [OF stack_bytes_bound [of h], of 4096]
    by simp_all
  from boot_paging_blocks [OF assms(1,3)] obtain b where
    b: "boot_paging uninit mbi ks ke m = Inr b" "mem_bitmap_ptr b = KERNEL_STRUCTURES_SPACE + 0x401000"
      "mem_stack_ptr b = KERNEL_STRUCTURES_SPACE + 0x401000 + bitmap_bytes h"
    and w: "\<And>n. n < 1048576 \<Longrightarrow> walk ke (phys b) n =
      look (boot_blocks h mbi ks ke (concat (map (reserved_block m) (rev es)))) n" by blast
  have "walk ke (phys b) (page_no (ks + KERNEL_HIGH_VMA) + i) = Some (drop_bit 12 ks + word_of_nat i)"
    if "i < page_steps ks ke" for i using L(1) [OF that] P(5,6) that by (subst w) simp_all
  moreover have "walk ke (phys b) (page_no KERNEL_STRUCTURES_SPACE + i) = Some (drop_bit 12 ke + word_of_nat i)"
    if "i \<le> 1024" for i using L(2) [OF that] that by (subst w) (simp_all add: P(1))
  moreover have "walk ke (phys b) (page_no (mem_bitmap_ptr b) + i) = Some (drop_bit 12 (ke + 0x401000) + word_of_nat i)"
    if "i < unat (bitmap_bytes h) div 4096" for i
    using L(3) [OF that] bounds that by (subst w) (simp_all add: b(2) P(3))
  moreover have "walk ke (phys b) (page_no (mem_stack_ptr b) + i) =
      Some (drop_bit 12 (ke + 0x401000 + bitmap_bytes h) + word_of_nat i)"
    if "i < unat (stack_bytes h) div 4096" for i
    using L(4) [OF that] bounds that by (subst w) (simp_all add: b(3) P(4))
  moreover have "walk ke (phys b) (page_no (mem_stack_ptr b) + unat (stack_bytes h) div 4096) = None"
    using L(5) bounds by (subst w) (simp_all add: b(3) P(4))
  ultimately show ?thesis using b(1) by blast
qed

section \<open>The window\<close>

lemma low_bits_add:
  assumes "va_ok a"
  shows "(a + x) AND 0xFFF = x AND 0xFFF"
proof (rule u32_eqI)
  have "unat (a + x) mod 4096 = (unat a + unat x) mod 4096"
    by (simp add: unat_word_ariths mod_mod_cancel)
  also have "\<dots> = unat x mod 4096"
    using assms by (simp only: va_ok_def page_aligned_nat) (metis add_0 mod_add_left_eq)
  finally show "unat ((a + x) AND 0xFFF) = unat (x AND 0xFFF)" by (simp only: page_low_nat)
qed

lemma frame_and_offset: "push_bit 12 (drop_bit 12 y) OR (y AND 0xFFF) = (y :: u32)"
  unfolding page_low_bits by (rule bit_word_eqI) (auto simp: bit_simps)

text \<open>A byte of the window is the byte of the tables.\<close>

lemma paged_window:
  assumes "va_ok ke" "unat ke \<le> 0x18000000" "unat x < 0x401000"
    and w: "\<And>i. i \<le> 1024 \<Longrightarrow> walk ke m (0xF8000 + i) = Some (drop_bit 12 ke + word_of_nat i)"
  shows "paged ke m (directory + x) = m (ke + x)"
proof -
  have d: "va_ok directory" "unat directory = 0xF8000000"
    by (simp_all add: va_ok_def directory_def KERNEL_STRUCTURES_SPACE_def)
  define i where "i = unat x div 4096"
  have i: "i \<le> 1024" using assms(3) by (simp add: i_def)
  have "unat (directory + x) = 0xF8000000 + unat x" using assms(3) d(2) by (simp add: u32_add_nowrap)
  then have "page_no (directory + x) = 0xF8000 + i" by (simp add: page_no_def i_def)
  moreover have "page_no (ke + x) = page_no ke + i"
  proof -
    have k: "unat ke = 4096 * page_no ke"
      using assms(1) mult_div_mod_eq [of 4096 "unat ke"] by (simp add: va_ok_def page_aligned_nat page_no_def)
    have "unat (ke + x) = unat ke + unat x" using assms(2,3) by (simp add: u32_add_nowrap)
    then have "page_no (ke + x) = (4096 * page_no ke + unat x) div 4096"
      unfolding page_no_def [of "ke + x"] using k by (simp only:)
    then show ?thesis by (simp add: i_def)
  qed
  moreover from this have "drop_bit 12 ke + word_of_nat i = (drop_bit 12 (ke + x) :: u32)"
    unfolding page_frame by simp
  moreover have "(directory + x) AND 0xFFF = (ke + x) AND 0xFFF"
    using low_bits_add [OF d(1), of x] low_bits_add [OF assms(1), of x] by simp
  ultimately show ?thesis using w [OF i] by (simp add: paged_def frame_and_offset)
qed

lemma paged_words:
  assumes "va_ok ke" "unat ke \<le> 0x18000000"
    and "\<And>i. i \<le> 1024 \<Longrightarrow> walk ke m (0xF8000 + i) = Some (drop_bit 12 ke + word_of_nat i)"
    and j: "j < 1049600"
  shows "load32 (paged ke m) (word_at directory j) = load32 m (word_at ke j)"
proof -
  have "paged ke m (word_at directory j + k) = m (word_at ke j + k)" if k: "k \<in> {0, 1, 2, 3}" for k
  proof -
    define x where "x = 4 * word_of_nat j + k"
    have at: "word_at D j + k = D + x" for D by (simp add: word_at_def x_def)
    have "word_at ke j + k - ke = x" unfolding at by simp
    then have "unat x = 4 * j + unat k" using word_bytes [OF j k, of ke] by (simp only:)
    moreover have "unat k \<le> 3" using k by auto
    ultimately have "unat x < 0x401000" using j by simp
    then show ?thesis unfolding at by (rule paged_window [OF assms(1,2) _ assms(3)])
  qed
  from this [of 0] this [of 1] this [of 2] this [of 3] show ?thesis by (simp add: load32_def)
qed

text \<open>C40: After the boot code, getPhysicalAddress, which reads the tables through their virtual
  window, gives for every page address the frame that the processor finds by walking the
  tables in physical memory, and the tables are consistent.\<close>
theorem boot_window_agrees:
  assumes "boot_ready h mbi ks ke es m" and "boot_low mbi es m" and "get_highest_adrress uninit m mbi = Inr h"
  shows "\<exists>b. boot_paging uninit mbi ks ke m = Inr b \<and> paging_wf (enablePaging b) \<and>
    (\<forall>v. va_ok v \<longrightarrow> getPhysicalAddress v (enablePaging b) =
      Inr (case walk (boot_dir b) (phys b) (page_no v) of None \<Rightarrow> 0 | Some frame \<Rightarrow> push_bit 12 frame))"
proof -
  have ke: "va_ok ke" "unat ke \<le> 0x18000000" using assms(1) by (auto simp: boot_ready_def word_le_nat_alt)
  from boot_paging_blocks [OF assms(1,3)] obtain b where
    b: "boot_paging uninit mbi ks ke m = Inr b" "boot_dir b = ke" "boot_ok ke (phys b)"
    and w: "\<And>n. n < 1048576 \<Longrightarrow> walk ke (phys b) n =
      look (boot_blocks h mbi ks ke (concat (map (reserved_block m) (rev es)))) n" by blast
  have "walk ke (phys b) (0xF8000 + i) = Some (drop_bit 12 ke + word_of_nat i)" if "i \<le> 1024" for i
    using boot_look(2) [OF assms(1,2) that] that by (subst w) simp_all
  note words = paged_words [OF ke this]
  let ?s = "enablePaging b"
  have ram: "ram ?s = paged ke (phys b)" by (simp add: enablePaging_def b(2))
  have dir: "dir_word (ram ?s) p = dir_entry ke (phys b) p" if "p < 1024" for p
    unfolding ram dir_word_def dir_entry_def using that by (intro words) simp_all
  have page: "page_word (ram ?s) n = page_entry ke (phys b) n" if "n < 1048576" for n
    unfolding ram page_word_def page_entry_def using that by (intro words) simp_all
  have div: "n div 1024 < 1024" if "n < 1048576" for n :: nat using that by (simp add: less_mult_imp_div_less)
  have "paging_wf ?s" using b(3) dir page div by (simp add: paging_wf_def boot_ok_def)
  moreover have "getPhysicalAddress v ?s =
      Inr (case walk (boot_dir b) (phys b) (page_no v) of None \<Rightarrow> 0 | Some frame \<Rightarrow> push_bit 12 frame)"
    if "va_ok v" for v
    unfolding getPhysicalAddress_word [OF that] b(2) walk_entries [OF b(3) page_no_less]
    by (simp add: dir page div page_no_less entry_address_def)
  ultimately show ?thesis using b(1) by blast
qed

section \<open>A concrete boot\<close>

text \<open>The memory map of \<open>demo_boot\<close>, and a kernel image of one page at one MiB.\<close>

lemma demo_boot_highest: "get_highest_adrress uninit (ram (demo_boot 0x8000)) 0x8000 = Inr 0x5000"
proof -
  have "mmap_chain (ram (demo_boot 0x8000)) (mbi_mmap_address (ram (demo_boot 0x8000)) 0x8000)
      (mmap_stop (ram (demo_boot 0x8000)) 0x8000) [0x9000]"
    by (simp add: demo_boot_fields mmap_next_def)
  from get_highest_adrress_last [OF this, of uninit] show ?thesis
    by (simp add: demo_boot_fields MULTIBOOT_MMAP_FREE_MEMORY_def)
qed

lemma demo_boot_layout:
  "boot_ready 0x5000 0x8000 0x100000 0x101000 [0x9000] (ram (demo_boot 0x8000))"
  "boot_low 0x8000 [0x9000] (ram (demo_boot 0x8000))"
proof -
  have r: "\<not> low_reserved (ram (demo_boot 0x8000)) 0x9000"
    by (simp add: low_reserved_def demo_boot_fields MULTIBOOT_MMAP_RESERVED_def)
  have "unat (bitmap_bytes 0x5000) \<le> 0x40000" by (rule bitmap_bytes_bound)
  then have "mbi_from 0x101000 (0x401000 + unat (bitmap_bytes 0x5000)) 0x8000"
    "entry_from 0x101000 (0x401000 + unat (bitmap_bytes 0x5000)) 0x9000"
    by (auto simp: mbi_from_def entry_from_def word_from_def)
  then show "boot_ready 0x5000 0x8000 0x100000 0x101000 [0x9000] (ram (demo_boot 0x8000))"
    using r by (simp add: boot_ready_def demo_boot_fields mmap_next_def va_ok_def KERNEL_BOOT_VMA_def
        reserved_ok_def)
  show "boot_low 0x8000 [0x9000] (ram (demo_boot 0x8000))"
    using r by (simp add: boot_low_def KERNEL_HIGH_VMA_def)
qed

theorem boot_paging_translates_witness:
  "\<exists>b. boot_paging 0 0x8000 0x100000 0x101000 (ram (demo_boot 0x8000)) = Inr b \<and>
    walk 0x101000 (phys b) (page_no KERNEL_STRUCTURES_SPACE + 1) = Some (0x102 :: u32)"
proof -
  from boot_paging_translates [OF demo_boot_layout demo_boot_highest, of 0] obtain b where
    b: "boot_paging 0 0x8000 0x100000 0x101000 (ram (demo_boot 0x8000)) = Inr b"
    "\<forall>i \<le> 1024. walk 0x101000 (phys b) (page_no KERNEL_STRUCTURES_SPACE + i) = Some (drop_bit 12 0x101000 + word_of_nat i)"
    by blast
  from b(2) have "walk 0x101000 (phys b) (page_no KERNEL_STRUCTURES_SPACE + 1) = Some (drop_bit 12 0x101000 + word_of_nat 1)"
    by (elim allE [of _ 1]) simp
  then show ?thesis using b(1) by simp
qed

theorem boot_window_agrees_witness:
  "\<exists>b. boot_paging 0 0x8000 0x100000 0x101000 (ram (demo_boot 0x8000)) = Inr b \<and> paging_wf (enablePaging b)"
  using boot_window_agrees [OF demo_boot_layout demo_boot_highest, of 0] by blast

end
