(* ===== verification/Serial_Log.thy ===== *)
theory Serial_Log
  imports Console_Theorems
begin

text \<open>
  The messages the start-up code prints to the serial port: when the transmitter keeps getting
  ready, \<^verbatim>\<open>print\<close> returns, and writes nothing but the port and its number buffer.
\<close>

section \<open>What a message changes\<close>

definition logged :: "u32 \<Rightarrow> console \<Rightarrow> console \<Rightarrow> bool" where
  "logged frame c c' \<longleftrightarrow> (\<exists>m io' s. c' = c\<lparr>sys := (sys c)\<lparr>ram := m\<rparr>, io := io'\<rparr> \<and>
     dev io' = dev (io c) \<and> intr_flag io' = intr_flag (io c) \<and> outs io' = outs (io c) @ map (Pair PORT) s \<and>
     (\<forall>z. 32 \<le> unat (z - frame) \<longrightarrow> m z = ram (sys c) z))"

lemma logged_refl [simp]: "logged frame c c"
proof -
  have "c = c\<lparr>sys := (sys c)\<lparr>ram := ram (sys c)\<rparr>, io := io c\<rparr>" by simp
  moreover have "outs (io c) = outs (io c) @ map (Pair PORT) []" by simp
  ultimately show ?thesis unfolding logged_def by blast
qed

lemma logged_trans [trans]:
  assumes "logged frame c d" "logged frame d e"
  shows "logged frame c e"
proof -
  from assms(1) obtain m io' s where d: "d = c\<lparr>sys := (sys c)\<lparr>ram := m\<rparr>, io := io'\<rparr>" "dev io' = dev (io c)"
    "intr_flag io' = intr_flag (io c)" "outs io' = outs (io c) @ map (Pair PORT) s"
    "\<forall>z. 32 \<le> unat (z - frame) \<longrightarrow> m z = ram (sys c) z" by (auto simp: logged_def)
  from assms(2) obtain m2 io2 s2 where e: "e = d\<lparr>sys := (sys d)\<lparr>ram := m2\<rparr>, io := io2\<rparr>" "dev io2 = dev (io d)"
    "intr_flag io2 = intr_flag (io d)" "outs io2 = outs (io d) @ map (Pair PORT) s2"
    "\<forall>z. 32 \<le> unat (z - frame) \<longrightarrow> m2 z = ram (sys d) z" by (auto simp: logged_def)
  have "e = c\<lparr>sys := (sys c)\<lparr>ram := m2\<rparr>, io := io2\<rparr>" using d(1) e(1) by simp
  moreover have "outs io2 = outs (io c) @ map (Pair PORT) (s @ s2)" using d(1,4) e(4) by simp
  ultimately show ?thesis
    unfolding logged_def using d e
    by (intro exI [of _ m2] exI [of _ io2] exI [of _ "s @ s2"]) simp
qed

lemma loggedD:
  assumes "logged frame c c'"
  shows "dev (io c') = dev (io c)" "intr_flag (io c') = intr_flag (io c)" "serial_initalized c' = serial_initalized c"
    "transmits (io c') = transmits (io c)" "32 \<le> unat (z - frame) \<Longrightarrow> ram (sys c') z = ram (sys c) z"
    "sys c' = (sys c)\<lparr>ram := ram (sys c')\<rparr>" "video c' = video c" "terminal_color c' = terminal_color c"
  using assms by (auto simp: logged_def transmits_def)

section \<open>Characters and strings\<close>

lemma wait_transmit_flag:
  assumes "wait_transmit m = Some m'"
  shows "intr_flag m' = intr_flag m"
proof (rule wait_transmit.raw_induct [where P = "\<lambda>m m'. intr_flag m' = intr_flag m", rotated, OF assms])
  fix loop m r
  assume "\<And>m m'. loop m = Some m' \<Longrightarrow> intr_flag m' = intr_flag m"
    and "(let (v, m) = is_transmit_empty m in if v = 0 then loop m else Some m) = Some r"
  then show "intr_flag r = intr_flag m"
    by (fastforce simp: is_transmit_empty_def in_port_def split_beta split: if_splits)
qed

lemma serial_putc_logged:
  assumes "transmits (io c)" and "serial_initalized c \<noteq> 0"
  shows "\<exists>c'. serial_putc ch c = Some c' \<and> logged frame c c'"
proof -
  from serial_putc_sends [OF assms] obtain m where
    m: "serial_putc ch c = Some (c\<lparr>io := m\<rparr>)" "outs m = outs (io c) @ [(PORT, ch)]" "dev m = dev (io c)" by blast
  moreover have "intr_flag m = intr_flag (io c)"
    using m(1) assms(2) wait_transmit_flag
    by (auto simp: serial_putc_def con_out_def out_def dest!: arg_cong [where f = io] split: option.splits)
  moreover have "c\<lparr>io := m\<rparr> = c\<lparr>sys := (sys c)\<lparr>ram := ram (sys c)\<rparr>, io := m\<rparr>" by simp
  moreover have "outs m = outs (io c) @ map (Pair PORT) [ch]" using m(2) by simp
  ultimately show ?thesis unfolding logged_def by metis
qed

lemma serial_puts_logged:
  assumes "transmits (io c)" and "serial_initalized c \<noteq> 0"
  shows "\<exists>c'. serial_puts s c = Some c' \<and> logged frame c c'"
  using assms
proof (induction s arbitrary: c)
  case (Cons ch s)
  obtain d where d: "serial_putc ch c = Some d" "logged frame c d" using serial_putc_logged [OF Cons.prems] by blast
  have "transmits (io d)" "serial_initalized d \<noteq> 0" using loggedD [OF d(2)] Cons.prems by simp_all
  from Cons.IH [OF this] d show ?case using logged_trans by auto
qed simp

lemma serial_string_logged:
  assumes "cstr (ram (sys c)) (p + i) s" "transmits (io c)" "serial_initalized c \<noteq> 0"
  shows "\<exists>c'. serial_string_loop p i c = Some c' \<and> logged frame c c' \<and> ram (sys c') = ram (sys c)"
  using assms
proof (induction s arbitrary: i c)
  case Nil
  then show ?case by (subst serial_string_loop.simps) simp
next
  case (Cons ch s)
  obtain d where d: "serial_putc ch c = Some d" "logged frame c d" using serial_putc_logged [OF Cons.prems(2,3)] by blast
  have ram: "ram (sys d) = ram (sys c)"
    using d(1) serial_putc_sends [OF Cons.prems(2,3), of ch] by auto
  have "cstr (ram (sys d)) (p + (i + 1)) s" using Cons.prems(1) ram by (simp add: add.assoc)
  from Cons.IH [OF this] obtain e where "serial_string_loop p (i + 1) d = Some e" "logged frame d e" "ram (sys e) = ram (sys d)"
    using loggedD [OF d(2)] Cons.prems(2,3) by auto
  then show ?case using Cons.prems(1) d ram logged_trans by (subst serial_string_loop.simps) auto
qed

lemma serial_number_logged:
  assumes "transmits (io c)" "serial_initalized c \<noteq> 0" "frame \<noteq> 0" "base = 10 \<or> base = 16"
  shows "\<exists>c'. serial_writebase frame d base c = Inr c' \<and> logged frame c c'"
proof -
  obtain x m s where m: "itoa d frame base (ram (sys c)) = Some (x, m)" "cstr m x s" "unat (x - frame) + length s < 32"
    "\<forall>z. 32 \<le> unat (z - frame) \<longrightarrow> m z = ram (sys c) z"
    using assms(4)
  proof
    assume "base = 10"
    then show thesis using itoa_decimal [OF assms(3), of d "ram (sys c)"] that by metis
  next
    assume "base = 16"
    then show thesis using itoa_hex [OF assms(3), of d "ram (sys c)"] that [of frame _ "hex_of d"] by auto
  qed
  let ?c = "c\<lparr>sys := (sys c)\<lparr>ram := m\<rparr>\<rparr>"
  have "unat (word_of_nat (length s) :: u32) = length s" using m(3) by (intro u32_of_nat) simp
  then have f: "format_number ''src/drivers/serial.c'' 59 frame d base c = Inr (x, ?c)"
    using m(1-3) by (simp add: format_number_def strlen_def strlen_loop_cstr)
  have c: "logged frame c ?c"
    unfolding logged_def by (intro exI [of _ m] exI [of _ "io c"] exI [of _ "[]"]) (simp add: m(4))
  obtain e where e: "serial_string_loop x 0 ?c = Some e" "logged frame ?c e"
    using serial_string_logged [of ?c x 0 s frame] m(2) assms(1,2) by auto
  have "serial_writestring x ?c = Some (if x = 0 then ?c else e)" using e(1) by (simp add: serial_writestring_def)
  moreover have "\<not> (base < 2 \<or> base > 16)" using assms(4) by auto
  ultimately show ?thesis using f c logged_trans [OF c e(2)] by (auto simp: serial_writebase_def)
qed

section \<open>Messages\<close>

text \<open>Format strings with the directives \<open>d\<close>, \<open>u\<close> and \<open>p\<close> and enough arguments.\<close>

fun log_format :: "u8 list \<Rightarrow> u32 list \<Rightarrow> bool" where
  "log_format [] va = True"
| "log_format (x # s) va =
     (if x = 37 then (case s of [] \<Rightarrow> False | d # s' \<Rightarrow> d \<in> {100, 112, 117} \<and> va \<noteq> [] \<and> log_format s' (List.tl va))
      else log_format s va)"

definition outside :: "u32 \<Rightarrow> u32 \<Rightarrow> nat \<Rightarrow> bool" where
  "outside frame f n \<longleftrightarrow> (\<forall>k \<le> n. 32 \<le> unat (f + word_of_nat k - frame))"

lemma outside_Suc: "outside frame f (Suc n) \<Longrightarrow> outside frame (f + 1) n"
  unfolding outside_def
proof (intro allI impI)
  fix k assume "\<forall>k \<le> Suc n. 32 \<le> unat (f + word_of_nat k - frame)" "k \<le> n"
  then have "32 \<le> unat (f + word_of_nat (Suc k) - frame)" by blast
  then show "32 \<le> unat (f + 1 + word_of_nat k - frame)" by (simp add: add.assoc)
qed

lemma cstr_logged:
  assumes "cstr (ram (sys c)) f s" "logged frame c c'" "outside frame f (length s)"
  shows "cstr (ram (sys c')) f s"
  using assms(1)
proof (rule cstr_cong)
  show "ram (sys c') (f + word_of_nat k) = ram (sys c) (f + word_of_nat k)" if "k \<le> length s" for k
    using loggedD(5) [OF assms(2)] assms(3) that by (simp add: outside_def)
qed

lemma directive_logged:
  assumes "transmits (io c)" "serial_initalized c \<noteq> 0" "frame \<noteq> 0" "d \<in> {100, 112, 117}"
  shows "\<exists>c'. print_directive frame SERIAL d (x # va) c = Inr (va, c') \<and> logged frame c c'"
proof (cases "d = 112")
  case True
  obtain e where e: "serial_puts [48, 120] c = Some e" "logged frame c e" using serial_puts_logged [OF assms(1,2)] by blast
  have "transmits (io e)" "serial_initalized e \<noteq> 0" using loggedD [OF e(2)] assms(1,2) by simp_all
  from serial_number_logged [OF this assms(3), of 16 x] obtain c' where
    c': "serial_writebase frame x 16 e = Inr c'" "logged frame e c'" by auto
  then show ?thesis
    using True e logged_trans [OF e(2) c'(2)]
    by (simp add: print_directive_def put_literal_def put_number_def)
next
  case False
  from serial_number_logged [OF assms(1-3), of 10 x] obtain c' where
    "serial_writebase frame x 10 c = Inr c'" "logged frame c c'" by auto
  then show ?thesis using False assms(4) by (auto simp: print_directive_def put_number_def)
qed

lemma print_loop_logged:
  assumes "log_format s va" "cstr (ram (sys c)) (f + i) s" "outside frame (f + i) (length s)"
    and "transmits (io c)" "serial_initalized c \<noteq> 0" "frame \<noteq> 0"
  shows "\<exists>c'. print_loop frame SERIAL f va i c = Some (Inr (i + word_of_nat (length s), c')) \<and> logged frame c c'"
  using assms(1-5)
proof (induction s va arbitrary: i c rule: log_format.induct)
  case (1 va)
  then show ?case by (subst print_loop.simps) simp
next
  case (2 x s va)
  have next_i: "f + i + 1 = f + (i + 1)" for i by (simp add: add.assoc)
  show ?case
  proof (cases "x = 37")
    case True
    then obtain d s' y ys where s: "s = d # s'" "d \<in> {100, 112, 117}" "va = y # ys" "log_format s' ys"
      using 2(3) by (auto split: list.splits simp: neq_Nil_conv)
    obtain c1 where c1: "print_directive frame SERIAL d (y # ys) c = Inr (ys, c1)" "logged frame c c1"
      using directive_logged [OF 2(6,7) assms(6) s(2)] by blast
    have "outside frame (f + (i + 1 + 1)) (length s')"
      using outside_Suc [OF outside_Suc [of frame "f + i" "Suc (length s')"]] 2(5) s(1) by (simp add: add.assoc)
    moreover from this have "cstr (ram (sys c1)) (f + (i + 1 + 1)) s'"
      using cstr_logged [OF _ c1(2)] 2(4) s(1) True by (simp add: add.assoc)
    moreover have "transmits (io c1)" "serial_initalized c1 \<noteq> 0" using loggedD [OF c1(2)] 2(6,7) by simp_all
    ultimately obtain c' where c': "print_loop frame SERIAL f ys (i + 1 + 1) c1
        = Some (Inr (i + 1 + 1 + word_of_nat (length s'), c'))" "logged frame c1 c'"
      using 2(1) [OF True s(1), of c1 "i + 1 + 1"] s by auto
    have "ram (sys c) (f + i) = 37" "ram (sys c) (f + (i + 1)) = d" using 2(4) s(1) True by (simp_all add: add.assoc)
    then show ?thesis
      using c1 c' s(1,3) logged_trans [OF c1(2) c'(2)] by (subst print_loop.simps) (simp add: add.assoc)
  next
    case False
    obtain c1 where c1: "serial_putc x c = Some c1" "logged frame c c1" using serial_putc_logged [OF 2(6,7)] by blast
    have "outside frame (f + (i + 1)) (length s)" using 2(5) by (auto simp flip: next_i intro: outside_Suc)
    moreover from this have "cstr (ram (sys c1)) (f + (i + 1)) s"
      using cstr_logged [OF _ c1(2)] 2(4) by (simp add: add.assoc)
    moreover have "transmits (io c1)" "serial_initalized c1 \<noteq> 0" using loggedD [OF c1(2)] 2(6,7) by simp_all
    ultimately obtain c' where c': "print_loop frame SERIAL f va (i + 1) c1
        = Some (Inr (i + 1 + word_of_nat (length s), c'))" "logged frame c1 c'"
      using 2(2) [OF False, of c1 "i + 1"] 2(3) False by auto
    then show ?thesis
      using 2(4) False c1 logged_trans [OF c1(2) c'(2)]
      by (subst print_loop.simps) (simp add: put_char_def add.assoc)
  qed
qed

lemma print_logged:
  assumes "log_format s va" "cstr (ram (sys c)) f s" "outside frame f (length s)" "f \<noteq> 0"
    and "transmits (io c)" "serial_initalized c \<noteq> 0" "frame \<noteq> 0"
  obtains c' where "print frame SERIAL f va c = Inr (word_of_nat (length s), c')" "logged frame c c'"
  using print_loop_logged [OF assms(1), of c f 0 frame] assms(2-) by (auto simp: print_def)

end
