(* ===== verification/Heap_Fresh.thy ===== *)
theory Heap_Fresh
  imports Heap_Theorems
begin

text \<open>
  Requests to a heap from which nothing has been freed yet, the situation of the start-up
  code: all free memory is the last block, so requests up to its size succeed, and each cuts
  its region off the front of it.
\<close>

section \<open>A heap without holes\<close>

text \<open>
  \<open>fresh_heap r s\<close>: at least \<open>r\<close> bytes can be cut off the last block. The block list must not start
  with an allocated block larger than what is free, because the search would stay on it; a page
  is left over for that and for the rest of the block.
\<close>

definition fresh_heap :: "nat \<Rightarrow> kmem \<Rightarrow> bool" where
  "fresh_heap r s \<longleftrightarrow> (\<exists>bs p sz. heap_inv (bs @ [(p, sz, True)]) s \<and> (\<forall>b \<in> set bs. \<not> blk_free b) \<and>
     (bs \<noteq> [] \<longrightarrow> unat (blk_size (hd bs)) \<le> 4096) \<and> r + 4096 \<le> unat sz)"

lemma fresh_heap_ok: "fresh_heap r s \<Longrightarrow> heap_ok s"
  by (auto simp: fresh_heap_def heap_ok_def)

lemma fresh_heap_mono: "fresh_heap r s \<Longrightarrow> r' \<le> r \<Longrightarrow> fresh_heap r' s"
  using order_trans [of "r' + 4096" "r + 4096"] unfolding fresh_heap_def by fastforce

lemma init_fresh: "fresh_heap 0x7FFEFD4 (init_heap_blocks s)"
  using init_heap_blocks_inv [of s] unfolding fresh_heap_def
  by (intro exI [of _ "[]"] exI [of _ FIRST] exI [of _ first_size]) simp

lemma init_live [simp]: "live (init_heap_blocks s) = {}"
  using live_eq [OF init_heap_blocks_inv [of s]] by simp

lemma worst_pick_last:
  assumes "\<forall>b \<in> set bs. \<not> blk_free b" "blk_free l" "blk_size b \<le> blk_size l"
  shows "worst_pick b (bs @ [l]) = l"
  using assms by (induction bs) simp_all

lemma pick_last:
  assumes "\<forall>b \<in> set bs. \<not> blk_free b" "blk_free l" "bs \<noteq> [] \<Longrightarrow> blk_size (hd bs) \<le> blk_size l"
  shows "worst_pick (hd (bs @ [l])) (List.tl (bs @ [l])) = l"
proof (cases bs)
  case (Cons b cs)
  then show ?thesis using assms worst_pick_last [of cs l b] by simp
qed simp

text \<open>A request that fits: small ones always, larger ones behind a first small one.\<close>

lemma fresh_malloc:
  assumes fresh: "fresh_heap (unat (ALIGN_SIZE n) + 16 + r) s" and first: "live s = {} \<Longrightarrow> unat (ALIGN_SIZE n) \<le> 4096"
  shows "\<exists>q m. malloc n s = Inr (q, s\<lparr>ram := m\<rparr>) \<and> q \<noteq> 0 \<and> heap_safe n s \<and> fresh_heap r (s\<lparr>ram := m\<rparr>) \<and>
    (\<forall>z. unat z < 0xE8000000 \<longrightarrow> m z = ram s z)"
proof -
  define req where "req = ALIGN_SIZE n"
  from fresh obtain bs p sz where inv: "heap_inv (bs @ [(p, sz, True)]) s"
    and alloc: "\<forall>b \<in> set bs. \<not> blk_free b" and hd: "bs \<noteq> [] \<longrightarrow> unat (blk_size (hd bs)) \<le> 4096"
    and room: "unat req + 16 + r + 4096 \<le> unat sz" by (auto simp: fresh_heap_def req_def)
  have pick: "worst_pick (hd (bs @ [(p, sz, True)])) (List.tl (bs @ [(p, sz, True)])) = (p, sz, True)"
    using alloc hd room by (intro pick_last) (auto simp: word_le_nat_alt)
  have safe: "safe_request n (bs @ [(p, sz, True)])"
    unfolding safe_request_def Let_def pick using room by (simp add: req_def)
  have fit: "req \<le> sz" using room by (simp add: word_le_nat_alt)
  from inv safe show ?thesis
  proof (cases rule: malloc_cases)
    case (none p' sz' f)
    then show ?thesis using pick fit by (auto simp: req_def)
  next
    case (some xs p' sz' ys m)
    then have eq: "p' = p" "sz' = sz" using pick by simp_all
    have "ys = []"
    proof (rule ccontr)
      assume "ys \<noteq> []"
      then obtain zs y where ys: "ys = zs @ [y]" by (metis append_butlast_last_id)
      then have "(p, sz, True) \<in> set bs" using some(3) eq by auto
      then show False using alloc by auto
    qed
    then have xs: "xs = bs" using some(3) eq by simp
    have u16: "unat (req + 16) = unat req + 16" using room unat_u32_less [of sz] by (intro u32_add_nowrap [THEN trans]) (simp_all del: unat_u32_less)
    then have fit16: "req + 16 \<le> sz" using room by (simp add: word_le_nat_alt)
    have rest: "unat (sz - req - 16) = unat sz - unat req - 16"
      using room fit by (simp add: u32_sub_nowrap word_le_nat_alt)
    have carve: "xs @ carve p' (ALIGN_SIZE n) sz' @ ys = (bs @ [(p, req, False)]) @ [(p + 16 + req, sz - req - 16, True)]"
      using fit16 by (simp add: carve_def req_def [symmetric] eq xs \<open>ys = []\<close>)
    have first': "bs = [] \<Longrightarrow> unat req \<le> 4096"
      using first live_eq [OF inv] by (simp add: req_def)
    have "fresh_heap r (s\<lparr>ram := m\<rparr>)"
      using some(6) alloc hd first' rest room unfolding carve fresh_heap_def
      by (intro exI [of _ "bs @ [(p, req, False)]"] exI [of _ "p + 16 + req"] exI [of _ "sz - req - 16"])
        (auto simp: hd_append)
    moreover have "heap_safe n s" using inv safe by (auto simp: heap_safe_def)
    ultimately show ?thesis using some(4,5,8) by blast
  qed
qed

section \<open>Stores into live regions\<close>

lemma fresh_poke:
  assumes fresh: "fresh_heap r s" and live: "(q, k) \<in> live s" "in_region (q, k) z"
  shows "fresh_heap r (poke z c s)" and "live (poke z c s) = live s"
proof -
  from fresh obtain bs p sz where inv: "heap_inv (bs @ [(p, sz, True)]) s"
    and rest: "\<forall>b \<in> set bs. \<not> blk_free b" "bs \<noteq> [] \<longrightarrow> unat (blk_size (hd bs)) \<le> 4096" "r + 4096 \<le> unat sz"
    by (auto simp: fresh_heap_def)
  obtain b where b: "b \<in> set (bs @ [(p, sz, True)])" "\<not> blk_free b" "(q, k) = blk_region b"
    using live(1) by (auto simp: live_eq [OF inv])
  have z: "in_payload b z" using in_region_payload [OF inv b(1,2)] b(3) live(2) by simp
  have inv': "heap_inv (bs @ [(p, sz, True)]) (poke z c s)" by (rule heap_inv_poke [OF inv b(1) z])
  then show "fresh_heap r (poke z c s)" using rest by (auto simp: fresh_heap_def)
  show "live (poke z c s) = live s" using live_eq [OF inv] live_eq [OF inv'] by simp
qed

lemma fresh_pokes:
  assumes "fresh_heap r s" "(q, k) \<in> live s" "\<forall>(z, c) \<in> set zs. in_region (q, k) z"
  shows "fresh_heap r (fold (\<lambda>(z, c). poke z c) zs s) \<and> live (fold (\<lambda>(z, c). poke z c) zs s) = live s"
  using assms
proof (induction zs arbitrary: s)
  case (Cons x zs)
  obtain z c where x: "x = (z, c)" by (cases x)
  have z: "in_region (q, k) z" using Cons.prems(3) by (simp add: x)
  note P = fresh_poke [OF Cons.prems(1,2) z, of c]
  have "\<forall>(z, c) \<in> set zs. in_region (q, k) z" using Cons.prems(3) by simp
  then show ?case using Cons.IH [OF P(1)] Cons.prems(2) P(2) by (simp add: x)
qed simp

lemma in_region_add:
  assumes "heap_ok s" "(q, k) \<in> live s" "i < unat k"
  shows "in_region (q, k) (q + word_of_nat i)" and "unat (q + word_of_nat i) = unat q + i"
proof -
  have b: "unat q + unat k < unat TAIL" by (rule live_bound(1) [OF assms(1,2)])
  then have "unat (word_of_nat i :: u32) = i" using assms(3) by (intro u32_of_nat) simp
  then show "unat (q + word_of_nat i) = unat q + i" using b assms(3) by (simp add: u32_add_nowrap)
  then show "in_region (q, k) (q + word_of_nat i)" using assms(3) by (simp add: in_region_def)
qed

lemma fresh_fill:
  assumes "fresh_heap r s" "(q, k) \<in> live s" "n \<le> unat k"
  shows "fresh_heap r (s\<lparr>ram := fill_bytes q c n (ram s)\<rparr>)"
proof -
  have "fold (\<lambda>(z, c). poke z c) (map (\<lambda>i. (q + word_of_nat i, c)) [0..<n]) s
      = s\<lparr>ram := fill_bytes (q + word_of_nat 0) c n (ram s)\<rparr>"
    using fill_bytes_pokes [of q c 0 n s] by (simp add: fold_map comp_def)
  moreover have "\<forall>(z, c) \<in> set (map (\<lambda>i. (q + word_of_nat i, c)) [0..<n]). in_region (q, k) z"
    using in_region_add(1) [OF fresh_heap_ok [OF assms(1)] assms(2)] assms(3) by auto
  ultimately show ?thesis using fresh_pokes [OF assms(1,2)] by fastforce
qed

lemma store32_pokes:
  "s\<lparr>ram := store32 (ram s) a v\<rparr> = fold (\<lambda>(z, c). poke z c)
     [(a, ucast v), (a + 1, ucast (drop_bit 8 v)), (a + 2, ucast (drop_bit 16 v)), (a + 3, ucast (drop_bit 24 v))] s"
  by (simp add: poke_def store32_def)

lemma fresh_store32:
  assumes fresh: "fresh_heap r s" and live: "(q, k) \<in> live s" and i: "i + 4 \<le> unat k"
  shows "fresh_heap r (s\<lparr>ram := store32 (ram s) (q + word_of_nat i) v\<rparr>)"
    and "live (s\<lparr>ram := store32 (ram s) (q + word_of_nat i) v\<rparr>) = live s"
proof -
  have j: "in_region (q, k) (q + word_of_nat i + word_of_nat j)" if "j < 4" for j
    using in_region_add(1) [OF fresh_heap_ok [OF fresh] live, of "i + j"] i that by (simp add: add.assoc)
  let ?a = "q + word_of_nat i"
  have "\<forall>(z, c) \<in> set [(?a, ucast v), (?a + 1, ucast (drop_bit 8 v)), (?a + 2, ucast (drop_bit 16 v)),
      (?a + 3, ucast (drop_bit 24 v))]. in_region (q, k) z"
    using j [of 0] j [of 1] j [of 2] j [of 3] by simp
  from fresh_pokes [OF fresh live this]
  show "fresh_heap r (s\<lparr>ram := store32 (ram s) ?a v\<rparr>)" "live (s\<lparr>ram := store32 (ram s) ?a v\<rparr>) = live s"
    unfolding store32_pokes by blast+
qed

section \<open>Addresses of objects\<close>

text \<open>The addresses of the regions in use; a new region has a new address.\<close>

definition owned :: "kmem \<Rightarrow> u32 set" where
  "owned s = {q. \<exists>k. 0 < unat k \<and> (q, k) \<in> live s}"

lemma new_region:
  assumes ok: "heap_ok t" and live: "live t = insert (q, k) (live s)" "(q, k) \<notin> live s" and k: "0 < unat k"
  shows "q \<notin> owned s" and "owned t = insert q (owned s)"
proof -
  show "q \<notin> owned s"
  proof
    assume "q \<in> owned s"
    then obtain j where j: "0 < unat j" "(q, j) \<in> live s" by (auto simp: owned_def)
    then have "(q, j) \<noteq> (q, k)" using live(2) by auto
    from kheap.regions_apart [OF ok _ _ this, of q] j k live(1) show False by (simp add: in_region_def)
  qed
  show "owned t = insert q (owned s)" using k by (auto simp: owned_def live(1))
qed

lemma live_aligned:
  assumes "heap_ok s" "(q, k) \<in> live s"
  shows "aligned4 q"
proof -
  from assms(1) obtain bs where inv: "heap_inv bs s" by (auto simp: heap_ok_def)
  obtain b where b: "b \<in> set bs" "(q, k) = blk_region b" using assms(2) by (auto simp: live_eq [OF inv])
  have "unat q = unat (blk_addr b) + 16" using blk_region_addr [OF inv b(1)] b(2) by (metis fst_conv)
  moreover have "hdr (blk_addr b)"
    using blocks_headers(1) [OF heap_inv_parts(8) [OF inv], of "blk_addr b"] b(1) by auto
  ultimately show ?thesis by (simp add: aligned4_def hdr_def) presburger
qed

text \<open>What a successful \<^verbatim>\<open>malloc\<close> and \<^verbatim>\<open>calloc\<close> on a fresh heap leave.\<close>

lemma fresh_alloc:
  assumes fresh: "fresh_heap (unat (ALIGN_SIZE n) + 16 + r) s" and first: "live s = {} \<Longrightarrow> unat (ALIGN_SIZE n) \<le> 4096"
    and n: "0 < unat n" "unat n \<le> 4294967288"
  obtains q m k where "malloc n s = Inr (q, s\<lparr>ram := m\<rparr>)" "q \<noteq> 0" "fresh_heap r (s\<lparr>ram := m\<rparr>)"
    "unat n \<le> unat k" "(q, k) \<notin> live s" "live (s\<lparr>ram := m\<rparr>) = insert (q, k) (live s)"
    "q \<notin> owned s" "owned (s\<lparr>ram := m\<rparr>) = insert q (owned s)"
    "\<forall>r \<in> live s. \<forall>z. in_region r z \<longrightarrow> m z = ram s z" "\<forall>z. unat z < 0xE8000000 \<longrightarrow> m z = ram s z"
proof -
  from fresh_malloc [OF fresh first] obtain q m where
    m: "malloc n s = Inr (q, s\<lparr>ram := m\<rparr>)" "q \<noteq> 0" "heap_safe n s" "fresh_heap r (s\<lparr>ram := m\<rparr>)"
      "\<forall>z. unat z < 0xE8000000 \<longrightarrow> m z = ram s z" by blast
  from malloc_live [OF m(3,1,2)] obtain k where
    k: "ALIGN_SIZE n \<le> k" "(q, k) \<notin> live s" "live (s\<lparr>ram := m\<rparr>) = insert (q, k) (live s)"
      "\<forall>r \<in> live s. \<forall>z. in_region r z \<longrightarrow> m z = ram s z" by auto
  have nk: "unat n \<le> unat k" using ALIGN_SIZE_bounds(1) [OF n(2)] k(1) by (simp add: word_le_nat_alt)
  then have "0 < unat k" using n(1) by simp
  note N = new_region [OF fresh_heap_ok [OF m(4)] k(3,2) this]
  show thesis by (rule that [OF m(1,2,4) nk k(2,3) N k(4) m(5)])
qed

lemma fresh_calloc:
  assumes fresh: "fresh_heap (unat (ALIGN_SIZE (num * sz)) + 16 + r) s"
    and first: "live s = {} \<Longrightarrow> unat (ALIGN_SIZE (num * sz)) \<le> 4096"
    and n: "0 < unat (num * sz)" "unat (num * sz) \<le> 4294967288"
  obtains q m k where "calloc num sz s = Inr (q, s\<lparr>ram := m\<rparr>)" "q \<noteq> 0" "fresh_heap r (s\<lparr>ram := m\<rparr>)"
    "unat (num * sz) \<le> unat k" "(q, k) \<notin> live s" "live (s\<lparr>ram := m\<rparr>) = insert (q, k) (live s)"
    "q \<notin> owned s" "owned (s\<lparr>ram := m\<rparr>) = insert q (owned s)"
    "\<forall>i < unat (num * sz). m (q + word_of_nat i) = 0"
    "\<forall>r \<in> live s. \<forall>z. in_region r z \<longrightarrow> m z = ram s z"
proof -
  obtain q m k where
    m: "malloc (num * sz) s = Inr (q, s\<lparr>ram := m\<rparr>)" "q \<noteq> 0" "fresh_heap r (s\<lparr>ram := m\<rparr>)"
      "unat (num * sz) \<le> unat k" "(q, k) \<notin> live s" "live (s\<lparr>ram := m\<rparr>) = insert (q, k) (live s)"
    by (rule fresh_alloc [OF fresh first n])
  define m' where "m' = fill_bytes q 0 (unat (num * sz)) m"
  have c: "calloc num sz s = Inr (q, s\<lparr>ram := m'\<rparr>)" using m(1,2) by (simp add: calloc_def m'_def)
  have "(q, k) \<in> live (s\<lparr>ram := m\<rparr>)" by (simp add: m(6))
  from fresh_fill [OF m(3) this m(4), of 0] have fr: "fresh_heap r (s\<lparr>ram := m'\<rparr>)" by (simp add: m'_def)
  from fresh_malloc [OF fresh first] m(1) have safe: "heap_safe (num * sz) s" by blast
  from calloc_live [OF safe n(2)] c m(2) obtain k' where
    k: "num * sz \<le> k'" "(q, k') \<notin> live s" "live (s\<lparr>ram := m'\<rparr>) = insert (q, k') (live s)"
      "\<forall>i < unat (num * sz). m' (q + word_of_nat i) = 0"
      "\<forall>r \<in> live s. \<forall>z. in_region r z \<longrightarrow> m' z = ram s z" by auto
  have nk: "unat (num * sz) \<le> unat k'" using k(1) by (simp add: word_le_nat_alt)
  then have "0 < unat k'" using n(1) by simp
  note N = new_region [OF fresh_heap_ok [OF fr] k(3,2) this]
  show thesis by (rule that [OF c m(2) fr nk k(2,3) N k(4,5)])
qed

end
