(* ===== verification/Thread_Create.thy ===== *)
theory Thread_Create
  imports Thread_Time Heap_Fresh
begin

text \<open>
  The creation of threads (\<^verbatim>\<open>src/src/multitask/thread_create.c\<close>, \<^verbatim>\<open>threads.c\<close>) on a heap without holes:
  where the objects of a thread come from, and what the new thread looks like to the scheduler.
\<close>

section \<open>Objects in the heap\<close>

text \<open>Every object the multitasking code knows starts a live region of the heap.\<close>

definition placed :: "sched \<Rightarrow> bool" where
  "placed s \<longleftrightarrow> dom (tcbs s) \<union> dom (sems s) \<union> dom (queues s) \<union> dom (packets s) \<subseteq> owned (hp s)"

lemma placed_new:
  assumes "placed s" "p \<notin> owned (hp s)"
  shows "tcbs s p = None" "sems s p = None" "queues s p = None" "packets s p = None"
  using assms by (auto simp: placed_def)

lemma fresh_store_words:
  assumes "fresh_heap r s" "(q, k) \<in> live s" "i + 4 * length ws \<le> unat k"
  shows "fresh_heap r (s\<lparr>ram := store_words (q + word_of_nat i) ws (ram s)\<rparr>) \<and>
    live (s\<lparr>ram := store_words (q + word_of_nat i) ws (ram s)\<rparr>) = live s"
  using assms
proof (induction ws arbitrary: i s)
  case (Cons w ws)
  let ?t = "s\<lparr>ram := store32 (ram s) (q + word_of_nat i) w\<rparr>"
  have "i + 4 \<le> unat k" using Cons.prems(3) by simp
  note P = fresh_store32 [OF Cons.prems(1,2) this, of w]
  have eq: "q + word_of_nat i + 4 = q + word_of_nat (i + 4)" by (simp add: add.assoc)
  have "i + 4 + 4 * length ws \<le> unat k" "(q, k) \<in> live ?t" using Cons.prems(2,3) P(2) by simp_all
  from Cons.IH [OF P(1) this(2,1)] show ?case using P(2) unfolding store_words.simps eq by simp
qed simp

lemma store_words_outside:
  assumes "z < unat p \<or> unat p + 4 * length ws \<le> z" "unat p + 4 * length ws < 4294967296" "z < 4294967296"
  shows "store_words p ws m (word_of_nat z) = m (word_of_nat z)"
  using assms
proof (induction ws arbitrary: p m)
  case (Cons w ws)
  have u: "unat (p + 4) = unat p + 4" "unat (p + 1) = unat p + 1" "unat (p + 2) = unat p + 2" "unat (p + 3) = unat p + 3"
    using Cons.prems(2) by (simp_all add: u32_add_nowrap)
  have z: "unat (word_of_nat z :: u32) = z" using Cons.prems(3) by (intro u32_of_nat) simp
  have "word_of_nat z \<notin> {p, p + 1, p + 2, p + 3}" using Cons.prems(1) u z by auto
  then show ?case using Cons.IH [of "p + 4" "store32 m p w"] Cons.prems u by (auto simp: store32_byte_other)
qed simp

lemma store_words_before:
  assumes "aligned4 p" "aligned4 a" "unat a < unat p" "unat p + 4 * length ws < 4294967296"
  shows "load32 (store_words p ws m) a = load32 m a"
  using assms
proof (induction ws arbitrary: p m)
  case (Cons w ws)
  have u: "unat (p + 4) = unat p + 4" using Cons.prems(4) by (simp add: u32_add_nowrap)
  have "aligned4 (p + 4)" using Cons.prems(1) by (intro aligned4_plus) (simp_all add: aligned4_def)
  then have "load32 (store_words (p + 4) ws (store32 m p w)) a = load32 (store32 m p w) a"
    using Cons.prems u by (intro Cons.IH) auto
  moreover have "p \<noteq> a" using Cons.prems(3) by auto
  ultimately show ?case using Cons.prems(1,2) by simp
qed simp

lemma store_words_read:
  assumes "aligned4 p" "unat p + 4 * length ws < 4294967296" "i < length ws"
  shows "load32 (store_words p ws m) (p + 4 * word_of_nat i) = ws ! i"
  using assms
proof (induction ws arbitrary: p m i)
  case (Cons w ws)
  have u: "unat (p + 4) = unat p + 4" using Cons.prems(2) by (simp add: u32_add_nowrap)
  have al: "aligned4 (p + 4)" using Cons.prems(1) by (intro aligned4_plus) (simp_all add: aligned4_def)
  show ?case
  proof (cases i)
    case 0
    then show ?thesis
      using store_words_before [OF al Cons.prems(1), of ws "store32 m p w"] Cons.prems(2) u by simp
  next
    case (Suc j)
    have eq: "p + 4 * word_of_nat i = p + 4 + 4 * word_of_nat j" by (simp add: Suc algebra_simps)
    have "load32 (store_words (p + 4) ws (store32 m p w)) (p + 4 + 4 * word_of_nat j) = ws ! j"
      using Cons.prems(2,3) u Suc by (intro Cons.IH [OF al]) simp_all
    then show ?thesis unfolding eq by (simp add: Suc)
  qed
qed simp

section \<open>Semaphores\<close>

definition empty_semaphore :: "i32 \<Rightarrow> SEMAPHORE" where
  "empty_semaphore mx = \<lparr>max_count = mx, current_count = 0, first_waiting_task = 0, last_waiting_task = 0\<rparr>"

lemma ALIGN_SIZE_16: "ALIGN_SIZE 16 = 16"
  by (simp add: ALIGN_SIZE_def)

lemma create_semaphore_fresh:
  assumes fresh: "fresh_heap (32 + r) (hp s)"
  obtains p m k where "create_semaphore mx s
      = Inr (p, s\<lparr>hp := (hp s)\<lparr>ram := m\<rparr>, sems := (sems s)(p \<mapsto> empty_semaphore mx)\<rparr>)"
    "p \<noteq> 0" "fresh_heap r ((hp s)\<lparr>ram := m\<rparr>)" "live ((hp s)\<lparr>ram := m\<rparr>) = insert (p, k) (live (hp s))"
    "p \<notin> owned (hp s)" "owned ((hp s)\<lparr>ram := m\<rparr>) = insert p (owned (hp s))"
    "\<forall>r \<in> live (hp s). \<forall>z. in_region r z \<longrightarrow> m z = ram (hp s) z"
proof -
  have f: "fresh_heap (unat (ALIGN_SIZE 16) + 16 + r) (hp s)" using fresh by (simp add: ALIGN_SIZE_16)
  show thesis
    by (rule fresh_alloc [OF f], simp add: ALIGN_SIZE_16, simp, simp)
      (rule that, simp_all add: create_semaphore_def empty_semaphore_def Let_def)
qed

section \<open>A new thread\<close>

text \<open>The four regions of a thread with their headers: 40, 1048576, 16 and 16 bytes.\<close>

definition thread_room :: nat where "thread_room = 1048712"

text \<open>A block as \<open>thread_create\<close> leaves it, up to the link.\<close>

definition new_tcb :: "u32 \<Rightarrow> u32 \<Rightarrow> u32 \<Rightarrow> u32 \<Rightarrow> thread_control_block" where
  "new_tcb stack queue n cr = \<lparr>esp = stack + MIB 1 - 28, cr3 = cr, next_tcb = 0, state = THREAD_RUNNING,
     paused_until = 0, time_used = 0, pid = n, stack_alloc_ptr = stack, kbp_queue = queue\<rparr>"

lemma load_tcb_zero:
  assumes "\<forall>i < 36. m (p + word_of_nat i) = 0"
  shows "load_tcb m p = \<lparr>esp = 0, cr3 = 0, next_tcb = 0, state = THREAD_RUNNING, paused_until = 0, time_used = 0,
    pid = 0, stack_alloc_ptr = 0, kbp_queue = 0\<rparr>"
proof -
  have "load32 m (p + word_of_nat i) = 0" if "i + 3 < 36" for i
  proof -
    have b: "m (p + word_of_nat i + word_of_nat j) = 0" if "j < 4" for j
      using assms [rule_format, of "i + j"] that \<open>i + 3 < 36\<close> by (simp add: add.assoc)
    show ?thesis using b [of 0] b [of 1] b [of 2] b [of 3] by (simp add: load32_def del: add.assoc)
  qed
  from this [of 0] this [of 4] this [of 8] this [of 16] this [of 20] this [of 24] this [of 28] this [of 32]
  show ?thesis by (simp add: load_tcb_def)
qed

lemma MIB_1: "MIB 1 = 0x100000"
  by (simp add: MIB_def)

lemma push_ready_new:
  assumes "ready_threads s xs" "tcbs s p = Some t" "p \<noteq> 0" "p \<notin> set xs"
  obtains m q where "push_ready p s = Inr (s\<lparr>threads_ready := q, tcbs := m\<rparr>)" "tview q m (xs @ [p])"
    "links_only (tcbs s) m" "\<forall>x. x \<notin> set xs \<and> x \<noteq> p \<longrightarrow> m x = tcbs s x"
proof -
  obtain l where l: "threads_ready s = Some l" "tlist (tcbs s) l xs" using assms(1) by (auto simp: tview_def)
  from push_back_tlist [OF l(2) assms(2-4)] obtain l' m where
    "list_thread_push_back (Some l) p (tcbs s) = Inr (0, Some l', m)" "tlist m l' (xs @ [p])"
    "links_only (tcbs s) m" "\<forall>q. q \<notin> set xs \<and> q \<noteq> p \<longrightarrow> m q = tcbs s q" by blast
  moreover from this(2) have "tview (Some l') m (xs @ [p])" unfolding tview_def by blast
  ultimately show thesis using l(1) by (intro that [of m "Some l'"]) (simp_all add: push_ready_def)
qed

text \<open>The whole of \<^verbatim>\<open>thread_create\<close>, with the state it leaves.\<close>

lemma thread_create_state:
  assumes rest: "at_rest s" and ready: "ready_threads s xs" and placed: "placed s"
    and fresh: "fresh_heap (thread_room + r) (hp s)" and live: "live (hp s) \<noteq> {}"
  obtains p stack queue sem h m q where
    "thread_create ent ext func s = Inr (p, s\<lparr>hp := h, queues := (queues s)(queue \<mapsto> \<lparr>sync = sem, front = 0, backq = 0,
       status_flags = 0\<rparr>), sems := (sems s)(sem \<mapsto> empty_semaphore 0), tcbs := m, threads_ready := q, irq_on := True,
       thread_create_counter := thread_create_counter s + 1\<rparr>)"
    "p \<noteq> 0" "distinct [p, stack, queue, sem]" "set [p, stack, queue, sem] \<inter> owned (hp s) = {}"
    "tview q m (xs @ [p])" "m p = Some (new_tcb stack queue (thread_create_counter s) (cr3_reg s))"
    "links_only (tcbs s) (m(p := None))" "fresh_heap r h" "live h \<noteq> {}"
    "owned h = owned (hp s) \<union> {p, stack, queue, sem}"
    "\<forall>i < 7. load32 (ram h) (stack + MIB 1 - 28 + 4 * word_of_nat i) = thread_stack_t ent func ext ! i"
    "live (hp s) \<subseteq> live h" "\<exists>k. (stack, k) \<in> live h \<and> 0x100000 \<le> unat k"
    "\<forall>r \<in> live (hp s). \<forall>z. in_region r z \<longrightarrow> ram h z = ram (hp s) z"
proof -
  have sizes: "ALIGN_SIZE (1 * sizeof_tcb) = 40" "ALIGN_SIZE (MIB 1 * 1) = 0x100000" "ALIGN_SIZE (1 * 16) = 16"
    by (simp_all add: sizeof_tcb_def ALIGN_SIZE_def MIB_1)
  have "fresh_heap (unat (ALIGN_SIZE (1 * sizeof_tcb)) + 16 + (1048656 + r)) (hp s)"
    unfolding sizes using fresh by (simp add: thread_room_def)
  then obtain p m1 k1 where
    c1: "calloc 1 sizeof_tcb (hp s) = Inr (p, (hp s)\<lparr>ram := m1\<rparr>)" "p \<noteq> 0" "fresh_heap (1048656 + r) ((hp s)\<lparr>ram := m1\<rparr>)"
      "unat (1 * sizeof_tcb) \<le> unat k1" "live ((hp s)\<lparr>ram := m1\<rparr>) = insert (p, k1) (live (hp s))"
      "p \<notin> owned (hp s)" "owned ((hp s)\<lparr>ram := m1\<rparr>) = insert p (owned (hp s))"
      "\<forall>i < unat (1 * sizeof_tcb). m1 (p + word_of_nat i) = 0"
      "\<forall>r \<in> live (hp s). \<forall>z. in_region r z \<longrightarrow> m1 z = ram (hp s) z"
    by (rule fresh_calloc) (simp_all add: live sizeof_tcb_def)
  let ?h1 = "(hp s)\<lparr>ram := m1\<rparr>"
  have "fresh_heap (unat (ALIGN_SIZE (MIB 1 * 1)) + 16 + (64 + r)) ?h1" unfolding sizes using c1(3) by simp
  then obtain stack m2 k2 where
    c2: "calloc (MIB 1) 1 ?h1 = Inr (stack, ?h1\<lparr>ram := m2\<rparr>)" "stack \<noteq> 0" "fresh_heap (64 + r) (?h1\<lparr>ram := m2\<rparr>)"
      "unat (MIB 1 * 1) \<le> unat k2" "live (?h1\<lparr>ram := m2\<rparr>) = insert (stack, k2) (live ?h1)"
      "stack \<notin> owned ?h1" "owned (?h1\<lparr>ram := m2\<rparr>) = insert stack (owned ?h1)"
      "\<forall>r \<in> live ?h1. \<forall>z. in_region r z \<longrightarrow> m2 z = ram ?h1 z"
    by (rule fresh_calloc) (simp_all add: c1(5) MIB_1)
  let ?h2 = "(hp s)\<lparr>ram := m2\<rparr>"
  have "fresh_heap (unat (ALIGN_SIZE (1 * 16)) + 16 + (32 + r)) ?h2" unfolding sizes using c2(3) by simp
  then obtain queue m3 k3 where
    c3: "calloc 1 16 ?h2 = Inr (queue, ?h2\<lparr>ram := m3\<rparr>)" "queue \<noteq> 0" "fresh_heap (32 + r) (?h2\<lparr>ram := m3\<rparr>)"
      "live (?h2\<lparr>ram := m3\<rparr>) = insert (queue, k3) (live ?h2)"
      "queue \<notin> owned ?h2" "owned (?h2\<lparr>ram := m3\<rparr>) = insert queue (owned ?h2)"
      "\<forall>r \<in> live ?h2. \<forall>z. in_region r z \<longrightarrow> m3 z = ram ?h2 z"
    by (rule fresh_calloc) (use c2(5) in simp_all)
  let ?h3 = "(hp s)\<lparr>ram := m3\<rparr>"
  let ?q0 = "\<lparr>sync = 0, front = 0, backq = 0, status_flags = 0\<rparr>"
  let ?s3 = "s\<lparr>hp := ?h3, queues := (queues s)(queue \<mapsto> ?q0)\<rparr>"
  have "fresh_heap (32 + r) (hp ?s3)" using c3(3) by simp
  then obtain sem m4 k4 where
    c4: "create_semaphore 0 ?s3 = Inr (sem, ?s3\<lparr>hp := ?h3\<lparr>ram := m4\<rparr>, sems := (sems s)(sem \<mapsto> empty_semaphore 0)\<rparr>)"
      "sem \<noteq> 0" "fresh_heap r (?h3\<lparr>ram := m4\<rparr>)" "live (?h3\<lparr>ram := m4\<rparr>) = insert (sem, k4) (live ?h3)"
      "sem \<notin> owned ?h3" "owned (?h3\<lparr>ram := m4\<rparr>) = insert sem (owned ?h3)"
      "\<forall>r \<in> live ?h3. \<forall>z. in_region r z \<longrightarrow> m4 z = ram ?h3 z"
    by (rule create_semaphore_fresh [where mx = 0]) simp
  let ?h4 = "(hp s)\<lparr>ram := m4\<rparr>"
  have k12: "36 \<le> unat k1" "0x100000 \<le> unat k2" and zero: "\<forall>i < 36. m1 (p + word_of_nat i) = 0"
    using c1(4,8) c2(4) by (simp_all add: sizeof_tcb_def MIB_1)
  text \<open>The block is still zero after the other requests.\<close>
  have r1: "(p, k1) \<in> live ?h1" "(p, k1) \<in> live ?h2" and ok1: "heap_ok ?h1"
    using c1(5) c2(5) fresh_heap_ok [OF c1(3)] by simp_all
  have "m3 (p + word_of_nat i) = 0" if "i < 36" for i
    using in_region_add(1) [OF ok1 r1(1), of i] k12(1) zero c2(8) c3(7) r1 that by auto
  then have tcb: "load_tcb m3 p = \<lparr>esp = 0, cr3 = 0, next_tcb = 0, state = THREAD_RUNNING, paused_until = 0,
      time_used = 0, pid = 0, stack_alloc_ptr = 0, kbp_queue = 0\<rparr>"
    by (intro load_tcb_zero) simp
  text \<open>The frame on the stack.\<close>
  let ?ws = "thread_stack_t ent func ext" and ?sp = "stack + MIB 1 - 28"
  have sp: "?sp = stack + word_of_nat 1048548" by (simp add: MIB_1)
  have r2: "(stack, k2) \<in> live ?h4" using c2(5) c3(4) c4(4) by simp
  have ok4: "heap_ok ?h4" using fresh_heap_ok [OF c4(3)] by simp
  define h where "h = ?h4\<lparr>ram := store_words ?sp ?ws m4\<rparr>"
  have "1048548 + 4 * length ?ws \<le> unat k2" using k12(2) by (simp add: thread_stack_t_def)
  from fresh_store_words [OF _ r2 this, of r] c4(3)
  have h: "fresh_heap r h" "live h = live ?h4" by (simp_all add: h_def sp)
  have stk: "aligned4 stack" "unat stack + unat k2 < unat TAIL" "unat ?sp = unat stack + 1048548"
    using live_aligned [OF ok4 r2] live_bound(1) [OF ok4 r2] in_region_add(2) [OF ok4 r2, of 1048548] k12(2)
    by (simp_all add: sp del: of_nat_numeral)
  have "aligned4 ?sp" using stk(1,3) by (simp add: aligned4_def mod_add_eq [symmetric])
  then have frame: "\<forall>i < 7. load32 (ram h) (?sp + 4 * word_of_nat i) = ?ws ! i"
    using store_words_read [of ?sp ?ws _ m4] stk k12(2) by (simp add: h_def thread_stack_t_def)
  text \<open>What was there before is untouched.\<close>
  have sub: "live (hp s) \<subseteq> live h" using c1(5) c2(5) c3(4) c4(4) h(2) by auto
  have keep: "ram h z = ram (hp s) z" if r: "r \<in> live (hp s)" "in_region r z" for r z
  proof -
    have m4: "m4 z = ram (hp s) z" using r c1(5,9) c2(5,8) c3(4,7) c4(7) by auto
    have "(stack, k2) \<notin> live (hp s)" using c2(6) c1(7) k12(2) by (force simp: owned_def)
    then have ne: "r \<noteq> (stack, k2)" using r(1) by blast
    have in4: "r \<in> live ?h4" using r(1) c1(5) c2(5) c3(4) c4(4) by auto
    have "\<not> in_region (stack, k2) z" using kheap.regions_apart [OF ok4 in4 r2 ne] r(2) by blast
    then have "unat z < unat ?sp \<or> unat ?sp + 4 * length ?ws \<le> unat z"
      using stk k12(2) by (auto simp: in_region_def thread_stack_t_def)
    moreover have "unat ?sp + 4 * length ?ws < 4294967296" using stk k12(2) by (simp add: thread_stack_t_def)
    ultimately show ?thesis using store_words_outside [of "unat z" ?sp ?ws m4] m4 by (simp add: h_def)
  qed
  have own: "owned h = owned (hp s) \<union> {p, stack, queue, sem}"
    using c1(7) c2(7) c3(6) c4(6) h(2) by (auto simp: owned_def)
  text \<open>Into the ready queue.\<close>
  let ?t = "new_tcb stack queue (thread_create_counter s) (cr3_reg s)"
  let ?q1 = "\<lparr>sync = sem, front = 0, backq = 0, status_flags = 0\<rparr>"
  let ?s5 = "s\<lparr>sems := (sems s)(sem \<mapsto> empty_semaphore 0), queues := (queues s)(queue \<mapsto> ?q1), hp := h,
    thread_create_counter := thread_create_counter s + 1, tcbs := (tcbs s)(p \<mapsto> ?t)\<rparr>"
  have new: "tcbs s p = None" by (rule placed_new(1) [OF placed c1(6)])
  have px: "p \<notin> set xs"
  proof
    assume "p \<in> set xs"
    then show False using ready new tlist_valid by (fastforce simp: tview_def)
  qed
  have "ready_threads (lock_postpone ?s5) xs"
    using ready px by (auto intro: tview_cong)
  then obtain m q where
    push: "push_ready p (lock_postpone ?s5) = Inr ((lock_postpone ?s5)\<lparr>threads_ready := q, tcbs := m\<rparr>)"
      "tview q m (xs @ [p])" "links_only (tcbs (lock_postpone ?s5)) m"
    by (rule push_ready_new [where p = p and t = ?t]) (use c1(2) px in simp_all)
  have mp: "m p = Some ?t"
  proof -
    obtain n where n: "m p = Some (?t\<lparr>next_tcb := n\<rparr>)" using links_only_state [OF push(3), of p ?t] by auto
    moreover obtain l where "tlist m l (xs @ [p])" using push(2) unfolding tview_def by blast
    moreover from this have "chain m (head l) (xs @ [p])" by (simp only: tlist_def)
    ultimately have "n = 0" using seg_chain_last [of m "head l" "xs @ [p]" 0] by auto
    then show ?thesis using n by (simp add: new_tcb_def)
  qed
  have links: "links_only (tcbs s) (m(p := None))"
    using push(3) new by (auto simp: links_only_def)
  have fin: "thread_create ent ext func s = Inr (p, s\<lparr>hp := h, queues := (queues s)(queue \<mapsto> ?q1),
      sems := (sems s)(sem \<mapsto> empty_semaphore 0), tcbs := m, threads_ready := q, irq_on := True,
      thread_create_counter := thread_create_counter s + 1\<rparr>)"
  proof -
    have eq: "(load_tcb m3 p)\<lparr>stack_alloc_ptr := stack, kbp_queue := queue, esp := ?sp,
        state := THREAD_RUNNING, pid := thread_create_counter s, cr3 := cr3_reg s\<rparr> = ?t"
      by (simp add: tcb new_tcb_def)
    have "unlock_postpone_and_schedule ((lock_postpone ?s5)\<lparr>threads_ready := q, tcbs := m\<rparr>)
        = Inr (s\<lparr>hp := h, queues := (queues s)(queue \<mapsto> ?q1), sems := (sems s)(sem \<mapsto> empty_semaphore 0), tcbs := m,
            threads_ready := q, irq_on := True, thread_create_counter := thread_create_counter s + 1\<rparr>)"
      using rest by (cases s) (simp add: unlock_quiet at_rest_def lock_postpone_def)
    then show ?thesis
      using c1(1,2) c2(1,2) c3(1,2) c4(1) push(1) eq
      by (simp add: thread_create_def Let_def h_def)
  qed
  show thesis
  proof (rule that [OF fin c1(2) _ _ push(2) mp links h(1) _ own frame])
    show "distinct [p, stack, queue, sem]" "set [p, stack, queue, sem] \<inter> owned (hp s) = {}"
      using c1(6,7) c2(6,7) c3(5,6) c4(5,6) by auto
    show "live h \<noteq> {}" "\<exists>k. (stack, k) \<in> live h \<and> 0x100000 \<le> unat k" using h(2) r2 k12(2) by auto
    show "live (hp s) \<subseteq> live h" "\<forall>r \<in> live (hp s). \<forall>z. in_region r z \<longrightarrow> ram h z = ram (hp s) z"
      using sub keep by blast+
  qed
qed

text \<open>
  What the start-up code keeps: nothing is locked, the ready threads are known, objects are
  placed, and \<open>r\<close> bytes can still be cut off the heap.
\<close>

definition tasking :: "nat \<Rightarrow> u32 list \<Rightarrow> sched \<Rightarrow> bool" where
  "tasking r xs s \<longleftrightarrow> at_rest s \<and> ready_threads s xs \<and> placed s \<and> fresh_heap r (hp s) \<and> live (hp s) \<noteq> {}"

lemma links_only_dom: "links_only m m' \<Longrightarrow> dom m' = dom m"
  using links_only_known [of m m'] unfolding links_only_def dom_def
  by (metis (mono_tags, lifting) Collect_cong map_option_is_None)

lemma thread_create_tasking:
  assumes "tasking (thread_room + r) xs s"
  obtains p stack queue sem s' where "thread_create ent ext func s = Inr (p, s')" "tasking r (xs @ [p]) s'"
    "p \<noteq> 0" "tcbs s p = None" "irq_on s'"
    "tcbs s' p = Some (new_tcb stack queue (thread_create_counter s) (cr3_reg s))"
    "queues s' = (queues s)(queue \<mapsto> \<lparr>sync = sem, front = 0, backq = 0, status_flags = 0\<rparr>)"
    "sems s' = (sems s)(sem \<mapsto> empty_semaphore 0)"
    "\<forall>i < 7. load32 (ram (hp s')) (stack + MIB 1 - 28 + 4 * word_of_nat i) = thread_stack_t ent func ext ! i"
    "links_only (tcbs s) ((tcbs s')(p := None))"
    "thread_create_counter s' = thread_create_counter s + 1" "cr3_reg s' = cr3_reg s"
    "current_running_tcb s' = current_running_tcb s" "current_focus_tcb s' = current_focus_tcb s"
    "butler s' = butler s" "threads_sleeping s' = threads_sleeping s" "threads_terminated s' = threads_terminated s"
    "timer_tick s' = timer_tick s"
    "live (hp s) \<subseteq> live (hp s')" "\<exists>k. (stack, k) \<in> live (hp s') \<and> 0x100000 \<le> unat k"
    "\<forall>r \<in> live (hp s). \<forall>z. in_region r z \<longrightarrow> ram (hp s') z = ram (hp s) z"
proof -
  from assms have a: "at_rest s" "ready_threads s xs" "placed s" "fresh_heap (thread_room + r) (hp s)" "live (hp s) \<noteq> {}"
    by (simp_all add: tasking_def)
  obtain p stack queue sem h m q where
    t: "thread_create ent ext func s = Inr (p, s\<lparr>hp := h, queues := (queues s)(queue \<mapsto> \<lparr>sync = sem, front = 0, backq = 0,
       status_flags = 0\<rparr>), sems := (sems s)(sem \<mapsto> empty_semaphore 0), tcbs := m, threads_ready := q, irq_on := True,
       thread_create_counter := thread_create_counter s + 1\<rparr>)"
    "p \<noteq> 0" "set [p, stack, queue, sem] \<inter> owned (hp s) = {}"
    "tview q m (xs @ [p])" "m p = Some (new_tcb stack queue (thread_create_counter s) (cr3_reg s))"
    "links_only (tcbs s) (m(p := None))" "fresh_heap r h" "live h \<noteq> {}"
    "owned h = owned (hp s) \<union> {p, stack, queue, sem}"
    "\<forall>i < 7. load32 (ram h) (stack + MIB 1 - 28 + 4 * word_of_nat i) = thread_stack_t ent func ext ! i"
    "live (hp s) \<subseteq> live h" "\<exists>k. (stack, k) \<in> live h \<and> 0x100000 \<le> unat k"
    "\<forall>r \<in> live (hp s). \<forall>z. in_region r z \<longrightarrow> ram h z = ram (hp s) z"
    by (rule thread_create_state [OF a])
  let ?s' = "s\<lparr>hp := h, queues := (queues s)(queue \<mapsto> \<lparr>sync = sem, front = 0, backq = 0, status_flags = 0\<rparr>),
       sems := (sems s)(sem \<mapsto> empty_semaphore 0), tcbs := m, threads_ready := q, irq_on := True,
       thread_create_counter := thread_create_counter s + 1\<rparr>"
  have new: "tcbs s p = None" using placed_new(1) [OF a(3), of p] t(3) by simp
  have "dom m \<subseteq> insert p (dom (tcbs s))" using links_only_dom [OF t(6)] by auto
  then have "placed ?s'" using a(3) by (auto simp: placed_def t(9))
  then have "tasking r (xs @ [p]) ?s'" using a(1) t(4,7,8) by (simp add: tasking_def at_rest_def)
  then show thesis
    by (rule that [OF t(1) _ t(2) new]) (use t(5,6,10-13) in simp_all)
qed

text \<open>C25: On a heap in use without holes (every block but the last one is allocated, the first
  has at most 4096 bytes, and the last one has at least 1052808 bytes, so that no calloc in
  it returns NULL) thread_create returns a new control block behind the ready threads, in
  state RUNNING with the next number and an empty keyboard queue of its own whose semaphore
  is closed; the top of its stack holds the frame from which the first switch enters
  thread_entry, then the function, then thread_exit. Every other control block keeps all
  fields but its link, every other queue and semaphore, the current thread, the focus and
  the contents of the live regions stay, nothing stays locked, and every object still starts
  a region of the heap. A heap that is too full for the stack or the queue is not covered:
  the code uses the pointers unchecked.\<close>
theorem thread_create_spec:
  assumes "at_rest s" and "ready_threads s xs" and "placed s"
    and "fresh_heap (thread_room + r) (hp s)" and "live (hp s) \<noteq> {}"
  shows "\<exists>p stack queue sem s'. thread_create ent ext func s = Inr (p, s') \<and> p \<noteq> 0 \<and> tcbs s p = None \<and>
    ready_threads s' (xs @ [p]) \<and> at_rest s' \<and> placed s' \<and> fresh_heap r (hp s') \<and>
    tcbs s' p = Some (new_tcb stack queue (thread_create_counter s) (cr3_reg s)) \<and>
    queues s' queue = Some \<lparr>sync = sem, front = 0, backq = 0, status_flags = 0\<rparr> \<and>
    sems s' sem = Some (empty_semaphore 0) \<and>
    (\<forall>i < 7. load32 (ram (hp s')) (stack + MIB 1 - 28 + 4 * word_of_nat i) = [0, 0, 0, 0, ent, func, ext] ! i) \<and>
    (\<forall>x. x \<noteq> p \<longrightarrow> map_option (\<lambda>t. t\<lparr>next_tcb := 0\<rparr>) (tcbs s' x) = map_option (\<lambda>t. t\<lparr>next_tcb := 0\<rparr>) (tcbs s x)) \<and>
    (\<forall>x. x \<noteq> queue \<longrightarrow> queues s' x = queues s x) \<and> (\<forall>x. x \<noteq> sem \<longrightarrow> sems s' x = sems s x) \<and>
    current_running_tcb s' = current_running_tcb s \<and> current_focus_tcb s' = current_focus_tcb s \<and>
    (\<forall>r \<in> live (hp s). r \<in> live (hp s') \<and> (\<forall>z. in_region r z \<longrightarrow> ram (hp s') z = ram (hp s) z))"
proof -
  have "tasking (thread_room + r) xs s" using assms by (simp add: tasking_def)
  then obtain p stack queue sem s' where
    t: "thread_create ent ext func s = Inr (p, s')" "tasking r (xs @ [p]) s'" "p \<noteq> 0" "tcbs s p = None"
    "tcbs s' p = Some (new_tcb stack queue (thread_create_counter s) (cr3_reg s))"
    "queues s' = (queues s)(queue \<mapsto> \<lparr>sync = sem, front = 0, backq = 0, status_flags = 0\<rparr>)"
    "sems s' = (sems s)(sem \<mapsto> empty_semaphore 0)"
    "\<forall>i < 7. load32 (ram (hp s')) (stack + MIB 1 - 28 + 4 * word_of_nat i) = thread_stack_t ent func ext ! i"
    "links_only (tcbs s) ((tcbs s')(p := None))"
    "current_running_tcb s' = current_running_tcb s" "current_focus_tcb s' = current_focus_tcb s"
    "live (hp s) \<subseteq> live (hp s')" "\<forall>r \<in> live (hp s). \<forall>z. in_region r z \<longrightarrow> ram (hp s') z = ram (hp s) z"
    by (rule thread_create_tasking)
  have "map_option (\<lambda>t. t\<lparr>next_tcb := 0\<rparr>) (tcbs s' x) = map_option (\<lambda>t. t\<lparr>next_tcb := 0\<rparr>) (tcbs s x)" if "x \<noteq> p" for x
    using t(9) that unfolding links_only_def by (metis fun_upd_other)
  moreover have "\<forall>r \<in> live (hp s). r \<in> live (hp s') \<and> (\<forall>z. in_region r z \<longrightarrow> ram (hp s') z = ram (hp s) z)"
    using t(12,13) by blast
  ultimately show ?thesis
    using t(1-11) unfolding tasking_def thread_stack_t_def
    by (intro exI [of _ p] exI [of _ stack] exI [of _ queue] exI [of _ sem] exI [of _ s'] conjI) simp_all
qed

section \<open>The first thread\<close>

lemma list_thread_create_fresh:
  assumes "fresh_heap (32 + r) (hp s)"
  obtains m where "list_thread_create s = Inr (Some \<lparr>head = 0, tail = 0, size = 0\<rparr>, s\<lparr>hp := (hp s)\<lparr>ram := m\<rparr>\<rparr>)"
    "fresh_heap r ((hp s)\<lparr>ram := m\<rparr>)" "live ((hp s)\<lparr>ram := m\<rparr>) \<noteq> {}" "owned (hp s) \<subseteq> owned ((hp s)\<lparr>ram := m\<rparr>)"
    "\<forall>z. unat z < 0xE8000000 \<longrightarrow> m z = ram (hp s) z"
proof -
  have al: "ALIGN_SIZE 12 = 16" by (simp add: ALIGN_SIZE_def)
  have "fresh_heap (unat (ALIGN_SIZE 12) + 16 + r) (hp s)" using assms by (simp add: al)
  then obtain p m k where "malloc 12 (hp s) = Inr (p, (hp s)\<lparr>ram := m\<rparr>)" "p \<noteq> 0" "fresh_heap r ((hp s)\<lparr>ram := m\<rparr>)"
    "live ((hp s)\<lparr>ram := m\<rparr>) = insert (p, k) (live (hp s))" "owned ((hp s)\<lparr>ram := m\<rparr>) = insert p (owned (hp s))"
    "\<forall>z. unat z < 0xE8000000 \<longrightarrow> m z = ram (hp s) z"
    by (rule fresh_alloc) (simp_all add: al)
  then show thesis by (intro that [of m]) (auto simp: list_thread_create_def)
qed

text \<open>
  The block of the first thread is not cleared: the link, the times and the stack are whatever
  the memory held.
\<close>

lemma init_task_tasking:
  assumes fresh: "fresh_heap (152 + r) (hp s)" and placed: "placed s" and rest: "at_rest s"
  obtains p h t e where "init_task s = Inr (s\<lparr>threads_ready := Some e, threads_sleeping := Some e,
      threads_terminated := Some e, hp := h, tcbs := (tcbs s)(p \<mapsto> t), current_running_tcb := p,
      current_focus_tcb := p, butler := p\<rparr>)"
    "e = \<lparr>head = 0, tail = 0, size = 0\<rparr>" "p \<noteq> 0" "tcbs s p = None"
    "state t = THREAD_RUNNING" "pid t = 0" "cr3 t = cr3_reg s" "fresh_heap r h" "live h \<noteq> {}"
    "insert p (owned (hp s)) \<subseteq> owned h" "h = (hp s)\<lparr>ram := ram h\<rparr>"
    "\<forall>z. unat z < 0xE8000000 \<longrightarrow> ram h z = ram (hp s) z"
proof -
  define e where "e = \<lparr>head = 0, tail = 0, size = (0 :: u32)\<rparr>"
  have "fresh_heap (32 + (120 + r)) (hp s)" using fresh by simp
  then obtain m1 where l1: "list_thread_create s = Inr (Some e, s\<lparr>hp := (hp s)\<lparr>ram := m1\<rparr>\<rparr>)"
    "fresh_heap (120 + r) ((hp s)\<lparr>ram := m1\<rparr>)" "owned (hp s) \<subseteq> owned ((hp s)\<lparr>ram := m1\<rparr>)"
    "\<forall>z. unat z < 0xE8000000 \<longrightarrow> m1 z = ram (hp s) z"
    unfolding e_def by (rule list_thread_create_fresh)
  let ?s1 = "s\<lparr>hp := (hp s)\<lparr>ram := m1\<rparr>, threads_ready := Some e\<rparr>"
  have "fresh_heap (32 + (88 + r)) (hp ?s1)" using l1(2) by simp
  then obtain m2 where l2: "list_thread_create ?s1 = Inr (Some e, ?s1\<lparr>hp := (hp ?s1)\<lparr>ram := m2\<rparr>\<rparr>)"
    "fresh_heap (88 + r) ((hp ?s1)\<lparr>ram := m2\<rparr>)" "owned (hp ?s1) \<subseteq> owned ((hp ?s1)\<lparr>ram := m2\<rparr>)"
    "\<forall>z. unat z < 0xE8000000 \<longrightarrow> m2 z = ram (hp ?s1) z"
    unfolding e_def by (rule list_thread_create_fresh)
  let ?s2 = "s\<lparr>threads_ready := Some e, hp := (hp s)\<lparr>ram := m2\<rparr>, threads_sleeping := Some e\<rparr>"
  have "fresh_heap (32 + (56 + r)) (hp ?s2)" using l2(2) by simp
  then obtain m3 where l3: "list_thread_create ?s2 = Inr (Some e, ?s2\<lparr>hp := (hp ?s2)\<lparr>ram := m3\<rparr>\<rparr>)"
    "fresh_heap (56 + r) ((hp ?s2)\<lparr>ram := m3\<rparr>)" "live ((hp ?s2)\<lparr>ram := m3\<rparr>) \<noteq> {}"
    "owned (hp ?s2) \<subseteq> owned ((hp ?s2)\<lparr>ram := m3\<rparr>)" "\<forall>z. unat z < 0xE8000000 \<longrightarrow> m3 z = ram (hp ?s2) z"
    unfolding e_def by (rule list_thread_create_fresh)
  let ?h3 = "(hp s)\<lparr>ram := m3\<rparr>"
  have al: "ALIGN_SIZE sizeof_tcb = 40" by (simp add: ALIGN_SIZE_def sizeof_tcb_def)
  have "fresh_heap (unat (ALIGN_SIZE sizeof_tcb) + 16 + r) ?h3" using l3(2) by (simp add: al)
  then obtain p m4 k where a: "malloc sizeof_tcb ?h3 = Inr (p, ?h3\<lparr>ram := m4\<rparr>)" "p \<noteq> 0" "fresh_heap r (?h3\<lparr>ram := m4\<rparr>)"
    "live (?h3\<lparr>ram := m4\<rparr>) = insert (p, k) (live ?h3)" "p \<notin> owned ?h3"
    "owned (?h3\<lparr>ram := m4\<rparr>) = insert p (owned ?h3)" "\<forall>z. unat z < 0xE8000000 \<longrightarrow> m4 z = ram ?h3 z"
    by (rule fresh_alloc) (simp_all add: al, simp_all add: sizeof_tcb_def)
  let ?h4 = "(hp s)\<lparr>ram := m4\<rparr>"
  let ?t = "(load_tcb m4 p)\<lparr>cr3 := cr3_reg s, pid := 0, state := THREAD_RUNNING\<rparr>"
  have sub: "owned (hp s) \<subseteq> owned ?h3" using l1(3) l2(3) l3(4) by simp
  have "tcbs s p = None" using placed_new(1) [OF placed, of p] a(5) sub by blast
  moreover have "init_task s = Inr (s\<lparr>threads_ready := Some e, threads_sleeping := Some e,
      threads_terminated := Some e, hp := ?h4, tcbs := (tcbs s)(p \<mapsto> ?t), current_running_tcb := p,
      current_focus_tcb := p, butler := p\<rparr>)"
    using l1(1) l2(1) l3(1) a(1,2) by (simp add: init_task_def Let_def)
  moreover have "fresh_heap r ?h4" "live ?h4 \<noteq> {}" "insert p (owned (hp s)) \<subseteq> owned ?h4"
    using a(3,4,6) sub by auto
  moreover have "\<forall>z. unat z < 0xE8000000 \<longrightarrow> ram ?h4 z = ram (hp s) z" using l1(4) l2(4) l3(5) a(7) by simp
  ultimately show thesis using a(2) by (intro that [where p = p and h = ?h4 and t = ?t and e = e]) (simp_all add: e_def)
qed

text \<open>The static variables of the multitasking code before any of it has run.\<close>

definition no_tasks :: "kmem \<Rightarrow> sched" where
  "no_tasks h = \<lparr>tcbs = (\<lambda>_. None), sems = (\<lambda>_. None), queues = (\<lambda>_. None), packets = (\<lambda>_. None), hp = h,
     irq_on = False, halted = None, cr3_reg = 0, IRQ_disable_counter = 0, postpone_task_switches_counter = 0,
     task_switches_postponed_flag = 0, current_running_tcb = 0, current_focus_tcb = 0, butler = 0,
     threads_ready = None, threads_sleeping = None, threads_terminated = None, timer_tick = 0, last_read_tick = 0,
     idleCPUTime = 0, thread_create_counter = 1\<rparr>"

lemma no_tasks_ok: "placed (no_tasks h)" "at_rest (no_tasks h)"
  by (simp_all add: placed_def at_rest_def no_tasks_def)

lemma first_thread_tasking:
  assumes "fresh_heap (152 + r) h"
  obtains s p where "init_task (no_tasks h) = Inr s" "tasking r [] s" "current_running_tcb s = p" "p \<noteq> 0"
proof -
  have f: "fresh_heap (152 + r) (hp (no_tasks h))" using assms by (simp add: no_tasks_def)
  obtain p h' t e where i: "init_task (no_tasks h) = Inr ((no_tasks h)\<lparr>threads_ready := Some e, threads_sleeping := Some e,
      threads_terminated := Some e, hp := h', tcbs := (tcbs (no_tasks h))(p \<mapsto> t), current_running_tcb := p,
      current_focus_tcb := p, butler := p\<rparr>)"
    "e = \<lparr>head = 0, tail = 0, size = 0\<rparr>" "p \<noteq> 0" "fresh_heap r h'" "live h' \<noteq> {}" "insert p (owned h) \<subseteq> owned h'"
    by (rule init_task_tasking [OF f no_tasks_ok]) (simp add: no_tasks_def)
  show thesis
    by (rule that [OF i(1)])
      (use i(2-) in \<open>simp_all add: tasking_def at_rest_def placed_def no_tasks_def tview_def tlist_def\<close>)
qed

theorem thread_create_spec_witness:
  "\<exists>s p s' t. init_task (no_tasks (init_heap_blocks zero_kmem)) = Inr s \<and>
    thread_create 0x100 0x200 0x300 s = Inr (p, s') \<and> ready_threads s' [p] \<and> tcbs s' p = Some t \<and>
    load32 (ram (hp s')) (esp t + 4 * word_of_nat 5) = 0x300"
proof -
  have "fresh_heap (152 + (thread_room + 0)) (init_heap_blocks zero_kmem)"
    by (rule fresh_heap_mono [OF init_fresh]) (simp add: thread_room_def)
  then obtain s p where s: "init_task (no_tasks (init_heap_blocks zero_kmem)) = Inr s" "tasking (thread_room + 0) [] s"
    by (rule first_thread_tasking)
  then have "at_rest s" "ready_threads s []" "placed s" "fresh_heap (thread_room + 0) (hp s)" "live (hp s) \<noteq> {}"
    by (simp_all add: tasking_def)
  from thread_create_spec [OF this, of "0x100" "0x200" "0x300"] obtain p s' t where
    "thread_create 0x100 0x200 0x300 s = Inr (p, s')" "ready_threads s' [p]" "tcbs s' p = Some t"
    "\<forall>i < 7. load32 (ram (hp s')) (esp t + 4 * word_of_nat i) = [0, 0, 0, 0, 0x100, 0x300, 0x200] ! i"
    by (fastforce simp: new_tcb_def)
  moreover from this(4) have "load32 (ram (hp s')) (esp t + 4 * word_of_nat 5) = 0x300"
    by (elim allE [where x = 5]) simp
  ultimately show ?thesis using s(1) by blast
qed

end
