(* ===== verification/Kernel_Main.thy ===== *)
theory Kernel_Main
  imports Heap_Init Serial_Log Descriptors Keyboard Devices Thread_Create
begin

text \<open>
  \<^verbatim>\<open>src/src/Kernel.c\<close>: the main program of the kernel, which starts the components one after
  the other, and its demonstration threads. The state of the kernel joins the states of the
  components; memory and the interrupt flag, which the console and the multitasking code both
  have in their state, are handed over between them.
\<close>

section \<open>State\<close>

text \<open>
  What the compiler and the linker decide: the addresses of the tables, the entry points, the
  threads' functions and the string literals. \<open>frame\<close> is the stack buffer in which numbers are
  converted.
\<close>

record image =
  frame :: u32
  gdt_at :: u32
  idt_at :: u32
  isr_at :: "nat \<Rightarrow> u32"
  irq_at :: "nat \<Rightarrow> u32"
  heap_debug_text :: u32
  heap_text :: u32
  keyboard_text :: u32
  terminal_text :: u32
  acpi_text :: u32
  pit_text :: u32
  thread1_text :: u32
  thread2_text :: u32
  key_text :: u32
  timer_text :: u32
  thread_entry_at :: u32
  thread_exit_at :: u32
  test1_at :: u32
  test2_at :: u32
  test3_at :: u32
  test4_at :: u32

definition chars :: "string \<Rightarrow> u8 list" where
  "chars s = map (\<lambda>c. word_of_nat (of_char c)) s"

definition HEAP_DEBUG_TEXT :: "u8 list" where
  "HEAP_DEBUG_TEXT = chars ''warning Heap Address: %p'' @ [10] @ chars ''warning Heap size total %p'' @ [10] @
     chars ''warning Heap size available %p'' @ [10, 10]"

definition HEAP_TEXT :: "u8 list" where "HEAP_TEXT = chars ''info Heap initialized'' @ [10, 10]"
definition KEYBOARD_TEXT :: "u8 list" where "KEYBOARD_TEXT = chars ''info Keyboard initalized'' @ [10, 10]"
definition TERMINAL_TEXT :: "u8 list" where "TERMINAL_TEXT = chars ''info Terminal initialized.'' @ [10, 10]"
definition ACPI_TEXT :: "u8 list" where "ACPI_TEXT = chars ''Found ACPI at %p... maybe later ll be used'' @ [10]"
definition PIT_TEXT :: "u8 list" where
  "PIT_TEXT = chars ''[Kernel] PIT Interrupt initalized with div %d => %d Hz'' @ [10]"

record kernel =
  tables :: descriptor_tables
  handlers :: handler_tables
  con :: console
  sch :: sched
  test_mutex :: u32
  t1_tcb :: u32
  t2_tcb :: u32

text \<open>An operation of a component as an operation of the kernel.\<close>

definition in_console :: "(console \<Rightarrow> console res) \<Rightarrow> kernel \<Rightarrow> kernel res" where
  "in_console f k = res_bind (f (con k)) (\<lambda>c. Inr (k\<lparr>con := c\<rparr>))"

definition in_handlers :: "(handler_tables \<times> console \<Rightarrow> (handler_tables \<times> console) res) \<Rightarrow> kernel \<Rightarrow> kernel res" where
  "in_handlers f k = res_bind (f (handlers k, con k)) (\<lambda>(h, c). Inr (k\<lparr>handlers := h, con := c\<rparr>))"

definition sched_view :: "kernel \<Rightarrow> sched" where
  "sched_view k = (sch k)\<lparr>hp := sys (con k), irq_on := intr_flag (io (con k))\<rparr>"

definition put_sched :: "sched \<Rightarrow> kernel \<Rightarrow> kernel" where
  "put_sched s k = k\<lparr>sch := s, con := (con k)\<lparr>sys := hp s, io := (io (con k))\<lparr>intr_flag := irq_on s\<rparr>\<rparr>\<rparr>"

definition in_sched :: "(sched \<Rightarrow> ('a \<times> sched) res) \<Rightarrow> kernel \<Rightarrow> ('a \<times> kernel) res" where
  "in_sched f k = res_bind (f (sched_view k)) (\<lambda>(x, s). Inr (x, put_sched s k))"

definition in_sched_unit :: "(sched \<Rightarrow> sched res) \<Rightarrow> kernel \<Rightarrow> kernel res" where
  "in_sched_unit f k = res_bind (f (sched_view k)) (\<lambda>s. Inr (put_sched s k))"

section \<open>Start-up\<close>

text \<open>
  \<^verbatim>\<open>init_heap\<close> with its messages (\<^verbatim>\<open>DEBUG\<close> is set in the makefile), \<^verbatim>\<open>heap->heap_start\<close> and
  \<^verbatim>\<open>free->size\<close> read from the new heap.
\<close>

definition init_heap_log :: "image \<Rightarrow> console \<Rightarrow> console res" where
  "init_heap_log im c =
     res_bind (init_heap (sys c)) (\<lambda>s.
     res_bind (print (frame im) SERIAL (heap_debug_text im)
       [load32 (ram s) HEAP_SPACE, HEAP_SIZE, b_size (read_block (ram s) FIRST)] (c\<lparr>sys := s\<rparr>)) (\<lambda>(i, c).
     res_bind (print (frame im) SERIAL (heap_text im) [] c) (\<lambda>(i, c). Inr c)))"

text \<open>\<^verbatim>\<open>Main\<close> up to \<^verbatim>\<open>init_acpi\<close>, from \<^verbatim>\<open>init_task\<close> to
  \<^verbatim>\<open>create_mutex\<close>, and the four threads with the focus.\<close>

definition main_memory :: "image \<Rightarrow> kernel \<Rightarrow> kernel res" where
  "main_memory im k =
     res_bind (init_gdt (gdt_at im) (tables k)) (\<lambda>t.
     let (t, m) = init_idt (idt_at im) (isr_at im) (irq_at im) (t, io (con k));
         k = k\<lparr>tables := t, con := (con k)\<lparr>io := m\<rparr>\<rparr>
     in res_bind (init_paging (handlers k, sys (con k))) (\<lambda>(h, s).
        in_console (init_heap_log im) (k\<lparr>handlers := h, con := (con k)\<lparr>sys := s\<rparr>\<rparr>)))"

definition main_devices :: "image \<Rightarrow> kernel \<Rightarrow> kernel res" where
  "main_devices im k =
     res_bind (in_handlers (init_keyboard (frame im) (keyboard_text im)) k) (\<lambda>k.
     res_bind (in_console (init_terminal (frame im) (terminal_text im)) k) (\<lambda>k.
       in_console (init_acpi (frame im) (acpi_text im)) k))"

definition main_tasking :: "image \<Rightarrow> kernel \<Rightarrow> kernel res" where
  "main_tasking im k =
     res_bind (in_sched_unit init_task k) (\<lambda>k.
     res_bind (in_handlers (\<lambda>x. res_bind (init_pit (frame im) (pit_text im) 1000 x) (\<lambda>(hz, x). Inr x)) k) (\<lambda>k.
     res_bind (in_sched create_mutex k) (\<lambda>(test, k). Inr (k\<lparr>test_mutex := test\<rparr>))))"

definition main_threads :: "image \<Rightarrow> kernel \<Rightarrow> kernel res" where
  "main_threads im k =
     (let create = (\<lambda>f. in_sched (thread_create (thread_entry_at im) (thread_exit_at im) f))
      in res_bind (create (test3_at im) k) (\<lambda>(p, k).
         res_bind (create (test4_at im) k) (\<lambda>(p, k).
         res_bind (create (test2_at im) k) (\<lambda>(t2, k).
         res_bind (create (test1_at im) (k\<lparr>t2_tcb := t2\<rparr>)) (\<lambda>(t1, k).
           let k = k\<lparr>t1_tcb := t1\<rparr>
           in Inr (k\<lparr>sch := (sch k)\<lparr>current_focus_tcb := t1\<rparr>\<rparr>))))))"

text \<open>\<^verbatim>\<open>Main\<close> until its first round as the butler has ended.\<close>

definition Main :: "image \<Rightarrow> kernel \<Rightarrow> kernel res" where
  "Main im k =
     res_bind (main_memory im k) (\<lambda>k.
     res_bind (main_devices im k) (\<lambda>k.
     res_bind (main_tasking im k) (\<lambda>k.
     res_bind (main_threads im k) (\<lambda>k.
       in_sched_unit butler_round k))))"

section \<open>The demonstration threads\<close>

definition KEY_RELEASED_f1 :: u16 where "KEY_RELEASED_f1 = 0xbb"
definition KEY_RELEASED_f2 :: u16 where "KEY_RELEASED_f2 = 0xbc"

text \<open>The argument is a \<^verbatim>\<open>u32\<close>, compared with character constants.\<close>

definition IS_WRITTABLE :: "u32 \<Rightarrow> bool" where
  "IS_WRITTABLE x \<longleftrightarrow> 65 \<le> x \<and> x \<le> 90 \<or> 97 \<le> x \<and> x \<le> 122 \<or> x = 32 \<or> x = 10"

text \<open>
  A round of \<^verbatim>\<open>test1\<close> and \<^verbatim>\<open>test2\<close> up to its wait: the prompt in column \<open>x\<close>, and the semaphore of
  the thread's own queue.
\<close>

definition reader_wait :: "image \<Rightarrow> u32 \<Rightarrow> u32 \<Rightarrow> u32 \<Rightarrow> nat \<Rightarrow> kernel \<Rightarrow> kernel res" where
  "reader_wait im x fmt own line k =
     res_bind (print_at (frame im) TERMINAL x 0 fmt [current_focus_tcb (sch k)] (con k)) (\<lambda>(i, c).
     let k = k\<lparr>con := c\<rparr>
     in in_sched_unit (\<lambda>s.
          res_bind (thread_at ''src/Kernel.c'' line own s) (\<lambda>t.
          res_bind (queue_at ''src/Kernel.c'' line (kbp_queue t) s) (\<lambda>q.
            wait_semaphore (sync q) s))) k)"

text \<open>
  The rest of the round, when the wait is over: the packet is taken from the queue of the
  focused thread, the key \<open>switch_key\<close> gives the focus to \<open>other\<close>, a printable character is shown on
  the next line up to line 24, and the packet is freed. The status of the packet points into
  the queue it was put into; it is passed on as 16 bits, extended with zeros.
\<close>

definition packet_status :: "nat \<Rightarrow> KBP \<Rightarrow> sched \<Rightarrow> u32 res" where
  "packet_status line p s =
     res_bind (queue_at ''src/Kernel.c'' line (status p - 12) s) (\<lambda>q. Inr (ucast (status_flags q)))"

definition reader_key :: "image \<Rightarrow> u32 \<Rightarrow> u16 \<Rightarrow> u32 \<Rightarrow> nat \<Rightarrow> nat \<Rightarrow> u32 \<times> kernel \<Rightarrow> (u32 \<times> kernel) res" where
  "reader_key im x switch_key other num shown = (\<lambda>(line, k).
     res_bind (in_sched key_queue_pop k) (\<lambda>(packet, k).
     res_bind (deref ''src/Kernel.c'' num (packets (sch k)) packet) (\<lambda>p.
       let k = (if key_code p = switch_key
                then put_sched (unlock_scheduler ((lock_scheduler (sched_view k))\<lparr>current_focus_tcb := other\<rparr>)) k
                else k)
       in res_bind
            (if IS_WRITTABLE (unicode_code p) then
               let (row, line) = (if line < 24 then (line, line + 1) else (line, line))
               in res_bind (packet_status shown p (sch k)) (\<lambda>st.
                  res_bind (print_at (frame im) TERMINAL x row (key_text im) [unicode_code p, st] (con k)) (\<lambda>(i, c).
                    Inr (line, k\<lparr>con := c\<rparr>)))
             else Inr (line, k)) (\<lambda>(line, k).
          res_bind (in_sched_unit (free_object packet) k) (\<lambda>k. Inr (line, k))))))"

definition test1_wait :: "image \<Rightarrow> kernel \<Rightarrow> kernel res" where
  "test1_wait im k = reader_wait im 0 (thread1_text im) (t1_tcb k) 26 k"

definition test1_key :: "image \<Rightarrow> u32 \<times> kernel \<Rightarrow> (u32 \<times> kernel) res" where
  "test1_key im = (\<lambda>(line, k). reader_key im 0 KEY_RELEASED_f2 (t2_tcb k) 29 39 (line, k))"

definition test2_wait :: "image \<Rightarrow> kernel \<Rightarrow> kernel res" where
  "test2_wait im k = reader_wait im 40 (thread2_text im) (t2_tcb k) 50 k"

definition test2_key :: "image \<Rightarrow> u32 \<times> kernel \<Rightarrow> (u32 \<times> kernel) res" where
  "test2_key im = (\<lambda>(line, k). reader_key im 40 KEY_RELEASED_f1 (t1_tcb k) 53 62 (line, k))"

text \<open>\<^verbatim>\<open>test3\<close> and \<^verbatim>\<open>test4\<close> count seconds; what follows the sleep of \<^verbatim>\<open>test3\<close> is its own step.\<close>

definition timer_tick_at :: "image \<Rightarrow> u32 \<Rightarrow> i32 \<times> kernel \<Rightarrow> (i32 \<times> kernel) res" where
  "timer_tick_at im x = (\<lambda>(time, k).
     let time = time + 1
     in res_bind (print_at (frame im) TERMINAL x 0 (timer_text im) [time] (con k)) (\<lambda>(i, c).
        res_bind (in_sched_unit (Thread_Time.sleep 1) (k\<lparr>con := c\<rparr>)) (\<lambda>k. Inr (time, k))))"

definition test3_count :: "image \<Rightarrow> i32 \<times> kernel \<Rightarrow> (i32 \<times> kernel) res" where
  "test3_count im = timer_tick_at im 30"

definition TERMINAL_COLOR_BLUE_SCREEN_OF_DEATH :: u8 where "TERMINAL_COLOR_BLUE_SCREEN_OF_DEATH = 0x1F"

definition test3_color :: "i32 \<Rightarrow> console \<Rightarrow> console" where
  "test3_color time c =
     (let c = (if sint time mod 5 = 0 then terminal_setcolor TERMINAL_COLOR_BLUE_SCREEN_OF_DEATH c else c)
      in if sint time mod 10 = 0 then terminal_setcolor TERMINAL_COLOR_DOS_DEFAULT c else c)"

definition test4_begin :: "kernel \<Rightarrow> kernel res" where
  "test4_begin k = in_sched_unit (Thread_Time.sleep 3) k"

definition test4_count :: "image \<Rightarrow> i32 \<times> kernel \<Rightarrow> (i32 \<times> kernel) res" where
  "test4_count im = timer_tick_at im 20"

end
