(* ===== verification/Kernel_Start.thy ===== *)
theory Kernel_Start
  imports Kernel_Main
begin

text \<open>
  The start of the kernel (\<^verbatim>\<open>Main\<close> in \<^verbatim>\<open>src/src/Kernel.c\<close>): what each step needs of the memory and
  the devices is kept by the steps before it, so that \<^verbatim>\<open>Main\<close> reaches the first demonstration
  thread.
\<close>

section \<open>Words and bytes\<close>

lemma load32_byte:
  "m a = ucast (load32 m a)" "m (a + 1) = ucast (drop_bit 8 (load32 m a))"
  "m (a + 2) = ucast (drop_bit 16 (load32 m a))" "m (a + 3) = ucast (drop_bit 24 (load32 m a))"
  by (rule bit_word_eqI, auto simp: load32_def bit_simps dest: bit_imp_le_length)+

lemma load32_eq_bytes: "load32 m a = load32 m' a \<Longrightarrow> k \<in> {0, 1, 2, 3} \<Longrightarrow> m (a + k) = m' (a + k)"
  by (metis add.right_neutral insertE load32_byte singletonD)

lemma same_words_byte:
  assumes "same_words P s t" "P (unat z div 4 * 4)"
  shows "ram t z = ram s z"
proof -
  define a :: u32 where "a = word_of_nat (unat z div 4 * 4)"
  have le: "unat z div 4 * 4 \<le> unat z" by simp
  have u: "unat a = unat z div 4 * 4"
    unfolding a_def by (rule u32_of_nat) (rule le_less_trans [OF le unat_u32_less])
  have "z - a \<in> {0, 1, 2, 3}"
  proof -
    have "unat (z - a) = unat z mod 4" using u le by (simp add: u32_sub_nowrap minus_div_mult_eq_mod)
    moreover have "unat z mod 4 < 4" by simp
    ultimately have "unat (z - a) = 0 \<or> unat (z - a) = 1 \<or> unat (z - a) = 2 \<or> unat (z - a) = 3" by linarith
    then show ?thesis by (elim disjE) (simp_all add: word_unat_eq_iff)
  qed
  moreover have "load32 (ram t) a = load32 (ram s) a"
    using assms u by (intro same_wordsD [OF assms(1)]) (simp_all add: aligned4_def)
  ultimately show ?thesis using load32_eq_bytes [of "ram t" a "ram s" "z - a"] by simp
qed

lemma word_bytes_above:
  assumes "aligned4 a" "z \<in> {a, a + 1, a + 2, a + 3}"
  shows "unat a \<le> unat z"
proof -
  obtain k where k: "unat a = 4 * k" using assms(1) by (metis aligned4_def mod_eq_0_iff_dvd dvdE)
  then have "unat a \<le> 4294967292" using unat_u32_less [of a] unfolding k by presburger
  then show ?thesis using assms(2) by (auto simp: u32_add_nowrap)
qed

lemma same_words_of_bytes:
  assumes "\<And>a z. P (unat a) \<Longrightarrow> aligned4 a \<Longrightarrow> z \<in> {a, a + 1, a + 2, a + 3} \<Longrightarrow> ram t z = ram s z"
  shows "same_words P s t"
  unfolding same_words_def by (intro allI impI load32_cong assms) auto

section \<open>A heap nobody touches\<close>

lemma heap_inv_same:
  assumes inv: "heap_inv bs s" and eq: "heap_ptr t = heap_ptr s"
    and same: "same_words (\<lambda>n. 0xE8000000 \<le> n \<and> n < 0xF0000000) s t"
  shows "heap_inv bs t"
proof -
  have w: "load32 (ram t) (a + k) = load32 (ram s) (a + k)" if "hdr a" "k \<in> {0, 4, 8, 12}" for a k
  proof (rule same_wordsD [OF same])
    show "aligned4 (a + k)" "0xE8000000 \<le> unat (a + k) \<and> unat (a + k) < 0xF0000000"
      using hdr_field [OF that] that by (auto simp: hdr_def)
  qed
  have r: "read_block (ram t) a = read_block (ram s) a" if "hdr a" for a
    using w [OF that, of 0] w [OF that, of 4] w [OF that, of 8] w [OF that, of 12] by (simp add: read_block_def)
  have h: "heap_head (ram t) HEAP_SPACE = heap_head (ram s) HEAP_SPACE"
    "heap_tail (ram t) HEAP_SPACE = heap_tail (ram s) HEAP_SPACE"
    unfolding heap_head_def heap_tail_def
    by (rule same_wordsD [OF same], simp_all add: HEAP_SPACE_def aligned4_def)+
  have "blocks (ram t) HEAD FIRST bs = blocks (ram s) HEAD FIRST bs"
  proof (rule blocks_cong)
    note P = heap_inv_parts [OF inv]
    show "read_block (ram t) x = read_block (ram s) x" if "(x, sz, f) \<in> set bs" for x sz f
      using blocks_headers(1) [OF P(8), of x] that by (intro r) force
  qed (simp add: r)
  then show ?thesis using inv r h eq by (simp add: heap_inv_def)
qed

lemma fresh_same:
  assumes "fresh_heap r s" "heap_ptr t = heap_ptr s" "same_words (\<lambda>n. 0xE8000000 \<le> n \<and> n < 0xF0000000) s t"
  shows "fresh_heap r t" and "live t = live s" and "owned t = owned s"
proof -
  from assms(1) obtain bs where inv: "heap_inv bs s" by (auto simp: fresh_heap_def)
  show "fresh_heap r t"
    using assms(1) heap_inv_same [OF _ assms(2,3)] unfolding fresh_heap_def by blast
  show "live t = live s" using live_eq [OF inv] live_eq [OF heap_inv_same [OF inv assms(2,3)]] by simp
  then show "owned t = owned s" by (simp add: owned_def)
qed

section \<open>Messages of the start-up code\<close>

text \<open>
  A string literal lies in the image of the kernel, below the heap and outside of the buffer
  in which numbers are converted.
\<close>

definition text_at :: "image \<Rightarrow> mem \<Rightarrow> u32 \<Rightarrow> u8 list \<Rightarrow> bool" where
  "text_at im m f s \<longleftrightarrow> f \<noteq> 0 \<and> cstr m f s \<and> unat f + length s < 0xE8000000 \<and> outside (frame im) f (length s)"

definition image_texts :: "image \<Rightarrow> (u32 \<times> u8 list) list" where
  "image_texts im = [(heap_debug_text im, HEAP_DEBUG_TEXT), (heap_text im, HEAP_TEXT), (keyboard_text im, KEYBOARD_TEXT),
     (terminal_text im, TERMINAL_TEXT), (acpi_text im, ACPI_TEXT), (pit_text im, PIT_TEXT)]"

definition speaks :: "image \<Rightarrow> console \<Rightarrow> bool" where
  "speaks im c \<longleftrightarrow> frame im \<noteq> 0 \<and> unat (frame im) + 32 \<le> 0xE8000000 \<and> transmits (io c) \<and>
     serial_initalized c \<noteq> 0 \<and> (\<forall>(f, s) \<in> set (image_texts im). text_at im (ram (sys c)) f s)"

lemma text_at_keep:
  assumes "text_at im m f s" "\<And>z. unat z < 0xE8000000 \<Longrightarrow> 32 \<le> unat (z - frame im) \<Longrightarrow> m' z = m z"
  shows "text_at im m' f s"
proof -
  have "cstr m' f s"
  proof (rule cstr_cong)
    show "cstr m f s" using assms(1) by (simp add: text_at_def)
    show "m' (f + word_of_nat k) = m (f + word_of_nat k)" if "k \<le> length s" for k
    proof (rule assms(2))
      have "unat (word_of_nat k :: u32) = k" using assms(1) that by (intro u32_of_nat) (simp add: text_at_def)
      then have "unat (f + word_of_nat k) = unat f + k"
        using assms(1) that by (simp add: text_at_def u32_add_nowrap)
      then show "unat (f + word_of_nat k) < 0xE8000000" using assms(1) that by (simp add: text_at_def)
      show "32 \<le> unat (f + word_of_nat k - frame im)" using assms(1) that by (simp add: text_at_def outside_def)
    qed
  qed
  then show ?thesis using assms(1) by (simp add: text_at_def)
qed

lemma speaks_keep:
  assumes "speaks im c" "dev (io c') = dev (io c)" "serial_initalized c' = serial_initalized c"
    and "\<And>z. unat z < 0xE8000000 \<Longrightarrow> 32 \<le> unat (z - frame im) \<Longrightarrow> ram (sys c') z = ram (sys c) z"
  shows "speaks im c'"
  using assms text_at_keep [of im "ram (sys c)" _ _ "ram (sys c')"] by (fastforce simp: speaks_def transmits_def)

lemma speaks_logged: "speaks im c \<Longrightarrow> logged (frame im) c c' \<Longrightarrow> speaks im c'"
  by (erule speaks_keep) (simp_all only: loggedD(1,3,5))

text \<open>A message changes nothing from the heap upwards.\<close>

lemma logged_same:
  assumes "logged (frame im) c c'" "speaks im c"
  shows "same_words (\<lambda>n. 0xE8000000 \<le> n) (sys c) (sys c')"
proof (rule same_words_of_bytes)
  fix a z :: u32 assume a: "0xE8000000 \<le> unat a" "aligned4 a" "z \<in> {a, a + 1, a + 2, a + 3}"
  have fr: "unat (frame im) + 32 \<le> 0xE8000000" using assms(2) by (simp add: speaks_def)
  have "0xE8000000 \<le> unat z" using word_bytes_above [OF a(2,3)] a(1) by simp
  then have "32 \<le> unat (z - frame im)" using fr by (simp add: u32_sub_nowrap)
  then show "ram (sys c') z = ram (sys c) z" using loggedD(5) [OF assms(1)] by simp
qed

lemma say:
  assumes "speaks im c" "(f, s) \<in> set (image_texts im)" "log_format s va"
  obtains c' n where "print (frame im) SERIAL f va c = Inr (n, c')" "logged (frame im) c c'" "speaks im c'"
proof -
  have t: "text_at im (ram (sys c)) f s" using assms(1,2) by (fastforce simp: speaks_def)
  obtain c' where "print (frame im) SERIAL f va c = Inr (word_of_nat (length s), c')" "logged (frame im) c c'"
    by (rule print_logged [OF assms(3), of c f "frame im"]) (use t assms(1) in \<open>auto simp: text_at_def speaks_def\<close>)
  then show thesis using that speaks_logged [OF assms(1)] by blast
qed

lemma text_formats [simp]:
  "log_format HEAP_DEBUG_TEXT [x, y, z]" "log_format HEAP_TEXT []" "log_format KEYBOARD_TEXT []"
  "log_format TERMINAL_TEXT []" "log_format ACPI_TEXT [x]" "log_format PIT_TEXT [x, y]"
  by (simp_all add: HEAP_DEBUG_TEXT_def HEAP_TEXT_def KEYBOARD_TEXT_def TERMINAL_TEXT_def ACPI_TEXT_def PIT_TEXT_def
      chars_def)

section \<open>The multitasking code in the kernel\<close>

lemma put_sched_simps [simp]:
  "sched_view (put_sched s k) = s" "con (put_sched s k) = (con k)\<lparr>sys := hp s, io := (io (con k))\<lparr>intr_flag := irq_on s\<rparr>\<rparr>"
  "handlers (put_sched s k) = handlers k" "tables (put_sched s k) = tables k" "t1_tcb (put_sched s k) = t1_tcb k"
  "t2_tcb (put_sched s k) = t2_tcb k" "test_mutex (put_sched s k) = test_mutex k" "sch (put_sched s k) = s"
  by (simp_all add: put_sched_def sched_view_def)

lemma sched_view_simps [simp]:
  "sched_view (k\<lparr>test_mutex := x\<rparr>) = sched_view k" "sched_view (k\<lparr>t1_tcb := x\<rparr>) = sched_view k"
  "sched_view (k\<lparr>t2_tcb := x\<rparr>) = sched_view k" "sched_view (k\<lparr>handlers := h\<rparr>) = sched_view k"
  "sched_view (k\<lparr>con := c\<rparr>) = (sched_view k)\<lparr>hp := sys c, irq_on := intr_flag (io c)\<rparr>"
  by (simp_all add: sched_view_def)

lemma tasking_same:
  assumes "tasking r xs s" "heap_ptr h = heap_ptr (hp s)" "same_words (\<lambda>n. 0xE8000000 \<le> n \<and> n < 0xF0000000) (hp s) h"
  shows "tasking r xs (s\<lparr>hp := h, irq_on := b\<rparr>)"
proof -
  have "fresh_heap r (hp s)" using assms(1) by (simp add: tasking_def)
  from fresh_same [OF this assms(2,3)] assms(1) show ?thesis
    by (simp add: tasking_def at_rest_def placed_def)
qed

text \<open>The thread \<open>p\<close> has its stack, with the frame that enters \<open>func\<close> on top of it.\<close>

definition starts :: "image \<Rightarrow> sched \<Rightarrow> u32 \<Rightarrow> u32 \<Rightarrow> bool" where
  "starts im s func p \<longleftrightarrow> (\<exists>t k. tcbs s p = Some t \<and> state t = THREAD_RUNNING \<and> esp t = stack_alloc_ptr t + MIB 1 - 28 \<and>
     (stack_alloc_ptr t, k) \<in> live (hp s) \<and> 0x100000 \<le> unat k \<and>
     (\<forall>i < 7. load32 (ram (hp s)) (esp t + 4 * word_of_nat i) =
        [0, 0, 0, 0, thread_entry_at im, func, thread_exit_at im] ! i))"

lemma starts_kept:
  assumes st: "starts im s func p" and ok: "heap_ok (hp s)" and sub: "live (hp s) \<subseteq> live (hp s')"
    and mem: "\<forall>r \<in> live (hp s). \<forall>z. in_region r z \<longrightarrow> ram (hp s') z = ram (hp s) z"
    and tcb: "map_option core (tcbs s' p) = map_option core (tcbs s p)"
  shows "starts im s' func p"
proof -
  from st obtain t k where t: "tcbs s p = Some t" "state t = THREAD_RUNNING" "esp t = stack_alloc_ptr t + MIB 1 - 28"
    "(stack_alloc_ptr t, k) \<in> live (hp s)" "0x100000 \<le> unat k"
    and w: "\<forall>i < 7. load32 (ram (hp s)) (esp t + 4 * word_of_nat i) =
        [0, 0, 0, 0, thread_entry_at im, func, thread_exit_at im] ! i" by (auto simp: starts_def)
  obtain t' where t': "tcbs s' p = Some t'" "core t' = core t" using tcb t(1) by (auto simp: map_option_case split: option.splits)
  have "load32 (ram (hp s')) (esp t + 4 * word_of_nat i) = load32 (ram (hp s)) (esp t + 4 * word_of_nat i)" if i: "i < 7" for i
  proof (rule load32_cong)
    fix z assume z: "z \<in> {esp t + 4 * word_of_nat i, esp t + 4 * word_of_nat i + 1, esp t + 4 * word_of_nat i + 2,
      esp t + 4 * word_of_nat i + 3}"
    then obtain j where j: "j < 4" "z = stack_alloc_ptr t + word_of_nat (1048548 + 4 * i + j)"
      unfolding t(3) by (auto simp: MIB_1 intro: that [of 0] that [of 1] that [of 2] that [of 3])
    have "in_region (stack_alloc_ptr t, k) z"
      unfolding j(2) using t(5) i j(1) by (intro in_region_add(1) [OF ok t(4)]) simp
    then show "ram (hp s') z = ram (hp s) z" using mem t(4) by blast
  qed
  then show ?thesis
    unfolding starts_def using t' t sub w
    by (intro exI [of _ t'] exI [of _ k]) (cases t; cases t'; auto simp: core_def)
qed

lemma create_mutex_tasking:
  assumes "tasking (32 + r) xs s"
  obtains p s' where "create_mutex s = Inr (p, s')" "tasking r xs s'" "sems s' = (sems s)(p \<mapsto> empty_semaphore 1)"
    "tcbs s' = tcbs s" "current_running_tcb s' = current_running_tcb s" "butler s' = butler s"
    "threads_terminated s' = threads_terminated s"
proof -
  have "fresh_heap (32 + r) (hp s)" using assms by (simp add: tasking_def)
  then obtain p m k where c: "create_semaphore 1 s
      = Inr (p, s\<lparr>hp := (hp s)\<lparr>ram := m\<rparr>, sems := (sems s)(p \<mapsto> empty_semaphore 1)\<rparr>)"
    "fresh_heap r ((hp s)\<lparr>ram := m\<rparr>)" "live ((hp s)\<lparr>ram := m\<rparr>) = insert (p, k) (live (hp s))"
    "owned ((hp s)\<lparr>ram := m\<rparr>) = insert p (owned (hp s))" by (rule create_semaphore_fresh)
  let ?s' = "s\<lparr>hp := (hp s)\<lparr>ram := m\<rparr>, sems := (sems s)(p \<mapsto> empty_semaphore 1)\<rparr>"
  have "tasking r xs ?s'" using assms c(2-4) by (auto simp: tasking_def at_rest_def placed_def)
  then show thesis using c(1) by (intro that [of p ?s']) (simp_all add: create_mutex_def)
qed

lemma create_step:
  assumes task: "tasking (thread_room + r) xs (sched_view k)"
    and old: "\<forall>(f, x) \<in> set fs. starts im (sched_view k) f x"
  obtains p s' where "in_sched (thread_create (thread_entry_at im) (thread_exit_at im) func) k = Inr (p, put_sched s' k)"
    "tasking r (xs @ [p]) s'" "tcbs (sched_view k) p = None" "\<forall>(f, x) \<in> set ((func, p) # fs). starts im s' f x"
    "\<And>x. x \<noteq> p \<Longrightarrow> tstatus s' x = tstatus (sched_view k) x"
    "current_running_tcb s' = current_running_tcb (sched_view k)" "butler s' = butler (sched_view k)"
    "threads_terminated s' = threads_terminated (sched_view k)" "irq_on s'"
proof -
  let ?s = "sched_view k"
  obtain p stack queue sem s' where
    t: "thread_create (thread_entry_at im) (thread_exit_at im) func ?s = Inr (p, s')" "tasking r (xs @ [p]) s'"
      "tcbs ?s p = None" "irq_on s'" "tcbs s' p = Some (new_tcb stack queue (thread_create_counter ?s) (cr3_reg ?s))"
    and frame: "\<forall>i < 7. load32 (ram (hp s')) (stack + MIB 1 - 28 + 4 * word_of_nat i)
        = thread_stack_t (thread_entry_at im) func (thread_exit_at im) ! i"
    and links: "links_only (tcbs ?s) ((tcbs s')(p := None))"
    and same: "current_running_tcb s' = current_running_tcb ?s" "butler s' = butler ?s"
      "threads_terminated s' = threads_terminated ?s"
    and live: "live (hp ?s) \<subseteq> live (hp s')" "\<exists>k. (stack, k) \<in> live (hp s') \<and> 0x100000 \<le> unat k"
      "\<forall>r \<in> live (hp ?s). \<forall>z. in_region r z \<longrightarrow> ram (hp s') z = ram (hp ?s) z"
    by (rule thread_create_tasking [OF task])
  have cores: "map_option core (tcbs s' x) = map_option core (tcbs ?s x)" if "x \<noteq> p" for x
    using links_only_cores [OF links] that unfolding same_cores_def by (metis fun_upd_other)
  have ok: "heap_ok (hp ?s)" using task fresh_heap_ok by (auto simp: tasking_def)
  have "starts im s' f x" if fx: "(f, x) \<in> set fs" for f x
  proof -
    have st: "starts im ?s f x" using old fx by blast
    then have "x \<noteq> p" using t(3) by (auto simp: starts_def)
    then show ?thesis using starts_kept [OF st ok live(1,3)] cores by blast
  qed
  moreover have "starts im s' func p"
    unfolding starts_def using t(5) live(2) frame by (auto simp: new_tcb_def thread_stack_t_def)
  ultimately have st: "\<forall>(f, x) \<in> set ((func, p) # fs). starts im s' f x" by auto
  have status: "tstatus s' x = tstatus ?s x" if "x \<noteq> p" for x
    using same_cores_status [OF links_only_cores [OF links], of x] that by (simp add: tstatus_def)
  show thesis by (rule that [OF _ t(2,3) st status same t(4)]) (simp_all add: in_sched_def t(1))
qed

section \<open>The threads\<close>

lemma old_thread:
  assumes "tstatus s x = Some st" "tcbs s p = None" "\<And>x. x \<noteq> p \<Longrightarrow> tstatus s' x = tstatus s x"
  shows "x \<noteq> p" "tstatus s' x = Some st"
proof -
  show "x \<noteq> p" using assms(1,2) by (auto simp: tstatus_def)
  with assms(1,3) show "tstatus s' x = Some st" by simp
qed

lemma init_pit_logged:
  assumes "speaks im c" and "tables_wf h"
  obtains c' where "init_pit (frame im) (pit_text im) 1000 (h, c)
      = Inr (1000, h\<lparr>IrqCalls := (IrqCalls h)[0 := Some pit_interrupt_handler]\<rparr>, c')"
    "heap_ptr (sys c') = heap_ptr (sys c)" "same_words (\<lambda>n. 0xE8000000 \<le> n) (sys c) (sys c')" "speaks im c'"
proof -
  define m0 where "m0 = out_all [(PIT_COMMAND, PIT_SETTING), (PIT_CHANNEL_0, ucast (pit_div_find_best 1000 AND 0xFF)),
    (PIT_CHANNEL_0, ucast (drop_bit 8 (pit_div_find_best 1000)))] (io c)"
  obtain m where m: "irq_new_call PROGRAMMABLE_INTERRUPT_TIMER_LINE pit_interrupt_handler (h, m0)
      = Inr (h\<lparr>IrqCalls := (IrqCalls h)[0 := Some pit_interrupt_handler]\<rparr>, m)" "dev m = dev (io c)"
    using assms(2) by (auto simp: irq_new_call_def PROGRAMMABLE_INTERRUPT_TIMER_LINE_def m0_def out_def in_port_def Let_def
        cli_def sti_def tables_wf_def)
  have sp: "speaks im (c\<lparr>io := m\<rparr>)" by (rule speaks_keep [OF assms(1)]) (simp_all add: m(2))
  obtain c' n where c': "print (frame im) SERIAL (pit_text im) [ucast (pit_div_find_best 1000), 1000] (c\<lparr>io := m\<rparr>) = Inr (n, c')"
    "logged (frame im) (c\<lparr>io := m\<rparr>) c'" "speaks im c'"
    by (rule say [OF sp, of "pit_text im" PIT_TEXT], simp add: image_texts_def, rule text_formats)
  have "heap_ptr (sys c') = heap_ptr (sys c)" using arg_cong [OF loggedD(6) [OF c'(2)], of heap_ptr] by simp
  moreover have "same_words (\<lambda>n. 0xE8000000 \<le> n) (sys c) (sys c')" using logged_same [OF c'(2) sp] by simp
  ultimately show thesis using that c'(1,3) m(1) by (simp add: init_pit_def m0_def Let_def)
qed

lemma main_tasking_run:
  assumes speaks: "speaks im (con k)" and quiet: "placed (sched_view k)" "at_rest (sched_view k)"
    and fresh: "fresh_heap (184 + r) (sys (con k))" and tables: "tables_wf (handlers k)"
  obtains boss k' where "main_tasking im k = Inr k'" "tasking r [] (sched_view k')"
    "current_running_tcb (sched_view k') = boss" "butler (sched_view k') = boss" "boss \<noteq> 0"
    "tstatus (sched_view k') boss = Some THREAD_RUNNING"
    "threads_terminated (sched_view k') = Some \<lparr>head = 0, tail = 0, size = 0\<rparr>"
    "handlers k' = (handlers k)\<lparr>IrqCalls := (IrqCalls (handlers k))[0 := Some pit_interrupt_handler]\<rparr>"
    "tables k' = tables k"
proof -
  let ?s = "sched_view k"
  define e where "e = \<lparr>head = 0, tail = 0, size = (0 :: u32)\<rparr>"
  have "fresh_heap (152 + (32 + r)) (hp ?s)" using fresh by (simp add: sched_view_def)
  then obtain boss h t where i: "init_task ?s = Inr (?s\<lparr>threads_ready := Some e, threads_sleeping := Some e,
      threads_terminated := Some e, hp := h, tcbs := (tcbs ?s)(boss \<mapsto> t), current_running_tcb := boss,
      current_focus_tcb := boss, butler := boss\<rparr>)"
    "boss \<noteq> 0" "state t = THREAD_RUNNING" "fresh_heap (32 + r) h" "live h \<noteq> {}" "insert boss (owned (hp ?s)) \<subseteq> owned h"
    "\<forall>z. unat z < 0xE8000000 \<longrightarrow> ram h z = ram (hp ?s) z"
    unfolding e_def by (rule init_task_tasking [OF _ quiet]) metis
  define s1 where "s1 = ?s\<lparr>threads_ready := Some e, threads_sleeping := Some e, threads_terminated := Some e, hp := h,
    tcbs := (tcbs ?s)(boss \<mapsto> t), current_running_tcb := boss, current_focus_tcb := boss, butler := boss\<rparr>"
  let ?k1 = "put_sched s1 k"
  have t1: "tasking (32 + r) [] s1"
    using quiet i(4-6) by (auto simp: s1_def e_def tasking_def at_rest_def placed_def tview_def tlist_def)
  have sp: "speaks im (con ?k1)"
    by (rule speaks_keep [OF speaks]) (use i(7) in \<open>simp_all add: s1_def sched_view_def\<close>)
  obtain c2 where c2: "init_pit (frame im) (pit_text im) 1000 (handlers k, con ?k1)
      = Inr (1000, (handlers k)\<lparr>IrqCalls := (IrqCalls (handlers k))[0 := Some pit_interrupt_handler]\<rparr>, c2)"
    "heap_ptr (sys c2) = heap_ptr (hp s1)" "same_words (\<lambda>n. 0xE8000000 \<le> n) (hp s1) (sys c2)"
    by (rule init_pit_logged [OF sp tables]) simp
  let ?k2 = "?k1\<lparr>handlers := (handlers k)\<lparr>IrqCalls := (IrqCalls (handlers k))[0 := Some pit_interrupt_handler]\<rparr>, con := c2\<rparr>"
  have v2: "sched_view ?k2 = s1\<lparr>hp := sys c2, irq_on := intr_flag (io c2)\<rparr>" by (simp add: sched_view_def)
  have "tasking (32 + r) [] (sched_view ?k2)"
    unfolding v2 by (rule tasking_same [OF t1 c2(2) same_words_mono [OF c2(3)]]) simp
  then obtain mutex s3 where m: "create_mutex (sched_view ?k2) = Inr (mutex, s3)" "tasking r [] s3"
    "tcbs s3 = tcbs (sched_view ?k2)" "current_running_tcb s3 = current_running_tcb (sched_view ?k2)"
    "butler s3 = butler (sched_view ?k2)" "threads_terminated s3 = threads_terminated (sched_view ?k2)"
    by (rule create_mutex_tasking)
  show thesis
  proof (rule that [of "(put_sched s3 ?k2)\<lparr>test_mutex := mutex\<rparr>" boss])
    show "main_tasking im k = Inr ((put_sched s3 ?k2)\<lparr>test_mutex := mutex\<rparr>)"
      using i(1) c2(1) m(1)
      by (simp add: main_tasking_def in_sched_unit_def in_handlers_def in_sched_def s1_def [symmetric] Let_def)
  qed (use m i(2,3) in \<open>simp_all add: v2 s1_def e_def tstatus_def\<close>)
qed

lemma main_threads_run:
  assumes task: "tasking (thread_room + (thread_room + (thread_room + (thread_room + r)))) [] (sched_view k)"
    and boss: "tstatus (sched_view k) boss = Some THREAD_RUNNING"
  obtains p1 p2 p3 p4 k' where "main_threads im k = Inr k'" "tasking r [p3, p4, p2, p1] (sched_view k')"
    "\<forall>(f, x) \<in> set [(test1_at im, p1), (test2_at im, p2), (test4_at im, p4), (test3_at im, p3)]. starts im (sched_view k') f x"
    "current_running_tcb (sched_view k') = current_running_tcb (sched_view k)"
    "butler (sched_view k') = butler (sched_view k)"
    "tstatus (sched_view k') boss = Some THREAD_RUNNING" "boss \<notin> {p1, p2, p3, p4}"
    "threads_terminated (sched_view k') = threads_terminated (sched_view k)"
    "current_focus_tcb (sched_view k') = p1" "t1_tcb k' = p1" "t2_tcb k' = p2" "handlers k' = handlers k" "tables k' = tables k"
proof -
  let ?create = "\<lambda>f. in_sched (thread_create (thread_entry_at im) (thread_exit_at im) f)"
  have "\<forall>(f, x) \<in> set []. starts im (sched_view k) f x" by simp
  then obtain p3 s4 where d3: "?create (test3_at im) k = Inr (p3, put_sched s4 k)"
    "tasking (thread_room + (thread_room + (thread_room + r))) [p3] (sched_view (put_sched s4 k))"
    "\<forall>(f, x) \<in> set [(test3_at im, p3)]. starts im (sched_view (put_sched s4 k)) f x"
    "tcbs (sched_view k) p3 = None" "\<And>x. x \<noteq> p3 \<Longrightarrow> tstatus s4 x = tstatus (sched_view k) x"
    "current_running_tcb s4 = current_running_tcb (sched_view k)" "butler s4 = butler (sched_view k)"
    "threads_terminated s4 = threads_terminated (sched_view k)"
    by (rule create_step [OF task, where func = "test3_at im"]) simp
  let ?k4 = "put_sched s4 k"
  from d3(2,3) obtain p4 s5 where d4: "?create (test4_at im) ?k4 = Inr (p4, put_sched s5 ?k4)"
    "tasking (thread_room + (thread_room + r)) [p3, p4] (sched_view (put_sched s5 ?k4))"
    "\<forall>(f, x) \<in> set [(test4_at im, p4), (test3_at im, p3)]. starts im (sched_view (put_sched s5 ?k4)) f x"
    "tcbs s4 p4 = None" "\<And>x. x \<noteq> p4 \<Longrightarrow> tstatus s5 x = tstatus s4 x"
    "current_running_tcb s5 = current_running_tcb s4" "butler s5 = butler s4" "threads_terminated s5 = threads_terminated s4"
    by (rule create_step [where func = "test4_at im"]) simp
  let ?k5 = "put_sched s5 ?k4"
  from d4(2,3) obtain p2 s6 where d2: "?create (test2_at im) ?k5 = Inr (p2, put_sched s6 ?k5)"
    "tasking (thread_room + r) [p3, p4, p2] (sched_view ((put_sched s6 ?k5)\<lparr>t2_tcb := p2\<rparr>))"
    "\<forall>(f, x) \<in> set [(test2_at im, p2), (test4_at im, p4), (test3_at im, p3)].
      starts im (sched_view ((put_sched s6 ?k5)\<lparr>t2_tcb := p2\<rparr>)) f x"
    "tcbs s5 p2 = None" "\<And>x. x \<noteq> p2 \<Longrightarrow> tstatus s6 x = tstatus s5 x"
    "current_running_tcb s6 = current_running_tcb s5" "butler s6 = butler s5" "threads_terminated s6 = threads_terminated s5"
    by (rule create_step [where func = "test2_at im"]) simp
  let ?k6 = "(put_sched s6 ?k5)\<lparr>t2_tcb := p2\<rparr>"
  from d2(2,3) obtain p1 s7 where d1: "?create (test1_at im) ?k6 = Inr (p1, put_sched s7 ?k6)"
    "tasking r [p3, p4, p2, p1] s7"
    "\<forall>(f, x) \<in> set [(test1_at im, p1), (test2_at im, p2), (test4_at im, p4), (test3_at im, p3)]. starts im s7 f x"
    "tcbs s6 p1 = None" "\<And>x. x \<noteq> p1 \<Longrightarrow> tstatus s7 x = tstatus s6 x"
    "current_running_tcb s7 = current_running_tcb s6" "butler s7 = butler s6" "threads_terminated s7 = threads_terminated s6"
    by (rule create_step [where func = "test1_at im"]) simp
  define k' where "k' = (let k = (put_sched s7 ?k6)\<lparr>t1_tcb := p1\<rparr> in k\<lparr>sch := (sch k)\<lparr>current_focus_tcb := p1\<rparr>\<rparr>)"
  have v: "sched_view k' = s7\<lparr>current_focus_tcb := p1\<rparr>" by (simp add: k'_def sched_view_def put_sched_def)
  have f: "t1_tcb k' = p1" "t2_tcb k' = p2" "handlers k' = handlers k" "tables k' = tables k"
    by (simp_all add: k'_def Let_def)
  have run: "main_threads im k = Inr k'"
    using d3(1) d4(1) d2(1) d1(1) by (simp add: main_threads_def k'_def Let_def)
  have b: "tstatus s7 boss = Some THREAD_RUNNING \<and> boss \<notin> {p1, p2, p3, p4}"
  proof -
    note b3 = old_thread [OF boss d3(4,5)] note b4 = old_thread [OF b3(2) d4(4,5)]
    note b2 = old_thread [OF b4(2) d2(4,5)]
    from b3 b4 b2 old_thread [OF b2(2) d1(4,5)] show ?thesis by simp
  qed
  show thesis
  proof (rule that [OF run, of p3 p4 p2 p1])
    show "tasking r [p3, p4, p2, p1] (sched_view k')"
      using d1(2) by (simp add: v tasking_def at_rest_def placed_def)
    show "\<forall>(f, x) \<in> set [(test1_at im, p1), (test2_at im, p2), (test4_at im, p4), (test3_at im, p3)]. starts im (sched_view k') f x"
      using d1(3) by (simp add: v starts_def)
  qed (use b f d1(6-8) d2(6-8) d4(6-8) d3(6-8) in \<open>simp_all add: v tstatus_def\<close>)
qed

end
