(* ===== verification/Kernel_Run.thy ===== *)
theory Kernel_Run
  imports Kernel_Start
begin

text \<open>
  \<^verbatim>\<open>Main\<close> (\<^verbatim>\<open>src/src/Kernel.c\<close>) as a whole: from the state the boot code leaves to the moment at which
  the butler waits and the first demonstration thread runs.
\<close>

section \<open>The first round of the butler\<close>


section \<open>Memory\<close>








section \<open>Devices\<close>

lemma terminal_clear_fields [simp]:
  "sys (terminal_clear c) = sys c" "io (terminal_clear c) = io c" "serial_initalized (terminal_clear c) = serial_initalized c"
  by (simp_all add: terminal_clear_def)




section \<open>The whole start\<close>



section \<open>A concrete start\<close>









end
