(* ===== verification/Spec2Isabelle.thy ===== *)
theory Spec2Isabelle
  imports Page_Init Paging Heap_Init Console_Theorems Descriptors Keyboard Devices Dl_Theorems Boot_Theorems Kernel_Run
begin

text \<open>
  BartOS, a small kernel for the 32-bit PC in C and assembly (\<^verbatim>\<open>src/src\<close>), as a shallow embedding:
  every modelled C function is an executable HOL function under its own name, on an explicit state.

  \<^bold>\<open>The program.\<close> The boot loader passes a memory map to \<^verbatim>\<open>boot_init_mem\<close>, which builds page
  tables behind the kernel image, turns paging on, and pushes every free frame on a stack
  (\<^verbatim>\<open>init_kalloc\<close>). \<^verbatim>\<open>Main\<close> then loads the descriptor tables, clears the low mappings, maps the heap,
  registers the keyboard and the timer, creates threads and turns itself into the butler thread.
  The timer interrupt wakes sleeping threads and calls the scheduler; the keyboard interrupt
  queues packets for the focused thread and posts its semaphore.

  \<^bold>\<open>Values and outcomes\<close> (\<open>Kernel_Prelude\<close>, \<open>Kernel_Memory\<close>). \<^verbatim>\<open>u8\<close>, \<^verbatim>\<open>u16\<close>, \<^verbatim>\<open>u32\<close> and \<^verbatim>\<open>i32\<close> are words
  of their width, signed operations read them with \<open>sint\<close>, so wrap-around is the code's. A function
  that may not return normally has a result \<open>kfault + 'a\<close>: \<open>KPanic file line\<close> for \<^verbatim>\<open>kPanic\<close>
  (\<^verbatim>\<open>kernel_panic.h\<close>), \<open>Stuck\<close> for a loop that never ends or a \<^verbatim>\<open>NULL\<close> access, \<open>Undefined file line\<close>
  for an access outside of every object. Memory is a function from addresses to bytes with
  little-endian 32-bit loads and stores; the static variables of the memory modules are the record
  \<open>kmem\<close>. Loops that may run for ever are \<open>partial_function (option)\<close>, never fuel: \<open>None\<close> means that
  the loop does not return, and the properties prove that it does (or, for \<open>page_loop\<close>, that
  above \<open>0xFFFFF000\<close> it does not).

  \<^bold>\<open>Physical pages.\<close> \<open>Page_Bitmap\<close> (\<^verbatim>\<open>physical_memory_bitmap.c\<close>), \<open>Page_Stack\<close> (\<^verbatim>\<open>physical_memory_stack.c\<close>),
  \<open>Multiboot\<close> (\<^verbatim>\<open>multiboot.h\<close>), \<open>Page_Alloc\<close> (\<^verbatim>\<open>kernel_kalloc.c\<close>). \<open>Page_Pool\<close> states the invariant of the
  allocator, its locale and its runs; \<open>Page_Init\<close> says what a memory map becomes.

  \<^bold>\<open>Virtual memory.\<close> \<open>Paging\<close> (\<^verbatim>\<open>virtual_memory_manager.c\<close>) reads and writes the tables through their
  window at \<open>KERNEL_STRUCTURES_SPACE\<close>; the locale \<open>address_space\<close> is the contract of a mapping.
  \<open>Boot\<close>, \<open>Boot_Paging\<close>, \<open>Boot_Theorems\<close> (\<^verbatim>\<open>boot_memory_init.c\<close>) build the same tables in physical
  memory: \<open>walk\<close> is the translation of the processor, \<open>look\<close> the abstract list of blocks it refines,
  and \<open>boot_window_agrees\<close> joins both views. Turning paging on replaces physical memory by what is
  seen through the tables; two addresses that reach one frame are separate bytes from there on, so
  statements about later components concern areas that are used through one address only.

  \<^bold>\<open>Heap.\<close> \<open>Heap\<close> is \<^verbatim>\<open>kernel_heap.c\<close> and \<^verbatim>\<open>kernel_heap_malloc.c\<close> on bytes; \<open>Heap_Blocks\<close> and \<open>Heap_Alloc\<close>
  refine the headers to a list of blocks, \<open>Heap_Spec\<close> has the invariant and the effect of each
  operation, \<open>Heap_Contract\<close> the locale \<open>allocator\<close> and its interpretation, \<open>Heap_Theorems\<close> the
  properties. They hold for safe requests, those that do not take the last block with fewer than 32
  bytes to spare; there the code gives out the bytes of the right sentinel. \<open>Heap_Init\<close> is \<^verbatim>\<open>init_heap\<close>
  on the page allocator and the tables, \<open>Heap_Fresh\<close> requests to a heap without holes, which
  succeed. \<open>Dl_List\<close> (\<^verbatim>\<open>dl_list.h\<close>) is the list macro for an arbitrary element type on top of that
  heap; \<open>Dl_Refine\<close> and \<open>Dl_Theorems\<close> refine it to a sequence.

  \<^bold>\<open>Library and output.\<close> \<open>Lib\<close> (\<^verbatim>\<open>lib.c\<close>); \<open>Port_IO\<close> (\<^verbatim>\<open>io.asm\<close>, \<^verbatim>\<open>io_bus.h\<close>: what a device answers to the
  \<open>k\<close>-th read of a port is any function, writes are recorded); \<open>Console\<close> and \<open>Console_Theorems\<close>
  (\<^verbatim>\<open>vga.c\<close>, \<^verbatim>\<open>serial.c\<close>, \<^verbatim>\<open>print.c\<close>; the variadic arguments are the list of their 32-bit values).

  \<^bold>\<open>Interrupts and devices.\<close> \<open>Interrupts\<close> (\<^verbatim>\<open>interrupts_handlers.c\<close>), \<open>Descriptors\<close> (\<^verbatim>\<open>gdt.c\<close>,
  \<^verbatim>\<open>interrupt_descriptor.c\<close>, the tables as the processor decodes them), \<open>Devices\<close> (\<^verbatim>\<open>pit.c\<close>, \<^verbatim>\<open>ata.h\<close>,
  \<^verbatim>\<open>acpi.c\<close>), \<open>Keyboard\<close> (\<^verbatim>\<open>keyboard.c\<close>, \<^verbatim>\<open>key_queue.c\<close>).

  \<^bold>\<open>Threads.\<close> Control blocks, semaphores, queues and packets are typed stores, because C code reaches
  them only through typed pointers; the regions they lie in come from the modelled heap, whose
  properties keep live regions apart. \<open>Thread_List\<close> (\<^verbatim>\<open>thread_list.c\<close>, the locale \<open>fifo\<close>),
  \<open>Thread_Schedule\<close> (\<^verbatim>\<open>thread_schedule.c\<close>; a context switch changes the current thread, the one
  that waits in the \<^verbatim>\<open>hlt\<close> loop is the field \<open>halted\<close>), \<open>Thread_Sync\<close> (\<^verbatim>\<open>thread_semaphore.c\<close>, with an
  inductive step relation for runs), \<open>Thread_Time\<close> (\<^verbatim>\<open>thread_time.c\<close>, \<^verbatim>\<open>thread_terminate.c\<close>,
  \<^verbatim>\<open>thread_create.c\<close>, \<^verbatim>\<open>threads.c\<close>, \<^verbatim>\<open>thread_gates.c\<close>; creation is proved in \<open>Thread_Create\<close>).
  \<open>preempt\<close> is the end of a time slice, the last lines of \<^verbatim>\<open>pit_interrupt\<close> without the tick and the
  test for the third tick; the runs and the race use it, \<open>pit_interrupt\<close> itself is modelled whole. A function that waits inside is split where another
  thread or an interrupt can run, and the properties about races are sequences of the parts.

  \<^bold>\<open>The main program.\<close> \<open>Kernel_Main\<close> is \<^verbatim>\<open>Kernel.c\<close>: \<open>Main\<close> in its steps, with the messages of
  \<^verbatim>\<open>init_heap\<close>, and the four demonstration threads in parts split where they wait. Its state joins the
  states of the components; memory and the interrupt flag are handed over between the console and
  the thread modules. \<open>Serial_Log\<close> proves that printing to the serial port returns and touches
  nothing but the number buffer; \<open>Kernel_Start\<close> and \<open>Kernel_Run\<close> carry what the steps need from one to
  the next and show that \<open>Main\<close> reaches the first demonstration thread. That run has no interrupts in
  it, although the code enables them in \<^verbatim>\<open>init_keyboard\<close>.

  \<^bold>\<open>What is shown.\<close> Invariants of the page pool, the heap, the tables, the cursor, the semaphores; the
  result of each operation on its branches; round trips (allocate and free, number and text, gate and
  processor); refinement of the linked list to a sequence and of the boot tables to blocks;
  agreement of \<open>getPhysicalAddress\<close> with the processor; round-robin scheduling; and, where the code
  does something other than it means to, a theorem that exhibits it. Every property with a hypothesis
  has a witness on a concrete state.

  \<^bold>\<open>Not modelled.\<close> The assembly (entry, interrupt stubs, register saving); the translation buffer of
  the processor, which the code flushes with \<^verbatim>\<open>invlpg\<close>; the printed texts of diagnostic routines
  (\<^verbatim>\<open>heap_debug\<close>, \<^verbatim>\<open>list_thread_display\<close>, the register dumps of \<^verbatim>\<open>isr_handler\<close> and \<^verbatim>\<open>pageFault\<close>); the
  screen of \<^verbatim>\<open>kPanic\<close>; interrupts in the middle of a modelled function, except where it is split; empty files
  (\<^verbatim>\<open>terminal.c\<close>, \<^verbatim>\<open>ata.c\<close>, \<^verbatim>\<open>driver_manager.c\<close>).
\<close>

end
